(* ===== verification/Gocell_Prelude.thy ===== *)
theory Gocell_Prelude
  imports Main "HOL-Library.AList" "HOL-Library.Char_ord" "HOL-Library.List_Lexorder"
    "HOL-Library.Product_Lexorder"
begin

text \<open>
  Shared vocabulary of the development: Go's fixed-width integers, instants and durations,
  the error values of \<^verbatim>\<open>framework/pkg/errcode\<close>, Go's decimal formatting, and the lemmas on
  association lists (the model of Go maps that are iterated over) used by every component.

  \<^item> An instant (\<^verbatim>\<open>time.Time\<close>) is the number of nanoseconds since Go's zero time
    (1 January of year 1), so \<^verbatim>\<open>t.IsZero()\<close> is \<open>t = 0\<close>, \<^verbatim>\<open>t.Before(u)\<close> is
    \<open>t < u\<close> and \<^verbatim>\<open>t.Add(d)\<close> is \<open>t + d\<close>.
  \<^item> A duration (\<^verbatim>\<open>time.Duration\<close>) and a Go \<^verbatim>\<open>int\<close>/\<^verbatim>\<open>int64\<close> is an \<open>int\<close>;
    where the code does arithmetic on one, the two's complement wrap-around at 64 bits is
    written out with \<open>i64\<close>.
  \<^item> A Go error is a \<open>goerr\<close>, a fallible result is \<open>goerr + 'a\<close> with \<open>Inl\<close> the error.
  \<^item> A Go string or byte slice is a \<open>string\<close> (a list of bytes).
\<close>

named_theorems go_defs \<open>definitions of the model that proofs unfold together\<close>
named_theorems go_splits \<open>case splits of the model's result types\<close>
named_theorems inv_intros \<open>preservation lemmas of component invariants\<close>

type_synonym instant = int
type_synonym duration = int
type_synonym safeid = string
type_synonym bytes = string

subsection \<open>Fixed-width integers\<close>

definition min_i64 :: int where
  "min_i64 = - (2 ^ 63)"

definition max_i64 :: int where
  "max_i64 = 2 ^ 63 - 1"

definition i64 :: "int \<Rightarrow> int" where
  "i64 x = (x + 2 ^ 63) mod 2 ^ 64 - 2 ^ 63"

definition in_i64 :: "int \<Rightarrow> bool" where
  "in_i64 x \<longleftrightarrow> min_i64 \<le> x \<and> x \<le> max_i64"

definition u32 :: "nat \<Rightarrow> nat" where
  "u32 n = n mod 2 ^ 32"

definition u64 :: "nat \<Rightarrow> nat" where
  "u64 n = n mod 2 ^ 64"

text \<open>\<^verbatim>\<open>time.Time.Sub\<close> saturates at the ends of the duration range.\<close>

definition time_Sub :: "instant \<Rightarrow> instant \<Rightarrow> duration" where
  "time_Sub t u = max min_i64 (min max_i64 (t - u))"

text \<open>Go's integer division truncates towards zero.\<close>

definition go_div :: "int \<Rightarrow> int \<Rightarrow> int" where
  "go_div a b = sgn a * sgn b * (\<bar>a\<bar> div \<bar>b\<bar>)"

definition nanosecond :: duration where "nanosecond = 1"
definition millisecond :: duration where "millisecond = 1000000"
definition second :: duration where "second = 1000 * millisecond"
definition minute :: duration where "minute = 60 * second"
definition hour :: duration where "hour = 60 * minute"

lemmas duration_defs = nanosecond_def millisecond_def second_def minute_def hour_def

subsection \<open>Errors\<close>

datatype ekind =
    KindInternal | KindInvalid | KindUnauthenticated | KindPermissionDenied | KindNotFound
  | KindConflict | KindUnprocessable | KindGone | KindPayloadTooLarge | KindRateLimited
  | KindClientClosed | KindDeadlineExceeded | KindUnavailable | KindNotImplemented

datatype ecode =
    ErrValidationFailed | ErrConflict | ErrInternal | ErrServiceUnavailable | ErrRateLimited
  | ErrSagaNotFound | ErrSagaDuplicateInstance | ErrSagaStaleLease | ErrSagaStopTimeout
  | ErrSagaFoldUnknownKind | ErrDistlockTimeout
  | ErrCommandNotFound | ErrCommandDuplicate
  | ErrIdempotencyLeaseExpired | ErrIdempotencyNoClaimLease
  | ErrCircuitBreakerConfig
  | ErrBusClosed | ErrEnvelopeSchema | ErrRelayBudgetExhausted | errRelayOp

text \<open>
  \<open>Errcode\<close> is an \<^verbatim>\<open>*errcode.Error\<close> with its kind, code and constant message,
  \<open>ErrorsNew\<close> a plain \<^verbatim>\<open>errors.New\<close>, and \<open>Wrap\<close> the result of
  \<^verbatim>\<open>fmt.Errorf("...: %w", err)\<close>, which \<^verbatim>\<open>errors.Is\<close> and \<^verbatim>\<open>errors.As\<close> look through.
  \<open>ErrcodeWrap\<close> is the result of \<^verbatim>\<open>errcode.Wrap\<close>, an \<^verbatim>\<open>*errcode.Error\<close> with a cause, and \<open>Permanent\<close>
  the \<^verbatim>\<open>*outbox.PermanentError\<close> around an error.
  \<open>CtxCanceled\<close> and \<open>CtxDeadlineExceeded\<close> are the two context errors.
\<close>

datatype goerr =
    Errcode ekind ecode string
  | ErrorsNew string
  | Wrap string goerr
  | ErrcodeWrap ekind ecode string goerr
  | Permanent goerr
  | CtxCanceled
  | CtxDeadlineExceeded

type_synonym 'a res = "goerr + 'a"

text \<open>\<^verbatim>\<open>errors.As(err, &ec)\<close>: the first \<^verbatim>\<open>errcode.Error\<close> in the chain.\<close>

fun errors_As :: "goerr \<Rightarrow> (ekind \<times> ecode \<times> string) option" where
  "errors_As (Errcode k c m) = Some (k, c, m)"
| "errors_As (ErrcodeWrap k c m _) = Some (k, c, m)"
| "errors_As (Wrap _ e) = errors_As e"
| "errors_As (Permanent e) = errors_As e"
| "errors_As _ = None"

text \<open>\<^verbatim>\<open>errors.Is(err, target)\<close> for a target that is compared by identity.\<close>

fun errors_Is :: "goerr \<Rightarrow> goerr \<Rightarrow> bool" where
  "errors_Is (Wrap m e) t = (Wrap m e = t \<or> errors_Is e t)"
| "errors_Is (ErrcodeWrap k c m e) t = (ErrcodeWrap k c m e = t \<or> errors_Is e t)"
| "errors_Is (Permanent e) t = (Permanent e = t \<or> errors_Is e t)"
| "errors_Is e t = (e = t)"

definition invalid :: "string \<Rightarrow> goerr" where
  "invalid m = Errcode KindInvalid ErrValidationFailed m"

text \<open>Sequencing of fallible code: the first error is returned, as \<^verbatim>\<open>if err != nil { return err }\<close> does.\<close>

fun and_then :: "'a res \<Rightarrow> ('a \<Rightarrow> 'b res) \<Rightarrow> 'b res" where
  "and_then (Inl e) f = Inl e"
| "and_then (Inr a) f = f a"

definition check :: "bool \<Rightarrow> goerr \<Rightarrow> unit res" where
  "check b e = (if b then Inr () else Inl e)"

fun is_ok :: "'a res \<Rightarrow> bool" where
  "is_ok (Inr _) = True"
| "is_ok (Inl _) = False"

subsection \<open>Decimal formatting\<close>

definition digit_char :: "nat \<Rightarrow> char" where
  "digit_char d = char_of (48 + d)"

fun show_nat :: "nat \<Rightarrow> string" where
  "show_nat n = (if n < 10 then [digit_char n] else show_nat (n div 10) @ [digit_char (n mod 10)])"

declare show_nat.simps [simp del]

definition is_digit :: "char \<Rightarrow> bool" where
  "is_digit c \<longleftrightarrow> 48 \<le> (of_char c :: nat) \<and> (of_char c :: nat) \<le> 57"

text \<open>The inverse of the formatting, used to show that keys built from it are unambiguous.\<close>

definition digit_value :: "char \<Rightarrow> nat" where
  "digit_value c = of_char c - 48"

definition read_nat :: "string \<Rightarrow> nat" where
  "read_nat s = foldl (\<lambda>n c. 10 * n + digit_value c) 0 s"

subsection \<open>Lemmas on integers\<close>

lemma i64_id [simp]: "in_i64 x \<Longrightarrow> i64 x = x"
  by (simp add: i64_def in_i64_def min_i64_def max_i64_def)

lemma i64_range: "in_i64 (i64 x)"
proof -
  have "0 \<le> (x + 2 ^ 63) mod 2 ^ 64" "(x + 2 ^ 63) mod 2 ^ 64 < 2 ^ 64" by simp_all
  then show ?thesis by (simp add: i64_def in_i64_def min_i64_def max_i64_def)
qed

lemma i64_idem [simp]: "i64 (i64 x) = i64 x"
  by (simp add: i64_range)

lemma in_i64I: "min_i64 \<le> x \<Longrightarrow> x \<le> max_i64 \<Longrightarrow> in_i64 x"
  by (simp add: in_i64_def)

lemma time_Sub_range: "in_i64 (time_Sub t u)"
  by (simp add: time_Sub_def in_i64_def min_i64_def max_i64_def)

lemma time_Sub_gt: "d < max_i64 \<Longrightarrow> min_i64 \<le> d \<Longrightarrow> time_Sub t u > d \<longleftrightarrow> t - u > d"
  by (auto simp: time_Sub_def max_def min_def min_i64_def max_i64_def)

lemma go_div_nonneg: "0 \<le> a \<Longrightarrow> 0 < b \<Longrightarrow> go_div a b = a div b"
  by (cases "a = 0") (simp_all add: go_div_def)

subsection \<open>Lemmas on results\<close>

lemma and_then_Inr: "and_then r f = Inr b \<longleftrightarrow> (\<exists>a. r = Inr a \<and> f a = Inr b)"
  by (cases r) auto

lemma and_then_Inl: "and_then r f = Inl e \<longleftrightarrow> r = Inl e \<or> (\<exists>a. r = Inr a \<and> f a = Inl e)"
  by (cases r) auto

lemma check_Inr [simp]: "check b e = Inr u \<longleftrightarrow> b"
  by (simp add: check_def)

lemma check_Inl [simp]: "check b e = Inl e' \<longleftrightarrow> \<not> b \<and> e' = e"
  by (auto simp: check_def)

lemma check_True [simp]: "check True e = Inr ()"
  by (simp add: check_def)

lemma check_False [simp]: "check False e = Inl e"
  by (simp add: check_def)

lemma is_ok_iff: "is_ok r \<longleftrightarrow> (\<exists>a. r = Inr a)"
  by (cases r) auto

lemmas res_simps = and_then_Inr and_then_Inl is_ok_iff

subsection \<open>Lemmas on decimal formatting\<close>

lemma of_char_digit_char: "d < 10 \<Longrightarrow> of_char (digit_char d) = (48 + d :: nat)"
  by (simp add: digit_char_def)

lemma is_digit_digit_char: "d < 10 \<Longrightarrow> is_digit (digit_char d)"
  by (simp add: is_digit_def of_char_digit_char)

lemma digit_value_digit_char: "d < 10 \<Longrightarrow> digit_value (digit_char d) = d"
  by (simp add: digit_value_def of_char_digit_char)

lemma show_nat_digits: "c \<in> set (show_nat n) \<Longrightarrow> is_digit c"
proof (induction n rule: show_nat.induct)
  case (1 n)
  then show ?case
    by (cases "n < 10") (auto simp: show_nat.simps [of n] is_digit_digit_char)
qed

lemma show_nat_nonempty: "show_nat n \<noteq> []"
  by (subst show_nat.simps) simp

lemma read_show_nat: "read_nat (show_nat n) = n"
proof (induction n rule: show_nat.induct)
  case (1 n)
  show ?case
  proof (cases "n < 10")
    case True
    then show ?thesis
      by (simp add: show_nat.simps [of n] read_nat_def digit_value_digit_char)
  next
    case False
    with 1 have "foldl (\<lambda>n c. 10 * n + digit_value c) 0 (show_nat (n div 10)) = n div 10"
      by (simp add: read_nat_def)
    with False show ?thesis
      by (simp add: show_nat.simps [of n] read_nat_def digit_value_digit_char)
  qed
qed

lemma show_nat_inject: "show_nat m = show_nat n \<Longrightarrow> m = n"
  by (metis read_show_nat)

text \<open>A separator that does not occur before it splits a string in one way only.\<close>

lemma split_at_sep:
  assumes "s \<notin> set xs" and "s \<notin> set ys" and "xs @ s # us = ys @ s # vs"
  shows "xs = ys \<and> us = vs"
  using assms
proof (induction xs arbitrary: ys)
  case Nil
  then show ?case by (cases ys) auto
next
  case (Cons x xs)
  then show ?case by (cases ys) auto
qed

subsection \<open>Lemmas on association lists\<close>

lemma distinct_keys_update [simp]:
  "distinct (map fst (AList.update k v al)) \<longleftrightarrow> distinct (map fst al)"
  by (simp add: update_keys)

lemma keys_update_present:
  "map_of al k = Some w \<Longrightarrow> map fst (AList.update k v al) = map fst al"
  by (simp add: update_keys) (metis domI dom_map_of_conv_image_fst)

lemma map_of_iff_mem: "distinct (map fst al) \<Longrightarrow> map_of al k = Some v \<longleftrightarrow> (k, v) \<in> set al"
  by simp

lemma update_mem_iff:
  assumes "distinct (map fst al)"
  shows "(x, w) \<in> set (AList.update k v al) \<longleftrightarrow>
         (if x = k then w = v else (x, w) \<in> set al)"
proof -
  have "(x, w) \<in> set (AList.update k v al) \<longleftrightarrow> map_of (AList.update k v al) x = Some w"
    using assms by simp
  also have "\<dots> \<longleftrightarrow> (if x = k then w = v else map_of al x = Some w)"
    by (auto simp: update_conv')
  finally show ?thesis using assms by simp
qed

lemma map_of_filter_key:
  "distinct (map fst al) \<Longrightarrow>
   map_of (filter P al) k = (case map_of al k of None \<Rightarrow> None | Some v \<Rightarrow> if P (k, v) then Some v else None)"
proof (induction al)
  case (Cons p al)
  obtain a b where p: "p = (a, b)" by (cases p)
  with Cons.prems have "map_of al a = None" by (simp add: map_of_eq_None_iff)
  with Cons p show ?case by (auto split: option.splits)
qed simp

subsection \<open>Lemmas on sorted lists\<close>

lemma sorted_take_drop:
  assumes "sorted (map g xs)" and "x \<in> set (take n xs)" and "y \<in> set xs" and "y \<notin> set (take n xs)"
  shows "g x \<le> g y"
proof -
  from assms(3,4) have "y \<in> set (drop n xs)" by (metis Un_iff append_take_drop_id set_append)
  moreover have "sorted (map g (take n xs) @ map g (drop n xs))" using assms(1) by (metis append_take_drop_id map_append)
  ultimately show ?thesis using assms(2) by (auto simp: sorted_append)
qed

end
