(* ===== verification/Safe_Id.thy ===== *)
theory Safe_Id
  imports Gocell_Prelude
begin

text \<open>
  Identifiers of \<^verbatim>\<open>framework/pkg/idutil\<close>: the safe character set, the length cap and the
  parser that guards every identifier read from the wire. An identifier is modelled by its
  bytes; the empty one is the absent value.
\<close>

definition MaxMetadataIDLen :: nat where
  "MaxMetadataIDLen = 256"

definition char_between :: "char \<Rightarrow> char \<Rightarrow> char \<Rightarrow> bool" where
  "char_between lo hi c = (lo \<le> c \<and> c \<le> hi)"

definition safe_char :: "char \<Rightarrow> bool" where
  "safe_char c =
     (char_between (CHR ''a'') (CHR ''z'') c \<or> char_between (CHR ''A'') (CHR ''Z'') c \<or>
      char_between (CHR ''0'') (CHR ''9'') c \<or>
      c = CHR ''.'' \<or> c = CHR ''_'' \<or> c = CHR '':'' \<or> c = CHR ''/'' \<or> c = CHR ''-'')"

fun all_safe :: "string \<Rightarrow> bool" where
  "all_safe [] = True"
| "all_safe (c # s) = (if safe_char c then all_safe s else False)"

definition IsSafeID :: "string \<Rightarrow> bool" where
  "IsSafeID s = (if length s = 0 then False else all_safe s)"

definition validateSafeIDString :: "string \<Rightarrow> unit res" where
  "validateSafeIDString s =
     (if s = [] then Inr ()
      else if length s > MaxMetadataIDLen then Inl (ErrorsNew ''idutil: SafeID too long'')
      else if \<not> IsSafeID s then Inl (ErrorsNew ''idutil: SafeID contains unsafe characters'')
      else Inr ())"

definition SafeID_Validate :: "safeid \<Rightarrow> unit res" where
  "SafeID_Validate s = validateSafeIDString s"

definition ParseSafeID :: "string \<Rightarrow> safeid res" where
  "ParseSafeID s = (case validateSafeIDString s of Inl e \<Rightarrow> Inl e | Inr _ \<Rightarrow> Inr s)"

text \<open>What a present identifier promises to its users.\<close>

definition safe_id :: "safeid \<Rightarrow> bool" where
  "safe_id s \<longleftrightarrow> s \<noteq> [] \<and> length s \<le> MaxMetadataIDLen \<and> (\<forall>c \<in> set s. safe_char c)"

text \<open>Lengths are compared as integers in evaluation: numerals of type \<^typ>\<open>nat\<close> evaluate in unary.\<close>

lemma validateSafeIDString_code [code]:
  "validateSafeIDString s =
     (if s = [] then Inr ()
      else if int (length s) > 256 then Inl (ErrorsNew ''idutil: SafeID too long'')
      else if \<not> IsSafeID s then Inl (ErrorsNew ''idutil: SafeID contains unsafe characters'')
      else Inr ())"
  by (simp add: validateSafeIDString_def MaxMetadataIDLen_def)

lemma safe_id_code [code]: "safe_id s \<longleftrightarrow> s \<noteq> [] \<and> int (length s) \<le> 256 \<and> list_all safe_char s"
  by (simp add: safe_id_def MaxMetadataIDLen_def list_all_iff)

lemma all_safe_iff: "all_safe s \<longleftrightarrow> (\<forall>c \<in> set s. safe_char c)"
  by (induction s) auto

lemma validateSafeIDString_ok:
  "validateSafeIDString s = Inr u \<longleftrightarrow> s = [] \<or> safe_id s"
  by (auto simp: validateSafeIDString_def safe_id_def IsSafeID_def all_safe_iff)

lemma SafeID_Validate_ok: "SafeID_Validate s = Inr u \<longleftrightarrow> s = [] \<or> safe_id s"
  by (simp add: SafeID_Validate_def validateSafeIDString_ok)

lemma SafeID_Validate_bad: "s \<noteq> [] \<Longrightarrow> (\<exists>e. SafeID_Validate s = Inl e) \<longleftrightarrow> \<not> safe_id s"
  using SafeID_Validate_ok [of s] by (cases "SafeID_Validate s") auto

lemma ParseSafeID_ok: "ParseSafeID s = Inr t \<longleftrightarrow> t = s \<and> (s = [] \<or> safe_id s)"
  using validateSafeIDString_ok [of s] by (auto simp: ParseSafeID_def split: sum.splits)

end
