(* ===== verification/Fsm.thy ===== *)
theory Fsm
  imports Gocell_Prelude
begin

text \<open>
  The transition-table helpers of \<^verbatim>\<open>framework/kernel/fsm\<close>, and the interface that the state
  machines built on them satisfy. A table maps a state to its list of targets; a state that is
  absent from the Go map has the empty list.

  The locale \<open>fsm_table\<close> is the contract of a table with terminal states; \<open>fsm_ranked\<close> is the
  contract of a table that has no cycle. The saga, command and outbox tables interpret them.
\<close>

definition CanTransition :: "('s \<Rightarrow> 's list) \<Rightarrow> 's \<Rightarrow> 's \<Rightarrow> bool" where
  "CanTransition table s t = List.member (table s) t"

definition AllowedTargets :: "('s \<Rightarrow> 's list) \<Rightarrow> 's \<Rightarrow> 's list option" where
  "AllowedTargets table s = (let targets = table s in
     if length targets = 0 then None else Some targets)"

text \<open>A run is a sequence of accepted transitions.\<close>

fun legal_run :: "('s \<Rightarrow> 's list) \<Rightarrow> 's \<Rightarrow> 's list \<Rightarrow> bool" where
  "legal_run table s [] = True"
| "legal_run table s (t # ts) = (CanTransition table s t \<and> legal_run table t ts)"

fun end_state :: "'s \<Rightarrow> 's list \<Rightarrow> 's" where
  "end_state s [] = s"
| "end_state s (t # ts) = end_state t ts"

lemma CanTransition_iff [simp]: "CanTransition table s t \<longleftrightarrow> t \<in> set (table s)"
  by (simp add: CanTransition_def)

lemma AllowedTargets_None: "AllowedTargets table s = None \<longleftrightarrow> (\<forall>t. \<not> CanTransition table s t)"
  by (auto simp: AllowedTargets_def Let_def split: if_splits)

lemma AllowedTargets_Some:
  "AllowedTargets table s = Some ts \<Longrightarrow> t \<in> set ts \<longleftrightarrow> CanTransition table s t"
  by (auto simp: AllowedTargets_def Let_def split: if_splits)

lemma legal_run_append:
  "legal_run table s (xs @ ys) \<longleftrightarrow> legal_run table s xs \<and> legal_run table (end_state s xs) ys"
  by (induction xs arbitrary: s) auto

locale fsm_table =
  fixes table :: "'s \<Rightarrow> 's list" and terminal :: "'s \<Rightarrow> bool"
  assumes terminal_no_edge: "terminal s \<Longrightarrow> table s = []"
begin

lemma terminal_stuck: "terminal s \<Longrightarrow> \<not> CanTransition table s t"
  by (simp add: terminal_no_edge)

lemma terminal_run: "terminal s \<Longrightarrow> legal_run table s ts \<longleftrightarrow> ts = []"
  by (cases ts) (auto simp: terminal_no_edge)

lemma terminal_only_last:
  assumes "legal_run table s (xs @ t # ys)" and "terminal t"
  shows "ys = []"
proof -
  from assms(1) have "legal_run table t ys" by (auto simp: legal_run_append)
  with assms(2) show ?thesis by (simp add: terminal_run)
qed

lemma terminal_no_targets: "terminal s \<Longrightarrow> AllowedTargets table s = None"
  by (simp add: AllowedTargets_None terminal_no_edge)

end

locale fsm_ranked = fsm_table +
  fixes rank :: "'s \<Rightarrow> nat"
  assumes rank_decreases: "t \<in> set (table s) \<Longrightarrow> rank t < rank s"
begin

lemma run_length_bound: "legal_run table s ts \<Longrightarrow> length ts + rank (end_state s ts) \<le> rank s"
proof (induction ts arbitrary: s)
  case (Cons t ts)
  then have "rank t < rank s" and "length ts + rank (end_state t ts) \<le> rank t"
    by (auto intro: rank_decreases)
  then show ?case by simp
qed simp

lemma never_revisits: "legal_run table s ts \<Longrightarrow> ts \<noteq> [] \<Longrightarrow> end_state s ts \<noteq> s"
  using run_length_bound [of s ts] by (cases ts) auto

end

end
