(* ===== verification/Saga_Core.thy ===== *)
theory Saga_Core
  imports Safe_Id Fsm
begin

text \<open>
  The kernel saga vocabulary of \<^verbatim>\<open>framework/kernel/saga\<close>: the status machine, the instance
  record with the operations that advance it, the static definition with its validators and the
  in-memory registry.

  A \<^verbatim>\<open>Status\<close> byte that is none of the named constants is \<open>StatusOther n\<close> (0, or a value above 8).
  A step's \<^verbatim>\<open>Run\<close> and \<^verbatim>\<open>Compensate\<close> functions are code of the application: their types are type
  parameters of the step record, \<open>None\<close> is the nil function.
\<close>

section \<open>Definitions\<close>

subsection \<open>Status machine (status.go)\<close>

datatype saga_status =
    StatusPending | StatusRunning | StatusCompensating | StatusSucceeded | StatusFailed
  | StatusCompensated | StatusExpired | StatusCompensationFailed
  | StatusOther nat

fun saga_status_Valid :: "saga_status \<Rightarrow> bool" where
  "saga_status_Valid (StatusOther _) = False"
| "saga_status_Valid _ = True"

fun saga_status_String :: "saga_status \<Rightarrow> string" where
  "saga_status_String StatusPending = ''pending''"
| "saga_status_String StatusRunning = ''running''"
| "saga_status_String StatusCompensating = ''compensating''"
| "saga_status_String StatusSucceeded = ''succeeded''"
| "saga_status_String StatusFailed = ''failed''"
| "saga_status_String StatusCompensated = ''compensated''"
| "saga_status_String StatusExpired = ''expired''"
| "saga_status_String StatusCompensationFailed = ''compensation_failed''"
| "saga_status_String (StatusOther n) =
     (if n = 0 then ''invalid'' else ''status('' @ show_nat n @ '')'')"

fun saga_IsTerminal :: "saga_status \<Rightarrow> bool" where
  "saga_IsTerminal StatusSucceeded = True"
| "saga_IsTerminal StatusFailed = True"
| "saga_IsTerminal StatusCompensated = True"
| "saga_IsTerminal StatusExpired = True"
| "saga_IsTerminal StatusCompensationFailed = True"
| "saga_IsTerminal _ = False"

fun saga_statusTransitions :: "saga_status \<Rightarrow> saga_status list" where
  "saga_statusTransitions StatusPending = [StatusRunning, StatusFailed, StatusExpired]"
| "saga_statusTransitions StatusRunning =
     [StatusSucceeded, StatusCompensating, StatusFailed, StatusExpired]"
| "saga_statusTransitions StatusCompensating =
     [StatusCompensated, StatusCompensationFailed, StatusExpired]"
| "saga_statusTransitions _ = []"

definition saga_CanTransitionTo :: "saga_status \<Rightarrow> saga_status \<Rightarrow> bool" where
  "saga_CanTransitionTo s target = CanTransition saga_statusTransitions s target"

definition saga_ValidTransitions :: "saga_status \<Rightarrow> saga_status list option" where
  "saga_ValidTransitions s = AllowedTargets saga_statusTransitions s"

definition saga_Transition :: "saga_status \<Rightarrow> saga_status \<Rightarrow> unit res" where
  "saga_Transition from to =
     (if saga_CanTransitionTo from to then Inr ()
      else Inl (invalid ''saga: invalid status transition''))"

subsection \<open>Instances (instance.go)\<close>

record saga_instance =
  inst_ID :: safeid
  inst_DefinitionID :: safeid
  inst_Status :: saga_status
  inst_CurrentStep :: int
  inst_StartedAt :: instant
  inst_UpdatedAt :: "instant option"
  inst_CompletedAt :: "instant option"

definition NewInstance :: "safeid \<Rightarrow> safeid \<Rightarrow> instant \<Rightarrow> saga_instance" where
  "NewInstance iid definitionID now =
     \<lparr>inst_ID = iid, inst_DefinitionID = definitionID, inst_Status = StatusPending,
      inst_CurrentStep = 0, inst_StartedAt = now, inst_UpdatedAt = None,
      inst_CompletedAt = None\<rparr>"

definition validateIdentity :: "saga_instance \<Rightarrow> unit res" where
  "validateIdentity i =
     (if inst_ID i = [] then Inl (invalid ''saga: instance missing ID'')
      else case SafeID_Validate (inst_ID i) of
        Inl _ \<Rightarrow> Inl (invalid ''saga: instance has invalid ID'')
      | Inr _ \<Rightarrow>
        (if inst_DefinitionID i = [] then Inl (invalid ''saga: instance missing DefinitionID'')
         else case SafeID_Validate (inst_DefinitionID i) of
           Inl _ \<Rightarrow> Inl (invalid ''saga: instance has invalid DefinitionID'')
         | Inr _ \<Rightarrow> Inr ()))"

definition validateInitialState :: "saga_instance \<Rightarrow> unit res" where
  "validateInitialState i =
     (if \<not> saga_status_Valid (inst_Status i) then Inl (invalid ''saga: instance has invalid Status'')
      else if inst_Status i \<noteq> StatusPending
        then Inl (invalid ''saga: new instance must have Pending status'')
      else if inst_CurrentStep i \<noteq> 0
        then Inl (invalid ''saga: new instance must have CurrentStep=0'')
      else if inst_StartedAt i = 0 then Inl (invalid ''saga: instance missing StartedAt'')
      else if inst_UpdatedAt i \<noteq> None \<or> inst_CompletedAt i \<noteq> None
        then Inl (invalid ''saga: new instance must not have UpdatedAt/CompletedAt timestamps'')
      else Inr ())"

definition saga_ValidateNew :: "saga_instance \<Rightarrow> unit res" where
  "saga_ValidateNew i = and_then (validateIdentity i) (\<lambda>_. validateInitialState i)"

subsection \<open>Advancing an instance (advance.go)\<close>

text \<open>
  The Go functions take a pointer and mutate it; here a nil pointer is \<open>None\<close>, the updated
  instance is returned, and an error leaves the caller with the instance it had.
\<close>

definition guardMonotonic :: "saga_instance \<Rightarrow> instant \<Rightarrow> unit res" where
  "guardMonotonic inst now =
     (if now < inst_StartedAt inst
      then Inl (invalid ''saga: advance now precedes StartedAt (clock skew?)'')
      else case inst_UpdatedAt inst of
        Some u \<Rightarrow> if now < u
          then Inl (invalid ''saga: advance now precedes previous UpdatedAt (clock skew?)'')
          else Inr ()
      | None \<Rightarrow> Inr ())"

definition AdvanceSaga :: "saga_instance option \<Rightarrow> saga_status \<Rightarrow> instant \<Rightarrow> saga_instance res" where
  "AdvanceSaga iopt to now =
     (case iopt of
        None \<Rightarrow> Inl (invalid ''saga: nil Instance'')
      | Some inst \<Rightarrow>
        and_then (saga_Transition (inst_Status inst) to) (\<lambda>_.
        and_then (guardMonotonic inst now) (\<lambda>_.
          let inst = inst\<lparr>inst_UpdatedAt := Some now\<rparr>;
              inst = (if saga_IsTerminal to then inst\<lparr>inst_CompletedAt := Some now\<rparr> else inst)
          in Inr (inst\<lparr>inst_Status := to\<rparr>))))"

definition AdvanceStep :: "saga_instance option \<Rightarrow> int \<Rightarrow> instant \<Rightarrow> saga_instance res" where
  "AdvanceStep iopt stepCount now =
     (case iopt of
        None \<Rightarrow> Inl (invalid ''saga: nil Instance'')
      | Some inst \<Rightarrow>
        if inst_Status inst \<noteq> StatusRunning
          then Inl (invalid ''saga: AdvanceStep requires Running status'')
        else if stepCount \<le> 0
          then Inl (invalid ''saga: AdvanceStep requires positive stepCount'')
        else if inst_CurrentStep inst < 0
          then Inl (invalid ''saga: AdvanceStep on instance with negative CurrentStep'')
        else if inst_CurrentStep inst \<ge> i64 (stepCount - 1)
          then Inl (invalid ''saga: AdvanceStep would exceed step count'')
        else and_then (guardMonotonic inst now) (\<lambda>_.
          Inr (inst\<lparr>inst_CurrentStep := i64 (inst_CurrentStep inst + 1),
                     inst_UpdatedAt := Some now\<rparr>)))"

subsection \<open>Definitions and the registry (definition.go)\<close>

record retry_policy =
  rp_MaxAttempts :: int
  rp_BaseInterval :: duration
  rp_MaxInterval :: duration

record ('run, 'comp) saga_step =
  step_Name :: safeid
  step_Run :: "'run option"
  step_Compensate :: "'comp option"
  step_Timeout :: duration
  step_RetryPolicy :: retry_policy

record ('run, 'comp) saga_definition =
  def_ID :: safeid
  def_Steps :: "('run, 'comp) saga_step list"
  def_Timeout :: duration
  def_RetryPolicy :: retry_policy

definition RetryPolicy_Validate :: "retry_policy \<Rightarrow> unit res" where
  "RetryPolicy_Validate p =
     (if rp_MaxAttempts p < 0 then Inl (invalid ''saga retry policy: MaxAttempts must be >= 0'')
      else if rp_BaseInterval p < 0
        then Inl (invalid ''saga retry policy: BaseInterval must be >= 0'')
      else if rp_MaxInterval p < 0
        then Inl (invalid ''saga retry policy: MaxInterval must be >= 0'')
      else if rp_BaseInterval p > 0 \<and> rp_MaxInterval p > 0 \<and> rp_MaxInterval p < rp_BaseInterval p
        then Inl (invalid ''saga retry policy: MaxInterval must be >= BaseInterval'')
      else Inr ())"

definition Definition_Len :: "('run, 'comp) saga_definition \<Rightarrow> nat" where
  "Definition_Len d = length (def_Steps d)"

definition validateStep :: "('run, 'comp) saga_step \<Rightarrow> unit res" where
  "validateStep step =
     (if step_Name step = [] then Inl (invalid ''saga definition: step missing Name'')
      else case SafeID_Validate (step_Name step) of
        Inl _ \<Rightarrow> Inl (invalid ''saga definition: invalid step Name'')
      | Inr _ \<Rightarrow>
        (if step_Run step = None then Inl (invalid ''saga definition: step Run must not be nil'')
         else if step_Timeout step < 0
           then Inl (invalid ''saga definition: step Timeout must be >= 0'')
         else case RetryPolicy_Validate (step_RetryPolicy step) of
           Inl _ \<Rightarrow> Inl (invalid ''saga definition: invalid step RetryPolicy'')
         | Inr _ \<Rightarrow> Inr ()))"

text \<open>The loop of \<^verbatim>\<open>Definition.Validate\<close> with its \<^verbatim>\<open>seen\<close> map from step name to index.\<close>

fun validate_steps :: "(safeid \<rightharpoonup> nat) \<Rightarrow> nat \<Rightarrow> ('run, 'comp) saga_step list \<Rightarrow> unit res" where
  "validate_steps seen i [] = Inr ()"
| "validate_steps seen i (step # steps) =
     (case validateStep step of
        Inl e \<Rightarrow> Inl e
      | Inr _ \<Rightarrow>
        (case seen (step_Name step) of
           Some prev \<Rightarrow> Inl (Errcode KindConflict ErrConflict ''saga definition: duplicate step Name'')
         | None \<Rightarrow> validate_steps (seen(step_Name step \<mapsto> i)) (Suc i) steps))"

definition Definition_Validate :: "('run, 'comp) saga_definition \<Rightarrow> unit res" where
  "Definition_Validate d =
     (if def_ID d = [] then Inl (invalid ''saga definition: missing ID'')
      else case SafeID_Validate (def_ID d) of
        Inl _ \<Rightarrow> Inl (invalid ''saga definition: invalid ID'')
      | Inr _ \<Rightarrow>
        (if length (def_Steps d) = 0
           then Inl (invalid ''saga definition: must have at least one step'')
         else if def_Timeout d < 0 then Inl (invalid ''saga definition: Timeout must be >= 0'')
         else case RetryPolicy_Validate (def_RetryPolicy d) of
           Inl _ \<Rightarrow> Inl (invalid ''saga definition: invalid RetryPolicy'')
         | Inr _ \<Rightarrow> validate_steps Map.empty 0 (def_Steps d)))"

type_synonym ('run, 'comp) saga_registry = "safeid \<rightharpoonup> ('run, 'comp) saga_definition"

fun register_all ::
  "('run, 'comp) saga_registry \<Rightarrow> ('run, 'comp) saga_definition option list \<Rightarrow>
   ('run, 'comp) saga_registry res" where
  "register_all defs [] = Inr defs"
| "register_all defs (None # ds) = Inl (invalid ''saga registry: nil definition'')"
| "register_all defs (Some d # ds) =
     (case Definition_Validate d of
        Inl e \<Rightarrow> Inl e
      | Inr _ \<Rightarrow>
        (if defs (def_ID d) \<noteq> None
         then Inl (Errcode KindConflict ErrConflict ''saga registry: duplicate definition ID'')
         else register_all (defs(def_ID d \<mapsto> d)) ds))"

definition NewInMemoryRegistry ::
  "('run, 'comp) saga_definition option list \<Rightarrow> ('run, 'comp) saga_registry res" where
  "NewInMemoryRegistry ds = register_all Map.empty ds"

definition Registry_Lookup ::
  "('run, 'comp) saga_registry \<Rightarrow> safeid \<Rightarrow> ('run, 'comp) saga_definition option" where
  "Registry_Lookup r did = r did"

subsection \<open>Specification predicates\<close>

text \<open>The invariant of an instance that only the state machine has touched.\<close>

definition inst_wf :: "saga_instance \<Rightarrow> bool" where
  "inst_wf i \<longleftrightarrow>
     saga_status_Valid (inst_Status i) \<and>
     (saga_IsTerminal (inst_Status i) \<longleftrightarrow> inst_CompletedAt i \<noteq> None) \<and>
     (inst_UpdatedAt i = None \<longleftrightarrow> inst_Status i = StatusPending) \<and>
     (\<forall>u. inst_UpdatedAt i = Some u \<longrightarrow> inst_StartedAt i \<le> u) \<and>
     (\<forall>c. inst_CompletedAt i = Some c \<longrightarrow> inst_UpdatedAt i = Some c) \<and>
     0 \<le> inst_CurrentStep i \<and> (inst_Status i = StatusPending \<longrightarrow> inst_CurrentStep i = 0)"

text \<open>Instances the kernel's operations can produce, for a definition of \<open>n\<close> steps.\<close>

inductive inst_reach :: "int \<Rightarrow> saga_instance \<Rightarrow> bool" for n where
  new: "inst_reach n (NewInstance iid defid now)"
| advance: "inst_reach n i \<Longrightarrow> AdvanceSaga (Some i) to now = Inr j \<Longrightarrow> inst_reach n j"
| step: "inst_reach n i \<Longrightarrow> AdvanceStep (Some i) n now = Inr j \<Longrightarrow> inst_reach n j"

definition retry_policy_ok :: "retry_policy \<Rightarrow> bool" where
  "retry_policy_ok p \<longleftrightarrow>
     0 \<le> rp_MaxAttempts p \<and> 0 \<le> rp_BaseInterval p \<and> 0 \<le> rp_MaxInterval p \<and>
     (rp_BaseInterval p = 0 \<or> rp_MaxInterval p = 0 \<or> rp_BaseInterval p \<le> rp_MaxInterval p)"

definition step_ok :: "('run, 'comp) saga_step \<Rightarrow> bool" where
  "step_ok s \<longleftrightarrow>
     safe_id (step_Name s) \<and> step_Run s \<noteq> None \<and> 0 \<le> step_Timeout s \<and>
     retry_policy_ok (step_RetryPolicy s)"

definition definition_ok :: "('run, 'comp) saga_definition \<Rightarrow> bool" where
  "definition_ok d \<longleftrightarrow>
     safe_id (def_ID d) \<and> def_Steps d \<noteq> [] \<and> 0 \<le> def_Timeout d \<and>
     retry_policy_ok (def_RetryPolicy d) \<and>
     (\<forall>s \<in> set (def_Steps d). step_ok s) \<and> distinct (map step_Name (def_Steps d))"

fun saga_rank :: "saga_status \<Rightarrow> nat" where
  "saga_rank StatusPending = 3"
| "saga_rank StatusRunning = 2"
| "saga_rank StatusCompensating = 1"
| "saga_rank _ = 0"

text \<open>A sequence of \<^verbatim>\<open>AdvanceSaga\<close> calls, each on the instance the previous one left.\<close>

fun advance_all :: "saga_instance \<Rightarrow> (saga_status \<times> instant) list \<Rightarrow> saga_instance res" where
  "advance_all i [] = Inr i"
| "advance_all i ((to, now) # cs) =
     and_then (AdvanceSaga (Some i) to now) (\<lambda>j. advance_all j cs)"

subsection \<open>Sample values\<close>

definition sample_instance :: saga_instance where
  "sample_instance =
     \<lparr>inst_ID = ''s1'', inst_DefinitionID = ''order'', inst_Status = StatusRunning,
      inst_CurrentStep = 1, inst_StartedAt = 5, inst_UpdatedAt = Some 7, inst_CompletedAt = None\<rparr>"

definition sample_definition :: "(nat, nat) saga_definition" where
  "sample_definition =
     \<lparr>def_ID = ''order'',
      def_Steps = [\<lparr>step_Name = ''reserve'', step_Run = Some 0, step_Compensate = Some 0,
                     step_Timeout = 0, step_RetryPolicy = \<lparr>rp_MaxAttempts = 0, rp_BaseInterval = 0, rp_MaxInterval = 0\<rparr>\<rparr>,
                    \<lparr>step_Name = ''charge'', step_Run = Some 1, step_Compensate = None,
                     step_Timeout = 9, step_RetryPolicy = \<lparr>rp_MaxAttempts = 3, rp_BaseInterval = 1, rp_MaxInterval = 8\<rparr>\<rparr>],
      def_Timeout = 100,
      def_RetryPolicy = \<lparr>rp_MaxAttempts = 2, rp_BaseInterval = 0, rp_MaxInterval = 0\<rparr>\<rparr>"

section \<open>Lemmas\<close>

subsection \<open>The status table\<close>

interpretation saga_fsm: fsm_ranked saga_statusTransitions saga_IsTerminal saga_rank
proof unfold_locales
  show "saga_statusTransitions s = []" if "saga_IsTerminal s" for s
    using that by (cases s) auto
  show "saga_rank t < saga_rank s" if "t \<in> set (saga_statusTransitions s)" for s t
    using that by (cases s) auto
qed

lemma saga_Transition_ok:
  "saga_Transition from to = Inr u \<longleftrightarrow> to \<in> set (saga_statusTransitions from)"
  by (simp add: saga_Transition_def saga_CanTransitionTo_def)

lemma saga_edge_valid: "t \<in> set (saga_statusTransitions s) \<Longrightarrow> saga_status_Valid t \<and> t \<noteq> StatusPending"
  by (cases s) auto

lemma saga_rank_zero: "saga_IsTerminal s \<Longrightarrow> saga_rank s = 0"
  by (cases s) auto

subsection \<open>Advancing\<close>

lemma guardMonotonic_ok:
  "guardMonotonic i now = Inr u \<longleftrightarrow>
     inst_StartedAt i \<le> now \<and> (\<forall>t. inst_UpdatedAt i = Some t \<longrightarrow> t \<le> now)"
  by (auto simp: guardMonotonic_def split: option.splits)

lemma AdvanceSaga_ok:
  "AdvanceSaga (Some i) to now = Inr j \<longleftrightarrow>
     to \<in> set (saga_statusTransitions (inst_Status i)) \<and> inst_StartedAt i \<le> now \<and>
     (\<forall>t. inst_UpdatedAt i = Some t \<longrightarrow> t \<le> now) \<and>
     j = i\<lparr>inst_Status := to, inst_UpdatedAt := Some now,
           inst_CompletedAt := (if saga_IsTerminal to then Some now else inst_CompletedAt i)\<rparr>"
  by (auto simp: AdvanceSaga_def res_simps saga_Transition_ok guardMonotonic_ok Let_def)

lemma AdvanceStep_ok:
  assumes "in_i64 n"
  shows "AdvanceStep (Some i) n now = Inr j \<longleftrightarrow>
     inst_Status i = StatusRunning \<and> 0 \<le> inst_CurrentStep i \<and> inst_CurrentStep i < n - 1 \<and>
     inst_StartedAt i \<le> now \<and> (\<forall>t. inst_UpdatedAt i = Some t \<longrightarrow> t \<le> now) \<and>
     j = i\<lparr>inst_CurrentStep := inst_CurrentStep i + 1, inst_UpdatedAt := Some now\<rparr>"
proof -
  have n1: "i64 (n - 1) = n - 1" if "0 < n"
    using that assms by (intro i64_id) (auto simp: in_i64_def min_i64_def max_i64_def)
  have c1: "i64 (inst_CurrentStep i + 1) = inst_CurrentStep i + 1"
    if "0 \<le> inst_CurrentStep i" "inst_CurrentStep i < n - 1"
    using that assms by (intro i64_id) (auto simp: in_i64_def min_i64_def max_i64_def)
  show ?thesis
    by (auto simp: AdvanceStep_def and_then_Inr guardMonotonic_ok n1 c1)
qed

lemma inst_wf_new: "inst_wf (NewInstance iid defid now)"
  by (simp add: inst_wf_def NewInstance_def)

lemma inst_wf_AdvanceSaga [inv_intros]:
  assumes wf: "inst_wf i" and adv: "AdvanceSaga (Some i) to now = Inr j"
  shows "inst_wf j"
proof -
  from adv have edge: "to \<in> set (saga_statusTransitions (inst_Status i))"
    by (simp add: AdvanceSaga_ok)
  then have nt: "\<not> saga_IsTerminal (inst_Status i)"
    using saga_fsm.terminal_no_edge by force
  from saga_edge_valid [OF edge] wf adv nt show ?thesis
    by (auto simp: AdvanceSaga_ok inst_wf_def)
qed

lemma inst_wf_AdvanceStep [inv_intros]:
  assumes "inst_wf i" and "in_i64 n" and "AdvanceStep (Some i) n now = Inr j"
  shows "inst_wf j"
  using assms by (auto simp: AdvanceStep_ok inst_wf_def)

lemma advance_all_legal_run:
  "advance_all i cs = Inr j \<Longrightarrow>
   legal_run saga_statusTransitions (inst_Status i) (map fst cs) \<and>
   end_state (inst_Status i) (map fst cs) = inst_Status j"
proof (induction cs arbitrary: i)
  case (Cons c cs)
  obtain to now where c: "c = (to, now)" by (cases c)
  with Cons.prems obtain k where k: "AdvanceSaga (Some i) to now = Inr k" "advance_all k cs = Inr j"
    by (auto simp: and_then_Inr)
  from k(1) have "inst_Status k = to" "to \<in> set (saga_statusTransitions (inst_Status i))"
    by (auto simp: AdvanceSaga_ok)
  with Cons.IH [OF k(2)] c show ?case by simp
qed simp

subsection \<open>Validators\<close>

lemma RetryPolicy_Validate_ok: "RetryPolicy_Validate p = Inr u \<longleftrightarrow> retry_policy_ok p"
  by (auto simp: RetryPolicy_Validate_def retry_policy_ok_def)

lemma validateStep_ok: "validateStep s = Inr u \<longleftrightarrow> step_ok s"
  using SafeID_Validate_ok [of "step_Name s"] RetryPolicy_Validate_ok [of "step_RetryPolicy s"]
  by (auto simp: validateStep_def step_ok_def safe_id_def split: sum.splits)

lemma validate_steps_ok:
  "validate_steps seen i steps = Inr u \<longleftrightarrow>
     (\<forall>s \<in> set steps. step_ok s) \<and> distinct (map step_Name steps) \<and>
     (\<forall>s \<in> set steps. seen (step_Name s) = None)"
proof (induction steps arbitrary: seen i)
  case (Cons s steps)
  have val: "validateStep s = Inr () \<longleftrightarrow> step_ok s" by (rule validateStep_ok)
  show ?case
  proof (cases "step_ok s \<and> seen (step_Name s) = None")
    case True
    with val have eq: "validate_steps seen i (s # steps) =
      validate_steps (seen(step_Name s \<mapsto> i)) (Suc i) steps" by simp
    have fresh: "(\<forall>t \<in> set steps. (seen(step_Name s \<mapsto> i)) (step_Name t) = None) \<longleftrightarrow>
      step_Name s \<notin> step_Name ` set steps \<and> (\<forall>t \<in> set steps. seen (step_Name t) = None)"
      by (auto simp: image_iff split: if_splits; metis)
    from True fresh show ?thesis unfolding eq Cons.IH by (auto simp del: fun_upd_apply)
  next
    case False
    with val show ?thesis by (auto split: sum.splits option.splits)
  qed
qed simp

lemma Definition_Validate_ok: "Definition_Validate d = Inr u \<longleftrightarrow> definition_ok d"
  using SafeID_Validate_ok [of "def_ID d"] RetryPolicy_Validate_ok [of "def_RetryPolicy d"]
    validate_steps_ok [of Map.empty 0 "def_Steps d" u]
  by (auto simp: Definition_Validate_def definition_ok_def safe_id_def split: sum.splits)

lemma validateIdentity_ok:
  "validateIdentity i = Inr u \<longleftrightarrow> safe_id (inst_ID i) \<and> safe_id (inst_DefinitionID i)"
  using SafeID_Validate_ok [of "inst_ID i"] SafeID_Validate_ok [of "inst_DefinitionID i"]
  by (auto simp: validateIdentity_def safe_id_def split: sum.splits)

lemma validateInitialState_ok:
  "validateInitialState i = Inr u \<longleftrightarrow>
     inst_Status i = StatusPending \<and> inst_CurrentStep i = 0 \<and> inst_StartedAt i \<noteq> 0 \<and>
     inst_UpdatedAt i = None \<and> inst_CompletedAt i = None"
  by (auto simp: validateInitialState_def)

lemma saga_ValidateNew_ok:
  "saga_ValidateNew i = Inr u \<longleftrightarrow>
     safe_id (inst_ID i) \<and> safe_id (inst_DefinitionID i) \<and> inst_StartedAt i \<noteq> 0 \<and>
     i = NewInstance (inst_ID i) (inst_DefinitionID i) (inst_StartedAt i)"
  by (cases i)
    (auto simp: saga_ValidateNew_def and_then_Inr validateIdentity_ok validateInitialState_ok
      NewInstance_def)

lemma register_all_ok:
  "register_all defs ds = Inr r \<longleftrightarrow>
     None \<notin> set ds \<and> (\<forall>d. Some d \<in> set ds \<longrightarrow> definition_ok d \<and> defs (def_ID d) = None) \<and>
     distinct (map (\<lambda>d. def_ID (the d)) ds) \<and> r = defs ++ map_of (map (\<lambda>d. (def_ID (the d), the d)) ds)"
proof (induction ds arbitrary: defs)
  case (Cons x ds)
  show ?case
  proof (cases x)
    case (Some d)
    let ?m = "map_of (map (\<lambda>d. (def_ID (the d), the d)) ds)"
    have val: "Definition_Validate d = Inr () \<longleftrightarrow> definition_ok d" by (rule Definition_Validate_ok)
    show ?thesis
    proof (cases "definition_ok d \<and> defs (def_ID d) = None")
      case True
      with Some val have eq: "register_all defs (x # ds) = register_all (defs(def_ID d \<mapsto> d)) ds"
        by simp
      have upd: "defs(def_ID d \<mapsto> d) ++ ?m = defs ++ ?m(def_ID d \<mapsto> d)"
        if "def_ID d \<notin> (\<lambda>d. def_ID (the d)) ` set ds"
      proof -
        have "?m (def_ID d) = None" using that by (force simp: map_of_eq_None_iff)
        then show ?thesis by (auto simp: map_add_def fun_eq_iff split: option.splits)
      qed
      have fresh: "(\<forall>e. Some e \<in> set ds \<longrightarrow> (defs(def_ID d \<mapsto> d)) (def_ID e) = None) \<longleftrightarrow>
        def_ID d \<notin> (\<lambda>d. def_ID (the d)) ` set ds \<and> (\<forall>e. Some e \<in> set ds \<longrightarrow> defs (def_ID e) = None)"
        if "None \<notin> set ds"
      proof -
        have "def_ID d \<in> (\<lambda>d. def_ID (the d)) ` set ds \<longleftrightarrow> (\<exists>e. Some e \<in> set ds \<and> def_ID e = def_ID d)"
          using that by (auto simp: image_iff) (metis option.collapse, metis option.sel)
        then show ?thesis by (auto split: if_splits)
      qed
      from True Some upd fresh show ?thesis
        unfolding eq Cons.IH by (auto simp del: fun_upd_apply)
    next
      case False
      with Some val show ?thesis by (auto split: sum.splits)
    qed
  qed simp
qed auto

section \<open>Properties\<close>

text \<open>
  Every instance that the kernel can produce with \<^verbatim>\<open>NewInstance\<close>, \<^verbatim>\<open>AdvanceSaga\<close> and
  \<^verbatim>\<open>AdvanceStep\<close> (for a definition of \<open>n\<close> steps) is well formed: its status is valid, its
  completion time is set exactly when the status is terminal and equals the last update, time never
  precedes the start, and the step cursor stays inside the definition, without wrap-around.
\<close>

lemma saga_instance_lifecycle:
  assumes "inst_reach n i" and "in_i64 n" and "1 \<le> n"
  shows "inst_wf i \<and> 0 \<le> inst_CurrentStep i \<and> inst_CurrentStep i \<le> n - 1"
  using assms(1)
proof (induction rule: inst_reach.induct)
  case (new iid defid now)
  with assms(3) show ?case by (simp add: inst_wf_new) (simp add: NewInstance_def)
next
  case (advance i to now j)
  then show ?case by (auto intro: inst_wf_AdvanceSaga simp: AdvanceSaga_ok)
next
  case (step i now j)
  with assms(2) show ?case by (auto intro: inst_wf_AdvanceStep simp: AdvanceStep_ok)
qed

lemma sample_instance_reach: "inst_reach 3 sample_instance"
proof -
  let ?i = "NewInstance ''s1'' ''order'' 5"
  let ?j = "?i\<lparr>inst_Status := StatusRunning, inst_UpdatedAt := Some 6\<rparr>"
  have "inst_reach 3 ?i" by (rule inst_reach.new)
  moreover have "AdvanceSaga (Some ?i) StatusRunning 6 = Inr ?j"
    by (simp add: AdvanceSaga_ok) (simp add: NewInstance_def)
  ultimately have "inst_reach 3 ?j" by (rule inst_reach.advance)
  moreover have "AdvanceStep (Some ?j) 3 7 = Inr sample_instance"
    by (simp add: AdvanceStep_ok in_i64_def min_i64_def max_i64_def NewInstance_def sample_instance_def)
  ultimately show ?thesis by (rule inst_reach.step)
qed

text \<open>
  C8. The status machine of a saga ends: starting from a new instance at most three calls of
  \<^verbatim>\<open>AdvanceSaga\<close> can succeed, only the last of them can reach a terminal status, and on a
  terminal instance every further call is rejected.
\<close>

theorem saga_advance_terminates:
  assumes "advance_all (NewInstance iid defid t) cs = Inr j"
  shows "length cs \<le> 3 \<and>
    (\<forall>k < length cs. saga_IsTerminal (fst (cs ! k)) \<longrightarrow> Suc k = length cs) \<and>
    (saga_IsTerminal (inst_Status j) \<longrightarrow> (\<forall>to now j'. AdvanceSaga (Some j) to now \<noteq> Inr j'))"
proof (intro conjI)
  let ?ts = "map fst cs"
  have run: "legal_run saga_statusTransitions StatusPending ?ts"
    using advance_all_legal_run [OF assms] by (simp add: NewInstance_def)
  from saga_fsm.run_length_bound [OF run] show "length cs \<le> 3" by simp
  show "\<forall>k < length cs. saga_IsTerminal (fst (cs ! k)) \<longrightarrow> Suc k = length cs"
  proof (intro allI impI)
    fix k assume k: "k < length cs" "saga_IsTerminal (fst (cs ! k))"
    then have "?ts = take k ?ts @ ?ts ! k # drop (Suc k) ?ts"
      using id_take_nth_drop [of k ?ts] by simp
    with run have "legal_run saga_statusTransitions StatusPending (take k ?ts @ ?ts ! k # drop (Suc k) ?ts)"
      by simp
    from saga_fsm.terminal_only_last [OF this] k show "Suc k = length cs" by simp
  qed
  show "saga_IsTerminal (inst_Status j) \<longrightarrow> (\<forall>to now j'. AdvanceSaga (Some j) to now \<noteq> Inr j')"
    using saga_fsm.terminal_no_edge by (auto simp: AdvanceSaga_ok)
qed

theorem saga_advance_terminates_witness:
  "\<exists>j. advance_all (NewInstance ''s1'' ''order'' 5)
     [(StatusRunning, 6), (StatusCompensating, 7), (StatusCompensated, 7)] = Inr j \<and>
     saga_IsTerminal (inst_Status j) \<and> AdvanceSaga (Some j) StatusRunning 9 \<noteq> Inr j"
proof -
  let ?j = "\<lparr>inst_ID = ''s1'', inst_DefinitionID = ''order'', inst_Status = StatusCompensated,
    inst_CurrentStep = 0, inst_StartedAt = 5, inst_UpdatedAt = Some 7, inst_CompletedAt = Some 7\<rparr>"
  have run: "advance_all (NewInstance ''s1'' ''order'' 5)
     [(StatusRunning, 6), (StatusCompensating, 7), (StatusCompensated, 7)] = Inr ?j"
    by code_simp
  from saga_advance_terminates [OF run] run show ?thesis by (intro exI [of _ ?j]) simp
qed

text \<open>
  \<^verbatim>\<open>NewInMemoryRegistry\<close> succeeds exactly on non-nil, valid definitions with pairwise
  distinct identifiers (valid: a safe identifier, at least one step, distinct safe step names,
  non-nil \<^verbatim>\<open>Run\<close> functions, consistent non-negative timeouts and retry policies), and the
  registry it returns looks up each definition under its own identifier and nothing else.
\<close>

lemma registry_contract:
  "NewInMemoryRegistry ds = Inr r \<longleftrightarrow>
     None \<notin> set ds \<and> (\<forall>d. Some d \<in> set ds \<longrightarrow> definition_ok d) \<and>
     distinct (map (\<lambda>d. def_ID (the d)) ds) \<and>
     (\<forall>x. Registry_Lookup r x = map_of (map (\<lambda>d. (def_ID (the d), the d)) ds) x)"
  by (auto simp: NewInMemoryRegistry_def register_all_ok Registry_Lookup_def fun_eq_iff)

lemma sample_definition_ok: "definition_ok sample_definition"
  by code_simp

end
