(* ===== verification/Go_Json.thy ===== *)
theory Go_Json
  imports Gocell_Prelude
begin

text \<open>
  The part of Go's standard library that the payload checks rely on: \<^verbatim>\<open>json.Valid\<close> as the
  byte-driven scanner of \<^verbatim>\<open>encoding/json\<close> (a state, a stack of open containers with its depth
  limit of 10000, and the end-of-input rule), and \<^verbatim>\<open>bytes.TrimSpace\<close> on ASCII white space.
  (TrimSpace also removes non-ASCII spaces; the code applies it to valid JSON only, whose first
  and last bytes are ASCII.)
\<close>

datatype parse_state = parseObjectKey | parseObjectValue | parseArrayValue

datatype scan_state =
    BeginValue | BeginValueOrEmpty | BeginStringOrEmpty | BeginString | EndValue | EndTop
  | InString | InStringEsc | InStringEscU nat
  | ScanNeg | Scan1 | Scan0 | ScanDot | ScanDot0 | ScanE | ScanESign | ScanE0
  | ScanLit string | ScanError

type_synonym scanner = "scan_state \<times> parse_state list"

definition json_space :: "char \<Rightarrow> bool" where
  "json_space c \<longleftrightarrow> c \<in> {CHR '' '', CHR 0x09, CHR 0x0D, CHR 0x0A}"

definition hex_digit :: "char \<Rightarrow> bool" where
  "hex_digit c \<longleftrightarrow> CHR ''0'' \<le> c \<and> c \<le> CHR ''9'' \<or> CHR ''a'' \<le> c \<and> c \<le> CHR ''f'' \<or>
     CHR ''A'' \<le> c \<and> c \<le> CHR ''F''"

definition push_state :: "parse_state \<Rightarrow> parse_state list \<Rightarrow> scan_state \<Rightarrow> scanner" where
  "push_state p ps st = (if length ps + 1 \<le> 10000 then (st, p # ps) else (ScanError, p # ps))"

definition pop_state :: "parse_state list \<Rightarrow> scanner" where
  "pop_state ps = (if tl ps = [] then (EndTop, []) else (EndValue, tl ps))"

definition scan_end_top :: "char \<Rightarrow> scanner" where
  "scan_end_top c = (if json_space c then (EndTop, []) else (ScanError, []))"

fun scan_end_value :: "parse_state list \<Rightarrow> char \<Rightarrow> scanner" where
  "scan_end_value [] c = scan_end_top c"
| "scan_end_value (p # ps) c =
     (if json_space c then (EndValue, p # ps)
      else case p of
        parseObjectKey \<Rightarrow>
          if c = CHR '':'' then (BeginValue, parseObjectValue # ps) else (ScanError, p # ps)
      | parseObjectValue \<Rightarrow>
          if c = CHR '','' then (BeginString, parseObjectKey # ps)
          else if c = CHR ''}'' then pop_state (p # ps) else (ScanError, p # ps)
      | parseArrayValue \<Rightarrow>
          if c = CHR '','' then (BeginValue, p # ps)
          else if c = CHR '']'' then pop_state (p # ps) else (ScanError, p # ps))"

definition scan_begin_value :: "parse_state list \<Rightarrow> char \<Rightarrow> scanner" where
  "scan_begin_value ps c =
     (if json_space c then (BeginValue, ps)
      else if c = CHR ''{'' then push_state parseObjectKey ps BeginStringOrEmpty
      else if c = CHR ''['' then push_state parseArrayValue ps BeginValueOrEmpty
      else if c = CHR 0x22 then (InString, ps)
      else if c = CHR ''-'' then (ScanNeg, ps)
      else if c = CHR ''0'' then (Scan0, ps)
      else if c = CHR ''t'' then (ScanLit ''rue'', ps)
      else if c = CHR ''f'' then (ScanLit ''alse'', ps)
      else if c = CHR ''n'' then (ScanLit ''ull'', ps)
      else if CHR ''1'' \<le> c \<and> c \<le> CHR ''9'' then (Scan1, ps)
      else (ScanError, ps))"

definition scan_begin_string :: "parse_state list \<Rightarrow> char \<Rightarrow> scanner" where
  "scan_begin_string ps c =
     (if json_space c then (BeginString, ps)
      else if c = CHR 0x22 then (InString, ps) else (ScanError, ps))"

definition scan_0 :: "parse_state list \<Rightarrow> char \<Rightarrow> scanner" where
  "scan_0 ps c =
     (if c = CHR ''.'' then (ScanDot, ps)
      else if c = CHR ''e'' \<or> c = CHR ''E'' then (ScanE, ps)
      else scan_end_value ps c)"

definition scan_esign :: "parse_state list \<Rightarrow> char \<Rightarrow> scanner" where
  "scan_esign ps c = (if is_digit c then (ScanE0, ps) else (ScanError, ps))"

fun scan_step :: "scanner \<Rightarrow> char \<Rightarrow> scanner" where
  "scan_step (BeginValue, ps) c = scan_begin_value ps c"
| "scan_step (BeginValueOrEmpty, ps) c =
     (if json_space c then (BeginValueOrEmpty, ps)
      else if c = CHR '']'' then scan_end_value ps c else scan_begin_value ps c)"
| "scan_step (BeginStringOrEmpty, ps) c =
     (if json_space c then (BeginStringOrEmpty, ps)
      else if c = CHR ''}'' then scan_end_value (parseObjectValue # tl ps) c
      else scan_begin_string ps c)"
| "scan_step (BeginString, ps) c = scan_begin_string ps c"
| "scan_step (EndValue, ps) c = scan_end_value ps c"
| "scan_step (EndTop, ps) c = scan_end_top c"
| "scan_step (InString, ps) c =
     (if c = CHR 0x22 then (EndValue, ps)
      else if c = CHR 0x5C then (InStringEsc, ps)
      else if c < CHR 0x20 then (ScanError, ps) else (InString, ps))"
| "scan_step (InStringEsc, ps) c =
     (if c \<in> set ''bfnrt/'' \<or> c = CHR 0x5C \<or> c = CHR 0x22 then (InString, ps)
      else if c = CHR ''u'' then (InStringEscU 4, ps) else (ScanError, ps))"
| "scan_step (InStringEscU n, ps) c =
     (if hex_digit c then (if n \<le> 1 then InString else InStringEscU (n - 1), ps)
      else (ScanError, ps))"
| "scan_step (ScanNeg, ps) c =
     (if c = CHR ''0'' then (Scan0, ps)
      else if CHR ''1'' \<le> c \<and> c \<le> CHR ''9'' then (Scan1, ps) else (ScanError, ps))"
| "scan_step (Scan1, ps) c = (if is_digit c then (Scan1, ps) else scan_0 ps c)"
| "scan_step (Scan0, ps) c = scan_0 ps c"
| "scan_step (ScanDot, ps) c = (if is_digit c then (ScanDot0, ps) else (ScanError, ps))"
| "scan_step (ScanDot0, ps) c =
     (if is_digit c then (ScanDot0, ps)
      else if c = CHR ''e'' \<or> c = CHR ''E'' then (ScanE, ps) else scan_end_value ps c)"
| "scan_step (ScanE, ps) c =
     (if c = CHR ''+'' \<or> c = CHR ''-'' then (ScanESign, ps) else scan_esign ps c)"
| "scan_step (ScanESign, ps) c = scan_esign ps c"
| "scan_step (ScanE0, ps) c = (if is_digit c then (ScanE0, ps) else scan_end_value ps c)"
| "scan_step (ScanLit r, ps) c =
     (case r of
        [] \<Rightarrow> scan_end_value ps c
      | x # xs \<Rightarrow> if c = x then (if xs = [] then EndValue else ScanLit xs, ps) else (ScanError, ps))"
| "scan_step (ScanError, ps) c = (ScanError, ps)"

definition scan_eof :: "scanner \<Rightarrow> bool" where
  "scan_eof s = (fst (if fst s = EndTop then s else scan_step s (CHR '' '')) = EndTop)"

definition json_Valid :: "bytes \<Rightarrow> bool" where
  "json_Valid data = (let s = foldl scan_step (BeginValue, []) data in
     if fst s = ScanError then False else scan_eof s)"

definition ascii_space :: "char \<Rightarrow> bool" where
  "ascii_space c \<longleftrightarrow> c \<in> {CHR '' '', CHR 0x09, CHR 0x0A, CHR 0x0B, CHR 0x0C, CHR 0x0D}"

definition bytes_TrimSpace :: "bytes \<Rightarrow> bytes" where
  "bytes_TrimSpace s = rev (dropWhile ascii_space (rev (dropWhile ascii_space s)))"

lemma push_state_code [code]:
  "push_state p ps st = (if int (length ps) + 1 \<le> 10000 then (st, p # ps) else (ScanError, p # ps))"
  by (simp add: push_state_def)

lemma scan_step_error [simp]: "foldl scan_step (ScanError, ps) cs = (ScanError, ps)"
  by (induction cs) auto

lemma json_Valid_nonempty: "json_Valid data \<Longrightarrow> data \<noteq> []"
  by (auto simp: json_Valid_def scan_eof_def scan_begin_value_def json_space_def)

text \<open>A valid document is not made of white space only.\<close>

lemma begin_value_spaces:
  "\<forall>c \<in> set cs. json_space c \<Longrightarrow> foldl scan_step (BeginValue, []) cs = (BeginValue, [])"
  by (induction cs) (auto simp: scan_begin_value_def)

lemma json_Valid_not_blank: "json_Valid data \<Longrightarrow> \<exists>c \<in> set data. \<not> json_space c"
proof (rule ccontr)
  assume v: "json_Valid data" and "\<not> (\<exists>c \<in> set data. \<not> json_space c)"
  then have "foldl scan_step (BeginValue, []) data = (BeginValue, [])"
    by (intro begin_value_spaces) auto
  with v show False
    by (simp add: json_Valid_def scan_eof_def scan_begin_value_def json_space_def)
qed

end
