(* ===== verification/Saga_Journal.thy ===== *)
theory Saga_Journal
  imports Saga_Core Go_Json "HOL-Library.Multiset"
begin

text \<open>
  The saga event journal of \<^verbatim>\<open>framework/kernel/saga/journal\<close>: event kinds and their textual
  labels (\<^verbatim>\<open>event.go\<close>), the append validator, and the in-memory journal (\<^verbatim>\<open>memjournal.go\<close>)
  with its two truths, the append-only event logs and the instance projection with the lease.

  Every method of \<^verbatim>\<open>MemJournal\<close> runs under one mutex and reads the clock once, so each is one
  atomic function of the state and that clock reading \<open>now\<close>; an \<open>Inl\<close> result leaves the state as
  it was. The instances map is an association list, because \<^verbatim>\<open>ClaimPending\<close> iterates over it; the
  events map is a function whose absent keys are the empty slice. Version and sequence counters are
  unbounded: each equals the length of a slice, which Go bounds below \<^verbatim>\<open>MaxInt64\<close>. The result of
  \<^verbatim>\<open>idutil.NewUUID\<close> (entropy from the operating system) is an argument of \<^verbatim>\<open>ClaimPending\<close>.
\<close>

section \<open>Definitions\<close>

subsection \<open>Events (event.go)\<close>

datatype event_kind =
    KindStepStarted | KindStepCompleted | KindStepFailed | KindStepCompensated
  | KindCompensationStarted
  | KindSagaSucceeded | KindSagaFailed | KindSagaCompensated | KindSagaExpired
  | KindStepCompensationFailed | KindSagaCompensationFailed
  | KindOther nat

fun EventKind_Valid :: "event_kind \<Rightarrow> bool" where
  "EventKind_Valid (KindOther _) = False"
| "EventKind_Valid _ = True"

fun EventKind_String :: "event_kind \<Rightarrow> string" where
  "EventKind_String KindStepStarted = ''step_started''"
| "EventKind_String KindStepCompleted = ''step_completed''"
| "EventKind_String KindStepFailed = ''step_failed''"
| "EventKind_String KindStepCompensated = ''step_compensated''"
| "EventKind_String KindCompensationStarted = ''compensation_started''"
| "EventKind_String KindSagaSucceeded = ''saga_succeeded''"
| "EventKind_String KindSagaFailed = ''saga_failed''"
| "EventKind_String KindSagaCompensated = ''saga_compensated''"
| "EventKind_String KindSagaExpired = ''saga_expired''"
| "EventKind_String KindStepCompensationFailed = ''step_compensation_failed''"
| "EventKind_String KindSagaCompensationFailed = ''saga_compensation_failed''"
| "EventKind_String (KindOther n) = ''eventkind('' @ show_nat n @ '')''"

definition ParseEventKind :: "string \<Rightarrow> event_kind option" where
  "ParseEventKind s =
     (if s = ''step_started'' then Some KindStepStarted
      else if s = ''step_completed'' then Some KindStepCompleted
      else if s = ''step_failed'' then Some KindStepFailed
      else if s = ''step_compensated'' then Some KindStepCompensated
      else if s = ''compensation_started'' then Some KindCompensationStarted
      else if s = ''saga_succeeded'' then Some KindSagaSucceeded
      else if s = ''saga_failed'' then Some KindSagaFailed
      else if s = ''saga_compensated'' then Some KindSagaCompensated
      else if s = ''saga_expired'' then Some KindSagaExpired
      else if s = ''step_compensation_failed'' then Some KindStepCompensationFailed
      else if s = ''saga_compensation_failed'' then Some KindSagaCompensationFailed
      else None)"

fun isStepKind :: "event_kind \<Rightarrow> bool" where
  "isStepKind KindStepStarted = True"
| "isStepKind KindStepCompleted = True"
| "isStepKind KindStepFailed = True"
| "isStepKind KindStepCompensated = True"
| "isStepKind KindStepCompensationFailed = True"
| "isStepKind _ = False"

fun EventKind_IsTerminal :: "event_kind \<Rightarrow> bool" where
  "EventKind_IsTerminal KindSagaSucceeded = True"
| "EventKind_IsTerminal KindSagaFailed = True"
| "EventKind_IsTerminal KindSagaCompensated = True"
| "EventKind_IsTerminal KindSagaExpired = True"
| "EventKind_IsTerminal KindSagaCompensationFailed = True"
| "EventKind_IsTerminal _ = False"

fun TerminalEventKind :: "saga_status \<Rightarrow> event_kind option" where
  "TerminalEventKind StatusSucceeded = Some KindSagaSucceeded"
| "TerminalEventKind StatusFailed = Some KindSagaFailed"
| "TerminalEventKind StatusCompensated = Some KindSagaCompensated"
| "TerminalEventKind StatusExpired = Some KindSagaExpired"
| "TerminalEventKind StatusCompensationFailed = Some KindSagaCompensationFailed"
| "TerminalEventKind _ = None"

record saga_event =
  ev_Version :: int
  ev_GlobalSeq :: int
  ev_Kind :: event_kind
  ev_StepName :: safeid
  ev_Payload :: bytes
  ev_CreatedAt :: instant

definition MaxPayloadBytes :: nat where
  "MaxPayloadBytes = 64 * 1024"

definition validateStepName :: "saga_event \<Rightarrow> unit res" where
  "validateStepName e =
     (if isStepKind (ev_Kind e) then
        (if ev_StepName e = [] then Inl (invalid ''saga journal: step event missing StepName'')
         else case SafeID_Validate (ev_StepName e) of
           Inl _ \<Rightarrow> Inl (invalid ''saga journal: step event has invalid StepName'')
         | Inr _ \<Rightarrow> Inr ())
      else Inr ())"

definition validateObjectOrNull :: "bytes \<Rightarrow> unit res" where
  "validateObjectOrNull payload =
     (if length payload = 0 then Inr ()
      else if \<not> json_Valid payload
        then Inl (invalid ''saga journal: event payload is not valid JSON'')
      else let trimmed = bytes_TrimSpace payload in
        if length trimmed = 0 then Inr ()
        else if hd trimmed = CHR ''{'' \<or> trimmed = ''null'' then Inr ()
        else Inl (invalid ''saga journal: event payload must be a JSON object or null''))"

definition ValidateForAppend :: "saga_event \<Rightarrow> unit res" where
  "ValidateForAppend e =
     (if \<not> EventKind_Valid (ev_Kind e)
        then Inl (invalid ''saga journal: event has invalid Kind'')
      else if EventKind_IsTerminal (ev_Kind e)
        then Inl (invalid ''saga journal: terminal event must be written via MarkTerminal, not Append'')
      else if length (ev_Payload e) > MaxPayloadBytes
        then Inl (invalid ''saga journal: event payload exceeds MaxPayloadBytes'')
      else and_then (validateStepName e) (\<lambda>_. validateObjectOrNull (ev_Payload e)))"

subsection \<open>Journal state (memjournal.go)\<close>

record instance_row =
  row_inst :: saga_instance
  row_currentVersion :: int
  row_leaseID :: safeid
  row_leaseExpiresAt :: instant

record global_event =
  ge_GlobalSeq :: int
  ge_InstanceID :: safeid
  ge_Event :: saga_event

record claimed_instance =
  ci_Instance :: saga_instance
  ci_LeaseID :: safeid

record mem_journal =
  j_instances :: "(safeid \<times> instance_row) list"
  j_events :: "safeid \<Rightarrow> saga_event list"
  j_globalSeq :: int
  j_globalLog :: "global_event list"

definition NewMemJournal :: mem_journal where
  "NewMemJournal =
     \<lparr>j_instances = [], j_events = (\<lambda>_. []), j_globalSeq = 0, j_globalLog = []\<rparr>"

definition find_row :: "mem_journal \<Rightarrow> safeid \<Rightarrow> instance_row option" where
  "find_row m i = map_of (j_instances m) i"

definition put_row :: "mem_journal \<Rightarrow> safeid \<Rightarrow> instance_row \<Rightarrow> mem_journal" where
  "put_row m i r = m\<lparr>j_instances := AList.update i r (j_instances m)\<rparr>"

subsection \<open>Errors (errors.go)\<close>

definition errInstanceNotFound :: goerr where
  "errInstanceNotFound = Errcode KindNotFound ErrSagaNotFound ''saga journal: instance not found''"

definition errDuplicateInstance :: goerr where
  "errDuplicateInstance =
     Errcode KindConflict ErrSagaDuplicateInstance ''saga journal: instance already enqueued''"

definition errStaleLease :: goerr where
  "errStaleLease = Errcode KindConflict ErrSagaStaleLease ''saga journal: stale lease on append''"

definition errInvalidTerminalStatus :: goerr where
  "errInvalidTerminalStatus = invalid ''saga journal: invalid terminal status''"

definition errNonPositiveBatchSize :: goerr where
  "errNonPositiveBatchSize = invalid ''saga journal: ClaimPending batchSize must be positive''"

definition errNonPositiveLeaseDuration :: goerr where
  "errNonPositiveLeaseDuration = invalid ''saga journal: leaseDuration must be positive''"

definition errNonPositiveLimit :: goerr where
  "errNonPositiveLimit = invalid ''saga journal: LoadSince limit must be positive''"

definition errNegativeGlobalSeq :: goerr where
  "errNegativeGlobalSeq = invalid ''saga journal: LoadSince afterGlobalSeq must not be negative''"

definition errEventPhase :: goerr where
  "errEventPhase = invalid ''saga journal: event kind not allowed in current phase''"

subsection \<open>Private helpers (memjournal.go)\<close>

definition fenced :: "instance_row \<Rightarrow> safeid \<Rightarrow> instant \<Rightarrow> bool" where
  "fenced row leaseID now =
     (if row_leaseID row = [] then False
      else if row_leaseID row \<noteq> leaseID then False
      else \<not> row_leaseExpiresAt row < now)"

definition appendLocked ::
  "mem_journal \<Rightarrow> instance_row \<Rightarrow> safeid \<Rightarrow> saga_event \<Rightarrow> mem_journal \<times> instance_row \<times> int" where
  "appendLocked m row instanceID e =
     (let version = row_currentVersion row + 1;
          e = e\<lparr>ev_Version := version\<rparr>;
          seq = j_globalSeq m + 1;
          e = e\<lparr>ev_GlobalSeq := seq\<rparr>;
          row = row\<lparr>row_currentVersion := version\<rparr>;
          m = m\<lparr>j_globalSeq := seq,
                j_events := (j_events m)(instanceID := j_events m instanceID @ [e]),
                j_globalLog := j_globalLog m @
                  [\<lparr>ge_GlobalSeq = seq, ge_InstanceID = instanceID, ge_Event = e\<rparr>]\<rparr>
      in (put_row m instanceID row, row, version))"

definition applyProjection :: "instance_row \<Rightarrow> event_kind \<Rightarrow> instant \<Rightarrow> instance_row res" where
  "applyProjection row kind now =
     (let st = inst_Status (row_inst row);
          adv = (\<lambda>to. and_then (AdvanceSaga (Some (row_inst row)) to now)
                   (\<lambda>i. Inr (row\<lparr>row_inst := i\<rparr>)))
      in if kind = KindStepStarted \<or> kind = KindStepCompleted \<or> kind = KindStepFailed then
           (if st = StatusPending then adv StatusRunning
            else if st = StatusRunning then Inr row
            else Inl errEventPhase)
         else if kind = KindCompensationStarted then adv StatusCompensating
         else if kind = KindStepCompensated \<or> kind = KindStepCompensationFailed then
           (if st \<noteq> StatusCompensating then Inl errEventPhase else Inr row)
         else Inr row)"

subsection \<open>Methods\<close>

definition Enqueue :: "mem_journal \<Rightarrow> saga_instance \<Rightarrow> mem_journal res" where
  "Enqueue m inst =
     (case find_row m (inst_ID inst) of
        Some _ \<Rightarrow> Inl errDuplicateInstance
      | None \<Rightarrow>
        and_then (saga_ValidateNew inst) (\<lambda>_.
          Inr ((put_row m (inst_ID inst)
                  \<lparr>row_inst = inst, row_currentVersion = 0, row_leaseID = [],
                   row_leaseExpiresAt = 0\<rparr>)
               \<lparr>j_events := (j_events m)(inst_ID inst := [])\<rparr>)))"

definition Append ::
  "mem_journal \<Rightarrow> instant \<Rightarrow> safeid \<Rightarrow> safeid \<Rightarrow> saga_event \<Rightarrow> (mem_journal \<times> int) res" where
  "Append m now instanceID leaseID event =
     (case find_row m instanceID of
        None \<Rightarrow> Inl errInstanceNotFound
      | Some row \<Rightarrow>
        if \<not> fenced row leaseID now then Inl errStaleLease
        else and_then (ValidateForAppend event) (\<lambda>_.
             and_then (applyProjection row (ev_Kind event) now) (\<lambda>row.
               let (m, row, version) = appendLocked m row instanceID
                     \<lparr>ev_Version = 0, ev_GlobalSeq = 0, ev_Kind = ev_Kind event,
                      ev_StepName = ev_StepName event, ev_Payload = ev_Payload event,
                      ev_CreatedAt = now\<rparr>
               in Inr (m, version))))"

definition Load :: "mem_journal \<Rightarrow> safeid \<Rightarrow> saga_event list res" where
  "Load m instanceID =
     (case find_row m instanceID of
        None \<Rightarrow> Inl errInstanceNotFound
      | Some _ \<Rightarrow> Inr (j_events m instanceID))"

definition claimable :: "instant \<Rightarrow> instance_row \<Rightarrow> bool" where
  "claimable now row \<longleftrightarrow>
     \<not> saga_IsTerminal (inst_Status (row_inst row)) \<and>
     \<not> (row_leaseID row \<noteq> [] \<and> \<not> row_leaseExpiresAt row < now)"

definition candidate_key :: "safeid \<times> instance_row \<Rightarrow> instant \<times> safeid" where
  "candidate_key c = (inst_StartedAt (row_inst (snd c)), fst c)"

fun lease_candidates ::
  "mem_journal \<Rightarrow> safeid \<Rightarrow> instant \<Rightarrow> (safeid \<times> instance_row) list \<Rightarrow>
   mem_journal \<times> claimed_instance list" where
  "lease_candidates m leaseID expires [] = (m, [])"
| "lease_candidates m leaseID expires ((i, row) # cs) =
     (let m = put_row m i (row\<lparr>row_leaseID := leaseID, row_leaseExpiresAt := expires\<rparr>);
          (m, claimed) = lease_candidates m leaseID expires cs
      in (m, \<lparr>ci_Instance = row_inst row, ci_LeaseID = leaseID\<rparr> # claimed))"

definition ClaimPending ::
  "mem_journal \<Rightarrow> instant \<Rightarrow> string res \<Rightarrow> int \<Rightarrow> duration \<Rightarrow>
   (mem_journal \<times> claimed_instance list \<times> safeid) res" where
  "ClaimPending m now uuid batchSize leaseDuration =
     (if batchSize \<le> 0 then Inl errNonPositiveBatchSize
      else if leaseDuration \<le> 0 then Inl errNonPositiveLeaseDuration
      else
        let candidates = sort_key candidate_key
              (filter (\<lambda>c. claimable now (snd c)) (j_instances m));
            candidates = (if int (length candidates) > batchSize
              then take (nat batchSize) candidates else candidates)
        in if length candidates = 0 then Inr (m, [], [])
           else and_then uuid (\<lambda>leaseID.
             let (m, claimed) = lease_candidates m leaseID (now + leaseDuration) candidates
             in Inr (m, claimed, leaseID)))"

definition Heartbeat ::
  "mem_journal \<Rightarrow> instant \<Rightarrow> safeid \<Rightarrow> safeid \<Rightarrow> duration \<Rightarrow> (mem_journal \<times> bool) res" where
  "Heartbeat m now instanceID leaseID leaseDuration =
     (if leaseDuration \<le> 0 then Inl errNonPositiveLeaseDuration
      else case find_row m instanceID of
        None \<Rightarrow> Inr (m, False)
      | Some row \<Rightarrow>
        if \<not> fenced row leaseID now then Inr (m, False)
        else Inr (put_row m instanceID (row\<lparr>row_leaseExpiresAt := now + leaseDuration\<rparr>), True))"

definition MarkTerminal ::
  "mem_journal \<Rightarrow> instant \<Rightarrow> safeid \<Rightarrow> safeid \<Rightarrow> saga_status \<Rightarrow> (mem_journal \<times> bool) res" where
  "MarkTerminal m now instanceID leaseID finalStatus =
     (case find_row m instanceID of
        None \<Rightarrow> Inr (m, False)
      | Some row \<Rightarrow>
        if \<not> fenced row leaseID now then Inr (m, False)
        else if \<not> saga_IsTerminal finalStatus then Inl errInvalidTerminalStatus
        else (case TerminalEventKind finalStatus of
          None \<Rightarrow> Inl errInvalidTerminalStatus
        | Some termKind \<Rightarrow>
          and_then (AdvanceSaga (Some (row_inst row)) finalStatus now) (\<lambda>i.
            let (m, row, version) = appendLocked m (row\<lparr>row_inst := i\<rparr>) instanceID
                  \<lparr>ev_Version = 0, ev_GlobalSeq = 0, ev_Kind = termKind, ev_StepName = [],
                   ev_Payload = [], ev_CreatedAt = now\<rparr>
            in Inr (put_row m instanceID (row\<lparr>row_leaseID := []\<rparr>), True))))"

definition LoadSince :: "mem_journal \<Rightarrow> int \<Rightarrow> int \<Rightarrow> global_event list res" where
  "LoadSince m afterGlobalSeq limit =
     (if limit \<le> 0 then Inl errNonPositiveLimit
      else if afterGlobalSeq < 0 then Inl errNegativeGlobalSeq
      else
        let n = int (length (j_globalLog m));
            start = (if afterGlobalSeq > n then n else afterGlobalSeq);
            stop = (if limit < i64 (n - start) then i64 (start + limit) else n)
        in Inr (take (nat (stop - start)) (drop (nat start) (j_globalLog m))))"

definition HeadSeq :: "mem_journal \<Rightarrow> int" where
  "HeadSeq m = j_globalSeq m"

subsection \<open>Specification: the status is a fold of the log\<close>

text \<open>What one event does to the status of its instance; \<open>None\<close> for an event out of phase.\<close>

fun terminal_status :: "event_kind \<Rightarrow> saga_status option" where
  "terminal_status KindSagaSucceeded = Some StatusSucceeded"
| "terminal_status KindSagaFailed = Some StatusFailed"
| "terminal_status KindSagaCompensated = Some StatusCompensated"
| "terminal_status KindSagaExpired = Some StatusExpired"
| "terminal_status KindSagaCompensationFailed = Some StatusCompensationFailed"
| "terminal_status _ = None"

definition log_step :: "saga_status \<Rightarrow> event_kind \<Rightarrow> saga_status option" where
  "log_step s k =
     (if k \<in> {KindStepStarted, KindStepCompleted, KindStepFailed} then
        (if s \<in> {StatusPending, StatusRunning} then Some StatusRunning else None)
      else if k = KindCompensationStarted then
        (if s = StatusRunning then Some StatusCompensating else None)
      else if k \<in> {KindStepCompensated, KindStepCompensationFailed} then
        (if s = StatusCompensating then Some s else None)
      else case terminal_status k of
        Some t \<Rightarrow> if saga_CanTransitionTo s t then Some t else None
      | None \<Rightarrow> None)"

definition log_fold :: "saga_status option \<Rightarrow> event_kind list \<Rightarrow> saga_status option" where
  "log_fold = foldl (\<lambda>s k. Option.bind s (\<lambda>s. log_step s k))"

definition log_status :: "event_kind list \<Rightarrow> saga_status option" where
  "log_status ks = log_fold (Some StatusPending) ks"

text \<open>The invariant of the journal.\<close>

definition dense :: "int list \<Rightarrow> bool" where
  "dense vs \<longleftrightarrow> vs = map int [1..<Suc (length vs)]"

definition row_ok :: "saga_event list \<Rightarrow> safeid \<Rightarrow> instance_row \<Rightarrow> bool" where
  "row_ok evs i r \<longleftrightarrow>
     inst_ID (row_inst r) = i \<and> inst_wf (row_inst r) \<and>
     row_currentVersion r = int (length evs) \<and> dense (map ev_Version evs) \<and>
     log_status (map ev_Kind evs) = Some (inst_Status (row_inst r)) \<and>
     (saga_IsTerminal (inst_Status (row_inst r)) \<longrightarrow> row_leaseID r = [])"

definition log_ok :: "mem_journal \<Rightarrow> bool" where
  "log_ok m \<longleftrightarrow>
     j_globalSeq m = int (length (j_globalLog m)) \<and> dense (map ge_GlobalSeq (j_globalLog m)) \<and>
     (\<forall>g \<in> set (j_globalLog m). ev_GlobalSeq (ge_Event g) = ge_GlobalSeq g) \<and>
     (\<forall>i. j_events m i = map ge_Event (filter (\<lambda>g. ge_InstanceID g = i) (j_globalLog m)))"

definition jinv :: "mem_journal \<Rightarrow> bool" where
  "jinv m \<longleftrightarrow>
     distinct (map fst (j_instances m)) \<and> log_ok m \<and>
     (\<forall>i r. find_row m i = Some r \<longrightarrow> row_ok (j_events m i) i r) \<and>
     (\<forall>i. find_row m i = None \<longrightarrow> j_events m i = [])"

subsection \<open>Interleavings\<close>

text \<open>
  Any number of workers call the journal; the mutex makes their calls a sequence. A call is an
  operation with the clock reading it makes, and a call that fails leaves the journal as it was.
\<close>

datatype jop =
    OpEnqueue saga_instance
  | OpAppend safeid safeid saga_event
  | OpClaimPending "string res" int duration
  | OpHeartbeat safeid safeid duration
  | OpMarkTerminal safeid safeid saga_status

definition kept :: "'s \<Rightarrow> ('s \<times> 'r) res \<Rightarrow> 's" where
  "kept m r = (case r of Inl _ \<Rightarrow> m | Inr (m', _) \<Rightarrow> m')"

fun jstep :: "mem_journal \<Rightarrow> instant \<Rightarrow> jop \<Rightarrow> mem_journal" where
  "jstep m now (OpEnqueue inst) = (case Enqueue m inst of Inl _ \<Rightarrow> m | Inr m' \<Rightarrow> m')"
| "jstep m now (OpAppend i l e) = kept m (Append m now i l e)"
| "jstep m now (OpClaimPending uuid b d) = kept m (ClaimPending m now uuid b d)"
| "jstep m now (OpHeartbeat i l d) = kept m (Heartbeat m now i l d)"
| "jstep m now (OpMarkTerminal i l s) = kept m (MarkTerminal m now i l s)"

fun jexec :: "mem_journal \<Rightarrow> (instant \<times> jop) list \<Rightarrow> mem_journal" where
  "jexec m [] = m"
| "jexec m ((now, op) # ops) = jexec (jstep m now op) ops"

text \<open>A reader that follows the global log with a cursor, page by page.\<close>

fun drain :: "nat \<Rightarrow> mem_journal \<Rightarrow> int \<Rightarrow> int \<Rightarrow> global_event list res" where
  "drain 0 m after limit = Inl (ErrorsNew ''out of fuel'')"
| "drain (Suc n) m after limit =
     and_then (LoadSince m after limit) (\<lambda>page.
       if page = [] then Inr []
       else and_then (drain n m (ge_GlobalSeq (last page)) limit) (\<lambda>rest. Inr (page @ rest)))"

subsection \<open>The fencing contract\<close>

text \<open>
  What a client of the journal relies on, in terms of the lease and definition of an instance and of
  the kinds and step names in its log: an append that succeeds was made under the current lease and
  only extends the log of its instance; a terminal mark that has an effect was made under the current
  lease, releases it and adds one terminal event; a heartbeat changes neither; a claim changes leases
  only, and tells the truth about what it claimed.
\<close>

type_synonym sig = "event_kind \<times> safeid"

definition sig_of :: "saga_event \<Rightarrow> sig" where
  "sig_of e = (ev_Kind e, ev_StepName e)"

definition lease_view :: "mem_journal \<Rightarrow> safeid \<Rightarrow> (safeid \<times> safeid) option" where
  "lease_view m i = map_option (\<lambda>r. (row_leaseID r, inst_DefinitionID (row_inst r))) (find_row m i)"

definition log_view :: "mem_journal \<Rightarrow> safeid \<Rightarrow> sig list" where
  "log_view m i = map sig_of (j_events m i)"

subsection \<open>Vocabulary of the properties\<close>

text \<open>Both writers of the log end in the same state change.\<close>

definition logged :: "mem_journal \<Rightarrow> safeid \<Rightarrow> instance_row \<Rightarrow> saga_event \<Rightarrow> mem_journal" where
  "logged m i row e = fst (appendLocked m row i e)"

definition terminal_event :: "event_kind \<Rightarrow> instant \<Rightarrow> saga_event" where
  "terminal_event k now =
     \<lparr>ev_Version = 0, ev_GlobalSeq = 0, ev_Kind = k, ev_StepName = [], ev_Payload = [],
      ev_CreatedAt = now\<rparr>"

definition claim_list :: "mem_journal \<Rightarrow> instant \<Rightarrow> int \<Rightarrow> (safeid \<times> instance_row) list" where
  "claim_list m now b =
     take (nat b) (sort_key candidate_key (filter (\<lambda>c. claimable now (snd c)) (j_instances m)))"

text \<open>A call that only writes lease fields of live rows keeps the invariant.\<close>

definition same_but_lease :: "instance_row \<Rightarrow> instance_row \<Rightarrow> bool" where
  "same_but_lease r r' \<longleftrightarrow> row_inst r' = row_inst r \<and> row_currentVersion r' = row_currentVersion r"

text \<open>The instance and lease a call names; \<open>ClaimPending\<close> and \<open>Enqueue\<close> name none.\<close>

fun op_acts_as :: "jop \<Rightarrow> safeid \<Rightarrow> safeid \<Rightarrow> bool" where
  "op_acts_as (OpAppend i l e) i' l' \<longleftrightarrow> i = i' \<and> l = l'"
| "op_acts_as (OpHeartbeat i l d) i' l' \<longleftrightarrow> i = i' \<and> l = l'"
| "op_acts_as (OpMarkTerminal i l s) i' l' \<longleftrightarrow> i = i' \<and> l = l'"
| "op_acts_as _ i' l' \<longleftrightarrow> False"

fun op_mints :: "jop \<Rightarrow> safeid \<Rightarrow> bool" where
  "op_mints (OpClaimPending uuid b d) l \<longleftrightarrow> uuid = Inr l"
| "op_mints _ l \<longleftrightarrow> False"

definition row_view :: "mem_journal \<Rightarrow> safeid \<Rightarrow> instance_row option \<times> saga_event list" where
  "row_view m i = (find_row m i, j_events m i)"

text \<open>A lease that is not the row's own, and is not minted again, never becomes the row's own.\<close>

definition lease_dead :: "mem_journal \<Rightarrow> safeid \<Rightarrow> safeid \<Rightarrow> bool" where
  "lease_dead m i l \<longleftrightarrow> (\<exists>row. find_row m i = Some row \<and> row_leaseID row \<noteq> l)"

abbreviation journal_after :: "(instant \<times> jop) list \<Rightarrow> mem_journal" where
  "journal_after ops \<equiv> jexec NewMemJournal ops"

text \<open>A sample run: two sagas are enqueued, the older is claimed and starts its first step.\<close>

definition sample_event :: saga_event where
  "sample_event = \<lparr>ev_Version = 0, ev_GlobalSeq = 0, ev_Kind = KindStepStarted,
     ev_StepName = ''reserve'', ev_Payload = [], ev_CreatedAt = 0\<rparr>"

definition sample_ops :: "(instant \<times> jop) list" where
  "sample_ops =
     [(6, OpEnqueue (NewInstance ''s2'' ''order'' 6)), (7, OpEnqueue (NewInstance ''s1'' ''order'' 5)),
      (10, OpClaimPending (Inr ''L1'') 1 100), (12, OpAppend ''s1'' ''L1'' sample_event)]"

definition sample_row :: instance_row where
  "sample_row =
     \<lparr>row_inst = \<lparr>inst_ID = ''s1'', inst_DefinitionID = ''order'', inst_Status = StatusRunning,
        inst_CurrentStep = 0, inst_StartedAt = 5, inst_UpdatedAt = Some 12, inst_CompletedAt = None\<rparr>,
      row_currentVersion = 1, row_leaseID = ''L1'', row_leaseExpiresAt = 110\<rparr>"

section \<open>Lemmas\<close>

lemma ValidateForAppend_code [code]:
  "ValidateForAppend e =
     (if \<not> EventKind_Valid (ev_Kind e)
        then Inl (invalid ''saga journal: event has invalid Kind'')
      else if EventKind_IsTerminal (ev_Kind e)
        then Inl (invalid ''saga journal: terminal event must be written via MarkTerminal, not Append'')
      else if int (length (ev_Payload e)) > 64 * 1024
        then Inl (invalid ''saga journal: event payload exceeds MaxPayloadBytes'')
      else and_then (validateStepName e) (\<lambda>_. validateObjectOrNull (ev_Payload e)))"
  by (simp add: ValidateForAppend_def MaxPayloadBytes_def)


subsection \<open>Kinds\<close>

lemma TerminalEventKind_iff: "TerminalEventKind s = Some k \<longleftrightarrow> terminal_status k = Some s"
  by (cases s; cases k) auto

lemma terminal_status_IsTerminal: "EventKind_IsTerminal k \<longleftrightarrow> terminal_status k \<noteq> None"
  by (cases k) auto

lemma terminal_status_terminal: "terminal_status k = Some s \<Longrightarrow> saga_IsTerminal s"
  by (cases k) auto

lemma TerminalEventKind_total: "saga_IsTerminal s \<longleftrightarrow> TerminalEventKind s \<noteq> None"
  by (cases s) auto

lemma log_step_terminal:
  "terminal_status k = Some t \<Longrightarrow>
   log_step s k = (if t \<in> set (saga_statusTransitions s) then Some t else None)"
  by (cases k) (auto simp: log_step_def saga_CanTransitionTo_def)

lemma log_step_stuck: "saga_IsTerminal s \<Longrightarrow> log_step s k = None"
  by (cases s; cases k) (auto simp: log_step_def saga_CanTransitionTo_def)

lemma log_fold_append:
  "log_fold s (ks @ [k]) = Option.bind (log_fold s ks) (\<lambda>s. log_step s k)"
  by (simp add: log_fold_def)

lemma log_status_append:
  "log_status (ks @ [k]) = Option.bind (log_status ks) (\<lambda>s. log_step s k)"
  by (simp add: log_status_def log_fold_append)

subsection \<open>Dense sequences\<close>

lemma dense_Nil [simp]: "dense []"
  by (simp add: dense_def)

lemma dense_append [simp]: "dense vs \<Longrightarrow> dense (vs @ [int (length vs) + 1])"
  by (simp add: dense_def)

lemma dense_nth: "dense vs \<Longrightarrow> n < length vs \<Longrightarrow> vs ! n = int n + 1"
proof -
  assume "dense vs" and n: "n < length vs"
  then have "vs ! n = map int [1..<Suc (length vs)] ! n" by (simp add: dense_def)
  also have "\<dots> = int n + 1" using n by (simp del: upt_Suc)
  finally show ?thesis .
qed

subsection \<open>Rows\<close>

lemma AList_update_update: "AList.update k v' (AList.update k v al) = AList.update k v' al"
  by (induction al) auto

lemma find_put [simp]: "find_row (put_row m i r) k = (if k = i then Some r else find_row m k)"
  by (simp add: find_row_def put_row_def update_conv')

lemma put_row_fields [simp]:
  "j_events (put_row m i r) = j_events m" "j_globalLog (put_row m i r) = j_globalLog m"
  "j_globalSeq (put_row m i r) = j_globalSeq m"
  "distinct (map fst (j_instances (put_row m i r))) = distinct (map fst (j_instances m))"
  by (simp_all add: put_row_def)

lemma put_put [simp]: "put_row (put_row m i r) i r' = put_row m i r'"
  by (simp add: put_row_def AList_update_update)

lemma find_row_events [simp]:
  "find_row (m\<lparr>j_events := f\<rparr>) = find_row m" "find_row (m\<lparr>j_globalLog := g\<rparr>) = find_row m"
  "find_row (m\<lparr>j_globalSeq := q\<rparr>) = find_row m"
  by (simp_all add: find_row_def fun_eq_iff)

lemma log_ok_put [simp]: "log_ok (put_row m i r) = log_ok m"
  by (simp add: log_ok_def)

lemma fenced_iff:
  "fenced row l now \<longleftrightarrow> row_leaseID row = l \<and> l \<noteq> [] \<and> now \<le> row_leaseExpiresAt row"
  by (auto simp: fenced_def)

subsection \<open>What each successful call does\<close>

lemma applyProjection_ok:
  assumes "\<not> EventKind_IsTerminal k" and "EventKind_Valid k"
  shows "applyProjection row k now = Inr row' \<Longrightarrow>
    (row' = row \<or> (\<exists>to inst. AdvanceSaga (Some (row_inst row)) to now = Inr inst \<and>
                             row' = row\<lparr>row_inst := inst\<rparr>)) \<and>
    log_step (inst_Status (row_inst row)) k = Some (inst_Status (row_inst row'))"
  using assms
  by (cases k)
    (auto simp: applyProjection_def Let_def and_then_Inr AdvanceSaga_ok log_step_def split: if_splits,
      (cases "inst_Status (row_inst row)"; simp)+)

lemma log_step_nonterminal: "\<not> EventKind_IsTerminal k \<Longrightarrow> log_step s k = Some t \<Longrightarrow> \<not> saga_IsTerminal t"
  by (cases k) (auto simp: log_step_def split: if_splits)

lemma Append_ok:
  "Append m now i l e = Inr (m', v) \<longleftrightarrow>
     (\<exists>row row'. find_row m i = Some row \<and> fenced row l now \<and> ValidateForAppend e = Inr () \<and>
        applyProjection row (ev_Kind e) now = Inr row' \<and> v = row_currentVersion row' + 1 \<and>
        m' = logged m i row' (e\<lparr>ev_Version := 0, ev_GlobalSeq := 0, ev_CreatedAt := now\<rparr>))"
  by (cases e)
    (auto simp: Append_def logged_def and_then_Inr appendLocked_def Let_def split: option.splits)

lemma ValidateForAppend_kind:
  "ValidateForAppend e = Inr u \<Longrightarrow> EventKind_Valid (ev_Kind e) \<and> \<not> EventKind_IsTerminal (ev_Kind e)"
  by (simp add: ValidateForAppend_def split: if_splits)

lemma MarkTerminal_wins:
  assumes "find_row m i = Some row" and "fenced row l now" and "terminal_status k = Some s"
    and "AdvanceSaga (Some (row_inst row)) s now = Inr inst"
  shows "MarkTerminal m now i l s =
    Inr (logged m i (row\<lparr>row_inst := inst, row_leaseID := []\<rparr>) (terminal_event k now), True)"
  using assms terminal_status_terminal [OF assms(3)]
  by (cases row)
    (simp add: MarkTerminal_def logged_def terminal_event_def appendLocked_def Let_def
      TerminalEventKind_iff [symmetric] put_row_def AList_update_update)

lemma MarkTerminal_cases:
  assumes "MarkTerminal m now i l s = Inr (m', b)"
  shows "(\<not> b \<and> m' = m \<and> (\<forall>row. find_row m i = Some row \<longrightarrow> \<not> fenced row l now)) \<or>
    (b \<and> (\<exists>row inst k. find_row m i = Some row \<and> fenced row l now \<and> terminal_status k = Some s \<and>
        AdvanceSaga (Some (row_inst row)) s now = Inr inst \<and>
        m' = logged m i (row\<lparr>row_inst := inst, row_leaseID := []\<rparr>) (terminal_event k now)))"
proof (cases "\<exists>row. find_row m i = Some row \<and> fenced row l now")
  case True
  then obtain row where row: "find_row m i = Some row" "fenced row l now" by blast
  with assms obtain k inst where "terminal_status k = Some s"
    "AdvanceSaga (Some (row_inst row)) s now = Inr inst"
    by (auto simp: MarkTerminal_def TerminalEventKind_iff and_then_Inr split: if_splits option.splits)
  with MarkTerminal_wins [OF row this] assms row show ?thesis by auto
next
  case False
  with assms show ?thesis by (auto simp: MarkTerminal_def split: option.splits)
qed

lemma Heartbeat_cases:
  assumes "Heartbeat m now i l d = Inr (m', b)"
  shows "(\<not> b \<and> m' = m \<and> (\<forall>row. find_row m i = Some row \<longrightarrow> \<not> fenced row l now)) \<or>
    (b \<and> 0 < d \<and> (\<exists>row. find_row m i = Some row \<and> fenced row l now \<and>
        m' = put_row m i (row\<lparr>row_leaseExpiresAt := now + d\<rparr>)))"
  using assms by (auto simp: Heartbeat_def split: option.splits if_splits)

lemma Enqueue_ok:
  "Enqueue m inst = Inr m' \<longleftrightarrow>
     find_row m (inst_ID inst) = None \<and> saga_ValidateNew inst = Inr () \<and>
     m' = (put_row m (inst_ID inst)
             \<lparr>row_inst = inst, row_currentVersion = 0, row_leaseID = [], row_leaseExpiresAt = 0\<rparr>)
          \<lparr>j_events := (j_events m)(inst_ID inst := [])\<rparr>"
  by (auto simp: Enqueue_def and_then_Inr split: option.splits)

lemma claim_list_mem: "c \<in> set (claim_list m now b) \<Longrightarrow> c \<in> set (j_instances m) \<and> claimable now (snd c)"
  unfolding claim_list_def by (drule in_set_takeD) simp

lemma ClaimPending_ok:
  "ClaimPending m now uuid b d = Inr (m', claimed, l) \<longleftrightarrow>
     0 < b \<and> 0 < d \<and>
     (let cs = claim_list m now b in
      if cs = [] then m' = m \<and> claimed = [] \<and> l = []
      else uuid = Inr l \<and> (m', claimed) = lease_candidates m l (now + d) cs)"
proof -
  have "(if int (length xs) > b then take (nat b) xs else xs) = take (nat b) xs"
    if "0 < b" for xs :: "(safeid \<times> instance_row) list"
    using that by auto
  then show ?thesis
    by (auto simp: ClaimPending_def claim_list_def Let_def and_then_Inr case_prod_beta prod_eq_iff)
qed

lemma lease_candidates_Cons:
  "lease_candidates m l x (c # cs) =
     (let m' = put_row m (fst c) ((snd c)\<lparr>row_leaseID := l, row_leaseExpiresAt := x\<rparr>) in
      (fst (lease_candidates m' l x cs),
       \<lparr>ci_Instance = row_inst (snd c), ci_LeaseID = l\<rparr> # snd (lease_candidates m' l x cs)))"
  by (cases c) (simp add: Let_def case_prod_beta)

lemma lease_candidates_claimed:
  "snd (lease_candidates m l x cs) =
     map (\<lambda>c. \<lparr>ci_Instance = row_inst (snd c), ci_LeaseID = l\<rparr>) cs"
  by (induction cs arbitrary: m) (simp_all add: lease_candidates_Cons Let_def)

lemma find_lease_candidates:
  "distinct (map fst cs) \<Longrightarrow>
   find_row (fst (lease_candidates m l x cs)) k =
     (case map_of cs k of
        Some row \<Rightarrow> Some (row\<lparr>row_leaseID := l, row_leaseExpiresAt := x\<rparr>)
      | None \<Rightarrow> find_row m k)"
proof (induction cs arbitrary: m)
  case (Cons c cs)
  then have "map_of cs (fst c) = None" by (simp add: map_of_eq_None_iff)
  with Cons show ?case by (auto simp: lease_candidates_Cons Let_def split: option.splits)
qed simp

subsection \<open>The invariant\<close>

lemma logged_fields:
  "find_row (logged m i row e) k =
     (if k = i then Some (row\<lparr>row_currentVersion := row_currentVersion row + 1\<rparr>) else find_row m k)"
  "j_events (logged m i row e) = (j_events m)(i := j_events m i @
     [e\<lparr>ev_Version := row_currentVersion row + 1, ev_GlobalSeq := j_globalSeq m + 1\<rparr>])"
  "j_globalSeq (logged m i row e) = j_globalSeq m + 1"
  "j_globalLog (logged m i row e) = j_globalLog m @
     [\<lparr>ge_GlobalSeq = j_globalSeq m + 1, ge_InstanceID = i,
       ge_Event = e\<lparr>ev_Version := row_currentVersion row + 1, ev_GlobalSeq := j_globalSeq m + 1\<rparr>\<rparr>]"
  "distinct (map fst (j_instances (logged m i row e))) = distinct (map fst (j_instances m))"
  by (simp_all add: logged_def appendLocked_def Let_def)

lemma dense_snoc: "dense vs \<Longrightarrow> x = int (length vs) + 1 \<Longrightarrow> dense (vs @ [x])"
  by simp

lemma log_ok_logged: "log_ok m \<Longrightarrow> log_ok (logged m i row e)"
  by (auto simp: log_ok_def logged_fields intro!: dense_snoc)

lemma row_ok_logged:
  assumes "row_ok evs i row" and "row_currentVersion row' = row_currentVersion row"
    and "inst_ID (row_inst row') = i" and "inst_wf (row_inst row')"
    and "log_step (inst_Status (row_inst row)) (ev_Kind e) = Some (inst_Status (row_inst row'))"
    and "saga_IsTerminal (inst_Status (row_inst row')) \<longrightarrow> row_leaseID row' = []"
    and "ev_Version e = row_currentVersion row + 1"
  shows "row_ok (evs @ [e]) i (row'\<lparr>row_currentVersion := row_currentVersion row' + 1\<rparr>)"
  using assms by (auto simp: row_ok_def log_status_append intro!: dense_snoc)

lemma jinv_logged:
  assumes inv: "jinv m" and row: "find_row m i = Some row"
    and "row_currentVersion row' = row_currentVersion row"
    and "inst_ID (row_inst row') = i" and "inst_wf (row_inst row')"
    and "log_step (inst_Status (row_inst row)) (ev_Kind e) = Some (inst_Status (row_inst row'))"
    and "saga_IsTerminal (inst_Status (row_inst row')) \<longrightarrow> row_leaseID row' = []"
  shows "jinv (logged m i row' e)"
proof -
  from inv row have ok: "row_ok (j_events m i) i row" by (simp add: jinv_def)
  let ?e = "e\<lparr>ev_Version := row_currentVersion row' + 1, ev_GlobalSeq := j_globalSeq m + 1\<rparr>"
  have "row_ok (j_events m i @ [?e]) i (row'\<lparr>row_currentVersion := row_currentVersion row' + 1\<rparr>)"
    by (rule row_ok_logged [OF ok]) (use assms in auto)
  with inv row log_ok_logged [of m i row' e] show ?thesis
    by (auto simp: jinv_def logged_fields)
qed

lemma jinv_new: "jinv NewMemJournal"
  by (simp add: jinv_def NewMemJournal_def find_row_def log_ok_def)

lemma jinv_Enqueue [inv_intros]:
  assumes "jinv m" and "Enqueue m inst = Inr m'"
  shows "jinv m'"
proof -
  from assms(2) have none: "find_row m (inst_ID inst) = None" and val: "saga_ValidateNew inst = Inr ()"
    by (auto simp: Enqueue_ok)
  from assms(1) none have ev: "j_events m (inst_ID inst) = []" by (simp add: jinv_def)
  from val have st: "inst_Status inst = StatusPending"
    by (simp add: saga_ValidateNew_def and_then_Inr validateInitialState_ok)
  from val have "inst = NewInstance (inst_ID inst) (inst_DefinitionID inst) (inst_StartedAt inst)"
    by (simp only: saga_ValidateNew_ok)
  then have wf: "inst_wf inst" using inst_wf_new by metis
  let ?r = "\<lparr>row_inst = inst, row_currentVersion = 0, row_leaseID = [], row_leaseExpiresAt = 0\<rparr>"
  have "(j_events m)(inst_ID inst := []) = j_events m" using ev by (simp add: fun_upd_idem)
  with assms(2) have m': "m' = put_row m (inst_ID inst) ?r"
    by (simp add: Enqueue_ok put_row_def)
  have "row_ok [] (inst_ID inst) ?r" using st wf by (simp add: row_ok_def log_status_def log_fold_def)
  with assms(1) ev show ?thesis by (simp add: m' jinv_def)
qed

lemma jinv_Append [inv_intros]:
  assumes inv: "jinv m" and app: "Append m now i l e = Inr (m', v)"
  shows "jinv m'"
proof -
  from app obtain row row' where row: "find_row m i = Some row"
    and val: "ValidateForAppend e = Inr ()"
    and proj: "applyProjection row (ev_Kind e) now = Inr row'"
    and m': "m' = logged m i row' (e\<lparr>ev_Version := 0, ev_GlobalSeq := 0, ev_CreatedAt := now\<rparr>)"
    by (auto simp: Append_ok)
  from ValidateForAppend_kind [OF val] have k: "\<not> EventKind_IsTerminal (ev_Kind e)" "EventKind_Valid (ev_Kind e)"
    by auto
  from inv row have ok: "row_ok (j_events m i) i row" by (simp add: jinv_def)
  from applyProjection_ok [OF k proj] have
    step: "log_step (inst_Status (row_inst row)) (ev_Kind e) = Some (inst_Status (row_inst row'))"
    and adv: "row' = row \<or> (\<exists>to inst. AdvanceSaga (Some (row_inst row)) to now = Inr inst \<and>
      row' = row\<lparr>row_inst := inst\<rparr>)" by auto
  from adv have "row_currentVersion row' = row_currentVersion row"
    by auto
  moreover from adv ok have "inst_ID (row_inst row') = i"
    by (auto simp: row_ok_def AdvanceSaga_ok)
  moreover from adv ok have "inst_wf (row_inst row')"
    using inst_wf_AdvanceSaga [of "row_inst row"] by (auto simp: row_ok_def)
  moreover from log_step_nonterminal [OF k(1) step] have "\<not> saga_IsTerminal (inst_Status (row_inst row'))" .
  ultimately show ?thesis unfolding m' by (intro jinv_logged [OF inv row]) (use step in auto)
qed

lemma jinv_MarkTerminal [inv_intros]:
  assumes inv: "jinv m" and mt: "MarkTerminal m now i l s = Inr (m', b)"
  shows "jinv m'"
  using MarkTerminal_cases [OF mt]
proof (elim disjE conjE exE)
  fix row inst k
  assume row: "find_row m i = Some row" and k: "terminal_status k = Some s"
    and adv: "AdvanceSaga (Some (row_inst row)) s now = Inr inst"
    and m': "m' = logged m i (row\<lparr>row_inst := inst, row_leaseID := []\<rparr>) (terminal_event k now)"
  from inv row have ok: "row_ok (j_events m i) i row" by (simp add: jinv_def)
  from inst_wf_AdvanceSaga [OF _ adv] adv ok have "inst_ID inst = i" "inst_wf inst"
    by (simp_all add: row_ok_def AdvanceSaga_ok)
  moreover have "log_step (inst_Status (row_inst row)) k = Some (inst_Status inst)"
    using adv by (auto simp: log_step_terminal [OF k] AdvanceSaga_ok)
  ultimately show ?thesis unfolding m'
    by (intro jinv_logged [OF inv row]) (auto simp: terminal_event_def)
qed (use inv in simp)

lemma jinv_lease:
  assumes "jinv m" and "find_row m i = Some row" and "same_but_lease row row'"
    and "\<not> saga_IsTerminal (inst_Status (row_inst row))"
  shows "jinv (put_row m i row')"
  using assms by (auto simp: jinv_def row_ok_def same_but_lease_def)

lemma fenced_not_terminal:
  "jinv m \<Longrightarrow> find_row m i = Some row \<Longrightarrow> fenced row l now \<Longrightarrow> \<not> saga_IsTerminal (inst_Status (row_inst row))"
  by (auto simp: jinv_def row_ok_def fenced_def)

lemma jinv_Heartbeat [inv_intros]:
  assumes inv: "jinv m" and hb: "Heartbeat m now i l d = Inr (m', b)"
  shows "jinv m'"
  using Heartbeat_cases [OF hb]
proof (elim disjE conjE exE)
  fix row
  assume row: "find_row m i = Some row" "fenced row l now"
    and m': "m' = put_row m i (row\<lparr>row_leaseExpiresAt := now + d\<rparr>)"
  from jinv_lease [OF inv row(1) _ fenced_not_terminal [OF inv row]] show ?thesis
    by (simp add: m' same_but_lease_def)
qed (use inv in simp)

lemma jinv_lease_candidates:
  assumes "jinv m" and "distinct (map fst cs)"
    and "\<forall>(i, row) \<in> set cs. find_row m i = Some row \<and> \<not> saga_IsTerminal (inst_Status (row_inst row))"
  shows "jinv (fst (lease_candidates m l x cs))"
  using assms
proof (induction cs arbitrary: m)
  case (Cons c cs)
  obtain i row where c: "c = (i, row)" by (cases c)
  let ?m = "put_row m i (row\<lparr>row_leaseID := l, row_leaseExpiresAt := x\<rparr>)"
  have "jinv ?m" by (rule jinv_lease) (use Cons.prems c in \<open>auto simp: same_but_lease_def\<close>)
  then have "jinv (fst (lease_candidates ?m l x cs))"
    by (rule Cons.IH) (use Cons.prems c in \<open>auto simp: rev_image_eqI\<close>)
  with c show ?case by (simp add: lease_candidates_Cons Let_def)
qed simp

lemma claim_list_distinct: "jinv m \<Longrightarrow> distinct (map fst (claim_list m now b))"
proof -
  assume "jinv m"
  then have "distinct (map fst (filter (\<lambda>c. claimable now (snd c)) (j_instances m)))"
    by (simp add: jinv_def distinct_map_filter)
  then have "distinct (map fst (sort_key candidate_key (filter (\<lambda>c. claimable now (snd c)) (j_instances m))))"
    by (simp add: distinct_map)
  then show ?thesis unfolding claim_list_def take_map [symmetric] by (rule distinct_take)
qed

lemma claim_list_rows:
  assumes "jinv m" and "(i, row) \<in> set (claim_list m now b)"
  shows "find_row m i = Some row \<and> claimable now row"
  using claim_list_mem [OF assms(2)] assms(1) by (simp add: jinv_def find_row_def)

lemma jinv_ClaimPending [inv_intros]:
  assumes inv: "jinv m" and cl: "ClaimPending m now uuid b d = Inr (m', claimed, l)"
  shows "jinv m'"
proof (cases "claim_list m now b = []")
  case False
  with cl have "m' = fst (lease_candidates m l (now + d) (claim_list m now b))"
    by (auto simp: ClaimPending_ok Let_def prod_eq_iff)
  moreover have "jinv (fst (lease_candidates m l (now + d) (claim_list m now b)))"
    by (rule jinv_lease_candidates [OF inv claim_list_distinct [OF inv]])
      (use claim_list_rows [OF inv] in \<open>auto simp: claimable_def\<close>)
  ultimately show ?thesis by simp
qed (use cl inv in \<open>simp add: ClaimPending_ok Let_def\<close>)

lemma kept_cases:
  assumes "\<And>m' r'. r = Inr (m', r') \<Longrightarrow> P m'" and "P m"
  shows "P (kept m r)"
  using assms by (auto simp: kept_def split: sum.splits)

lemma jinv_jstep:
  assumes inv: "jinv m"
  shows "jinv (jstep m now op)"
proof (cases op)
  case (OpEnqueue inst)
  then show ?thesis using inv jinv_Enqueue [OF inv] by (simp split: sum.split)
next
  case (OpClaimPending uuid b d)
  have "jinv (kept m (ClaimPending m now uuid b d))"
    by (rule kept_cases) (use inv jinv_ClaimPending [OF inv] in auto)
  with OpClaimPending show ?thesis by simp
qed (simp_all add: inv kept_cases jinv_Append [OF inv] jinv_Heartbeat [OF inv] jinv_MarkTerminal [OF inv])

lemma jinv_jexec: "jinv m \<Longrightarrow> jinv (jexec m ops)"
  by (induction m ops rule: jexec.induct) (auto intro: jinv_jstep)

subsection \<open>Fencing\<close>

lemma lease_candidates_events: "j_events (fst (lease_candidates m l x cs)) = j_events m"
  by (induction cs arbitrary: m) (simp_all add: lease_candidates_Cons Let_def)

lemma find_ClaimPending:
  assumes inv: "jinv m" and cl: "ClaimPending m now uuid b d = Inr (m', claimed, l)"
  shows "find_row m' i =
    (case map_of (claim_list m now b) i of
       Some row \<Rightarrow> Some (row\<lparr>row_leaseID := l, row_leaseExpiresAt := now + d\<rparr>)
     | None \<Rightarrow> find_row m i)" and "j_events m' = j_events m"
proof -
  let ?cs = "claim_list m now b"
  have m': "m' = fst (lease_candidates m l (now + d) ?cs)"
    using cl by (cases "?cs = []") (auto simp: ClaimPending_ok Let_def prod_eq_iff)
  show "find_row m' i =
    (case map_of (claim_list m now b) i of
       Some row \<Rightarrow> Some (row\<lparr>row_leaseID := l, row_leaseExpiresAt := now + d\<rparr>)
     | None \<Rightarrow> find_row m i)"
    unfolding m' by (rule find_lease_candidates [OF claim_list_distinct [OF inv]])
  show "j_events m' = j_events m" unfolding m' by (rule lease_candidates_events)
qed

lemma claimed_row:
  assumes inv: "jinv m" and "map_of (claim_list m now b) i = Some row"
  shows "find_row m i = Some row \<and> claimable now row"
  using claim_list_rows [OF inv] assms(2) by (blast dest: map_of_SomeD)

text \<open>
  The rely condition of a row: a call that can neither claim the row nor act under its lease does
  not touch the row or the log of its instance.
\<close>

lemma claim_misses:
  assumes inv: "jinv m" and row: "find_row m i = Some row" and nc: "\<not> claimable now row"
    and cl: "ClaimPending m now uuid b d = Inr (m', r')"
  shows "row_view m' i = row_view m i"
proof -
  obtain cs l' where "r' = (cs, l')" by (cases r')
  with cl have cl': "ClaimPending m now uuid b d = Inr (m', cs, l')" by simp
  have "map_of (claim_list m now b) i = None"
    using claimed_row [OF inv] row nc by (cases "map_of (claim_list m now b) i") auto
  with find_ClaimPending [OF inv cl'] show ?thesis by (simp add: row_view_def)
qed

lemma untouched_step:
  assumes inv: "jinv m" and row: "find_row m i = Some row" and nc: "\<not> claimable now row"
    and foreign: "\<And>l. op_acts_as op i l \<Longrightarrow> \<not> fenced row l now"
  shows "row_view (jstep m now op) i = row_view m i"
proof (cases op)
  case (OpEnqueue inst)
  with row show ?thesis by (auto simp: row_view_def Enqueue_ok split: sum.split)
next
  case (OpAppend i' l' e)
  have "row_view (kept m (Append m now i' l' e)) i = row_view m i"
    by (rule kept_cases) (use row foreign OpAppend in
      \<open>auto simp: row_view_def Append_ok logged_fields\<close>)
  with OpAppend show ?thesis by simp
next
  case (OpClaimPending uuid b d)
  have "row_view (kept m (ClaimPending m now uuid b d)) i = row_view m i"
    by (rule kept_cases) (simp_all add: claim_misses [OF inv row nc])
  with OpClaimPending show ?thesis by simp
next
  case (OpHeartbeat i' l' d)
  have "row_view (kept m (Heartbeat m now i' l' d)) i = row_view m i"
    by (rule kept_cases) (use row foreign OpHeartbeat in
      \<open>auto simp: row_view_def dest!: Heartbeat_cases\<close>)
  with OpHeartbeat show ?thesis by simp
next
  case (OpMarkTerminal i' l' s)
  have "row_view (kept m (MarkTerminal m now i' l' s)) i = row_view m i"
    by (rule kept_cases) (use row foreign OpMarkTerminal in
      \<open>auto simp: row_view_def logged_fields dest!: MarkTerminal_cases\<close>)
  with OpMarkTerminal show ?thesis by simp
qed

lemma untouched_exec:
  assumes "jinv m" and "find_row m i = Some row"
    and "\<And>t op. (t, op) \<in> set ops \<Longrightarrow> \<not> claimable t row \<and> (\<forall>l. op_acts_as op i l \<longrightarrow> \<not> fenced row l t)"
  shows "row_view (jexec m ops) i = row_view m i"
  using assms
proof (induction m ops rule: jexec.induct)
  case (2 m now op ops)
  have "row_view (jstep m now op) i = row_view m i"
    by (rule untouched_step [OF 2(2,3)]) (use 2(4) in auto)
  moreover from this 2(3) have row': "find_row (jstep m now op) i = Some row"
    by (simp add: row_view_def)
  have "row_view (jexec (jstep m now op) ops) i = row_view (jstep m now op) i"
    by (rule 2(1) [OF jinv_jstep [OF 2(2)] row'], rule 2(4)) simp
  ultimately show ?case by simp
qed simp

lemma lease_dead_step:
  assumes inv: "jinv m" and dead: "lease_dead m i l" and "l \<noteq> []" and fresh: "\<not> op_mints op l"
  shows "lease_dead (jstep m now op) i l"
proof (cases op)
  case (OpEnqueue inst)
  with dead show ?thesis by (auto simp: lease_dead_def Enqueue_ok split: sum.split)
next
  case (OpAppend i' l' e)
  have "lease_dead (kept m (Append m now i' l' e)) i l"
  proof (rule kept_cases)
    fix m' v assume "Append m now i' l' e = Inr (m', v)"
    then obtain row row' where row: "find_row m i' = Some row" "ValidateForAppend e = Inr ()"
      "applyProjection row (ev_Kind e) now = Inr row'"
      and m': "m' = logged m i' row' (e\<lparr>ev_Version := 0, ev_GlobalSeq := 0, ev_CreatedAt := now\<rparr>)"
      by (auto simp: Append_ok)
    from applyProjection_ok [OF _ _ row(3)] ValidateForAppend_kind [OF row(2)]
    have "row_leaseID row' = row_leaseID row" by auto
    with dead row m' show "lease_dead m' i l" by (auto simp: lease_dead_def logged_fields)
  qed (rule dead)
  with OpAppend show ?thesis by simp
next
  case (OpClaimPending uuid b d)
  have "lease_dead (kept m (ClaimPending m now uuid b d)) i l"
  proof (rule kept_cases)
    fix m' r' assume "ClaimPending m now uuid b d = Inr (m', r')"
    moreover obtain cs l' where "r' = (cs, l')" by (cases r')
    ultimately have cl: "ClaimPending m now uuid b d = Inr (m', cs, l')" by simp
    have "l' \<noteq> l"
      using cl fresh OpClaimPending \<open>l \<noteq> []\<close> by (auto simp: ClaimPending_ok Let_def split: if_splits)
    with dead show "lease_dead m' i l"
      unfolding lease_dead_def find_ClaimPending [OF inv cl] by (auto split: option.split)
  qed (rule dead)
  with OpClaimPending show ?thesis by simp
next
  case (OpHeartbeat i' l' d)
  have "lease_dead (kept m (Heartbeat m now i' l' d)) i l"
    by (rule kept_cases) (use dead in \<open>auto simp: lease_dead_def dest!: Heartbeat_cases\<close>)
  with OpHeartbeat show ?thesis by simp
next
  case (OpMarkTerminal i' l' s)
  have "lease_dead (kept m (MarkTerminal m now i' l' s)) i l"
    by (rule kept_cases) (use dead \<open>l \<noteq> []\<close> in
      \<open>auto simp: lease_dead_def logged_fields dest!: MarkTerminal_cases\<close>)
  with OpMarkTerminal show ?thesis by simp
qed

lemma lease_dead_exec:
  assumes "jinv m" and "lease_dead m i l" and "l \<noteq> []" and "\<forall>(t, op) \<in> set ops. \<not> op_mints op l"
  shows "lease_dead (jexec m ops) i l"
  using assms by (induction m ops rule: jexec.induct) (auto intro!: jinv_jstep lease_dead_step)

lemma lease_dead_calls:
  assumes "lease_dead m i l" and "0 < d"
  shows "Append m now i l e = Inl errStaleLease \<and> Heartbeat m now i l d = Inr (m, False) \<and>
    MarkTerminal m now i l s = Inr (m, False)"
  using assms by (auto simp: lease_dead_def Append_def Heartbeat_def MarkTerminal_def fenced_iff)

subsection \<open>Claiming\<close>




subsection \<open>Reading the global log\<close>

lemma LoadSince_take:
  assumes "0 < limit" and "0 \<le> a" and "in_i64 (int (length (j_globalLog m)))"
  shows "LoadSince m a limit = Inr (take (nat limit) (drop (nat a) (j_globalLog m)))"
proof -
  let ?n = "int (length (j_globalLog m))"
  let ?s = "if a > ?n then ?n else a"
  have n: "?n \<le> max_i64" using assms(3) by (simp add: in_i64_def)
  have s: "i64 (?n - ?s) = ?n - ?s"
    using n assms(2) by (intro i64_id) (auto simp: in_i64_def min_i64_def max_i64_def)
  have e: "i64 (?s + limit) = ?s + limit" if "limit < ?n - ?s"
    using n assms(1,2) that by (intro i64_id) (auto simp: in_i64_def min_i64_def max_i64_def)
  have "take (nat ((if limit < i64 (?n - ?s) then i64 (?s + limit) else ?n) - ?s))
      (drop (nat ?s) (j_globalLog m)) = take (nat limit) (drop (nat a) (j_globalLog m))"
  proof (cases "a > ?n")
    case True
    then show ?thesis by simp
  next
    case False
    then show ?thesis using s e assms(1,2) by (cases "limit < ?n - a") (auto simp: min_def)
  qed
  then show ?thesis using assms(1,2) by (simp add: LoadSince_def Let_def)
qed

lemma dense_snoc_iff: "dense (vs @ [v]) \<longleftrightarrow> dense vs \<and> v = int (length vs) + 1"
proof -
  have "map int [1..<Suc (Suc (length vs))] = map int [1..<Suc (length vs)] @ [int (length vs) + 1]"
    by simp
  then show ?thesis by (simp add: dense_def del: upt_Suc)
qed

lemma seq_filter_drop:
  assumes "dense (map ge_GlobalSeq xs)" and "0 \<le> a"
  shows "filter (\<lambda>g. a < ge_GlobalSeq g) xs = drop (nat a) xs"
  using assms(1)
proof (induction xs rule: rev_induct)
  case (snoc x xs)
  from snoc.prems have d: "dense (map ge_GlobalSeq xs)" and x: "ge_GlobalSeq x = int (length xs) + 1"
    by (simp_all add: dense_snoc_iff)
  from x snoc.IH [OF d] assms(2) show ?case by auto
qed simp

lemma drain_reads:
  assumes inv: "jinv m" and lim: "0 < limit" and "0 \<le> a" and len: "in_i64 (int (length (j_globalLog m)))"
    and "length (j_globalLog m) - nat a < n"
  shows "drain n m a limit = Inr (drop (nat a) (j_globalLog m))"
  using assms(3,5)
proof (induction n arbitrary: a)
  case (Suc n)
  let ?log = "j_globalLog m"
  let ?page = "take (nat limit) (drop (nat a) ?log)"
  have load: "LoadSince m a limit = Inr ?page" using lim Suc.prems(1) len by (rule LoadSince_take)
  show ?case
  proof (cases "?page = []")
    case True
    with lim load show ?thesis by auto
  next
    case False
    define k where "k = length ?page"
    have k: "0 < k" "nat a + k \<le> length ?log" using False by (auto simp: k_def)
    have "last ?page = ?page ! (k - 1)" using False by (simp add: last_conv_nth k_def)
    also have "\<dots> = drop (nat a) ?log ! (k - 1)"
      by (rule nth_take) (use k lim in \<open>auto simp: k_def min_def\<close>)
    also have "\<dots> = ?log ! (nat a + k - 1)" using k by simp
    finally have "last ?page = ?log ! (nat a + k - 1)" .
    moreover have "map ge_GlobalSeq ?log ! (nat a + k - 1) = int (nat a + k - 1) + 1"
      using inv k by (intro dense_nth) (auto simp: jinv_def log_ok_def)
    ultimately have cur: "ge_GlobalSeq (last ?page) = a + int k"
      using k Suc.prems(1) by simp
    have "drain n m (a + int k) limit = Inr (drop (nat (a + int k)) ?log)"
      by (rule Suc.IH) (use k Suc.prems in auto)
    moreover have "?page @ drop (nat (a + int k)) ?log = drop (nat a) ?log"
    proof -
      have "?page = take k (drop (nat a) ?log)" by (auto simp: k_def min_def)
      moreover have "drop (nat (a + int k)) ?log = drop k (drop (nat a) ?log)"
        using Suc.prems(1) by (simp add: nat_add_distrib add.commute)
      ultimately show ?thesis by (metis append_take_drop_id)
    qed
    ultimately show ?thesis using load cur False by simp
  qed
qed simp

subsection \<open>The shape of a log\<close>

lemma log_status_shape:
  "log_status ks = Some s \<Longrightarrow>
   (if saga_IsTerminal s
    then \<exists>ks' k. ks = ks' @ [k] \<and> terminal_status k = Some s \<and> (\<forall>x \<in> set ks'. \<not> EventKind_IsTerminal x)
    else \<forall>x \<in> set ks. \<not> EventKind_IsTerminal x)"
proof (induction ks arbitrary: s rule: rev_induct)
  case Nil
  then show ?case by (auto simp: log_status_def log_fold_def)
next
  case (snoc k ks)
  then obtain t where t: "log_status ks = Some t" and step: "log_step t k = Some s"
    by (auto simp: log_status_append bind_eq_Some_conv)
  from step have "\<not> saga_IsTerminal t" using log_step_stuck [of t k] by auto
  with snoc.IH [OF t] have pre: "\<forall>x \<in> set ks. \<not> EventKind_IsTerminal x" by simp
  show ?case
  proof (cases "EventKind_IsTerminal k")
    case True
    then obtain u where u: "terminal_status k = Some u" by (auto simp: terminal_status_IsTerminal)
    with step have "u = s" by (simp add: log_step_terminal split: if_splits)
    with u pre terminal_status_terminal [OF u] show ?thesis by auto
  next
    case False
    with log_step_nonterminal [OF False step] pre show ?thesis by auto
  qed
qed

subsection \<open>The journal keeps the fencing contract\<close>

locale fenced_journal =
  fixes ok :: "'s \<Rightarrow> bool"
    and view :: "'s \<Rightarrow> safeid \<Rightarrow> (safeid \<times> safeid) option"
    and log :: "'s \<Rightarrow> safeid \<Rightarrow> sig list"
    and append :: "'s \<Rightarrow> instant \<Rightarrow> safeid \<Rightarrow> safeid \<Rightarrow> saga_event \<Rightarrow> ('s \<times> int) res"
    and mark :: "'s \<Rightarrow> instant \<Rightarrow> safeid \<Rightarrow> safeid \<Rightarrow> saga_status \<Rightarrow> ('s \<times> bool) res"
    and beat :: "'s \<Rightarrow> instant \<Rightarrow> safeid \<Rightarrow> safeid \<Rightarrow> duration \<Rightarrow> ('s \<times> bool) res"
    and claim :: "'s \<Rightarrow> instant \<Rightarrow> string res \<Rightarrow> int \<Rightarrow> duration \<Rightarrow> ('s \<times> claimed_instance list \<times> safeid) res"
  assumes append_law: "ok m \<Longrightarrow> append m t i l e = Inr (m', v) \<Longrightarrow>
      ok m' \<and> (\<exists>d. view m i = Some (l, d)) \<and> view m' = view m \<and> log m' = (log m)(i := log m i @ [sig_of e])"
    and mark_law: "ok m \<Longrightarrow> mark m t i l s = Inr (m', b) \<Longrightarrow>
      ok m' \<and> (m' = m \<or> (\<exists>d k. view m i = Some (l, d) \<and> view m' = (view m)(i \<mapsto> ([], d)) \<and>
        EventKind_IsTerminal k \<and> log m' = (log m)(i := log m i @ [(k, [])])))"
    and beat_law: "ok m \<Longrightarrow> beat m t i l x = Inr (m', b) \<Longrightarrow> ok m' \<and> view m' = view m \<and> log m' = log m"
    and claim_law: "ok m \<Longrightarrow> claim m t uuid n x = Inr (m', cs, l) \<Longrightarrow>
      ok m' \<and> log m' = log m \<and> distinct (map (\<lambda>c. inst_ID (ci_Instance c)) cs) \<and> (cs \<noteq> [] \<longrightarrow> uuid = Inr l) \<and>
      (\<forall>c \<in> set cs. ci_LeaseID c = l) \<and>
      (\<forall>j. view m' j = (case view m j of None \<Rightarrow> None
         | Some (l0, d) \<Rightarrow> Some (if j \<in> (\<lambda>c. inst_ID (ci_Instance c)) ` set cs then l else l0, d))) \<and>
      (\<forall>c \<in> set cs. \<exists>l0. view m (inst_ID (ci_Instance c)) = Some (l0, inst_DefinitionID (ci_Instance c)))"
begin

text \<open>A worker's knowledge of the log is right as long as its lease is the current one.\<close>

definition knows :: "'s \<Rightarrow> safeid \<Rightarrow> safeid \<Rightarrow> sig list option \<Rightarrow> bool" where
  "knows m i l kn \<longleftrightarrow> (\<forall>s d. kn = Some s \<longrightarrow> view m i = Some (l, d) \<longrightarrow> log m i = s)"

lemma knows_append_own:
  "ok m \<Longrightarrow> append m t i l e = Inr (m', v) \<Longrightarrow> knows m i l (Some s) \<Longrightarrow>
   log m i = s \<and> knows m' i l (Some (s @ [sig_of e]))"
  using append_law [of m t i l e m' v] by (auto simp: knows_def)

lemma knows_append_other:
  "ok m \<Longrightarrow> append m t i l e = Inr (m', v) \<Longrightarrow> (j, k) \<noteq> (i, l) \<Longrightarrow> knows m j k kn \<Longrightarrow> knows m' j k kn"
  using append_law [of m t i l e m' v] by (auto simp: knows_def)

lemma knows_mark:
  "ok m \<Longrightarrow> mark m t i l s = Inr (m', b) \<Longrightarrow> k \<noteq> [] \<Longrightarrow> knows m j k kn \<Longrightarrow> knows m' j k kn"
  using mark_law [of m t i l s m' b] by (auto simp: knows_def split: if_splits)

lemma knows_beat: "ok m \<Longrightarrow> beat m t i l x = Inr (m', b) \<Longrightarrow> knows m' j k kn = knows m j k kn"
  using beat_law [of m t i l x m' b] by (simp add: knows_def)

lemma knows_claim:
  "ok m \<Longrightarrow> claim m t uuid n x = Inr (m', cs, l) \<Longrightarrow> k \<noteq> l \<Longrightarrow> knows m j k kn \<Longrightarrow> knows m' j k kn"
  using claim_law [of m t uuid n x m' cs l] by (auto simp: knows_def split: option.splits)

end

lemma mem_append_law:
  assumes inv: "jinv m" and app: "Append m now i l e = Inr (m', v)"
  shows "jinv m' \<and> (\<exists>d. lease_view m i = Some (l, d)) \<and> lease_view m' = lease_view m \<and>
    log_view m' = (log_view m)(i := log_view m i @ [sig_of e])"
proof -
  from app obtain row row' where row: "find_row m i = Some row" "fenced row l now" "ValidateForAppend e = Inr ()"
    "applyProjection row (ev_Kind e) now = Inr row'"
    and m': "m' = logged m i row' (e\<lparr>ev_Version := 0, ev_GlobalSeq := 0, ev_CreatedAt := now\<rparr>)"
    by (auto simp: Append_ok)
  have same: "row_leaseID row' = row_leaseID row \<and>
      inst_DefinitionID (row_inst row') = inst_DefinitionID (row_inst row)"
    using applyProjection_ok [OF _ _ row(4)] ValidateForAppend_kind [OF row(3)] by (auto simp: AdvanceSaga_ok)
  have "lease_view m' = lease_view m"
    using row(1) same by (auto simp: fun_eq_iff lease_view_def m' logged_fields)
  moreover have "log_view m' = (log_view m)(i := log_view m i @ [sig_of e])"
    by (simp add: fun_eq_iff log_view_def m' logged_fields sig_of_def)
  ultimately show ?thesis
    using jinv_Append [OF inv app] row(1,2) by (simp add: lease_view_def fenced_iff)
qed

lemma mem_mark_law:
  assumes inv: "jinv m" and mt: "MarkTerminal m now i l s = Inr (m', b)"
  shows "jinv m' \<and> (m' = m \<or> (\<exists>d k. lease_view m i = Some (l, d) \<and> lease_view m' = (lease_view m)(i \<mapsto> ([], d)) \<and>
        EventKind_IsTerminal k \<and> log_view m' = (log_view m)(i := log_view m i @ [(k, [])])))"
proof -
  have "m' = m \<or> (\<exists>d k. lease_view m i = Some (l, d) \<and> lease_view m' = (lease_view m)(i \<mapsto> ([], d)) \<and>
        EventKind_IsTerminal k \<and> log_view m' = (log_view m)(i := log_view m i @ [(k, [])]))"
    using MarkTerminal_cases [OF mt]
  proof (elim disjE conjE exE)
    fix row inst k
    assume row: "find_row m i = Some row" "fenced row l now" "terminal_status k = Some s"
      and adv: "AdvanceSaga (Some (row_inst row)) s now = Inr inst"
      and m': "m' = logged m i (row\<lparr>row_inst := inst, row_leaseID := []\<rparr>) (terminal_event k now)"
    let ?d = "inst_DefinitionID (row_inst row)"
    from adv have "inst_DefinitionID inst = ?d" by (auto simp: AdvanceSaga_ok)
    then have "lease_view m' = (lease_view m)(i \<mapsto> ([], ?d))"
      by (auto simp: fun_eq_iff lease_view_def m' logged_fields)
    moreover have "log_view m' = (log_view m)(i := log_view m i @ [(k, [])])"
      by (simp add: fun_eq_iff log_view_def m' logged_fields sig_of_def terminal_event_def)
    moreover have "lease_view m i = Some (l, ?d)" using row by (simp add: lease_view_def fenced_iff)
    moreover have "EventKind_IsTerminal k" using row(3) by (simp add: terminal_status_IsTerminal)
    ultimately show ?thesis by blast
  qed simp
  with jinv_MarkTerminal [OF inv mt] show ?thesis by blast
qed

lemma mem_beat_law:
  assumes inv: "jinv m" and hb: "Heartbeat m now i l d = Inr (m', b)"
  shows "jinv m' \<and> lease_view m' = lease_view m \<and> log_view m' = log_view m"
  using jinv_Heartbeat [OF inv hb] Heartbeat_cases [OF hb]
  by (auto simp: fun_eq_iff lease_view_def log_view_def)

lemma mem_claim_law:
  assumes inv: "jinv m" and cl: "ClaimPending m now uuid b x = Inr (m', cs, l)"
  shows "jinv m' \<and> log_view m' = log_view m \<and> distinct (map (\<lambda>c. inst_ID (ci_Instance c)) cs) \<and>
      (cs \<noteq> [] \<longrightarrow> uuid = Inr l) \<and> (\<forall>c \<in> set cs. ci_LeaseID c = l) \<and>
      (\<forall>j. lease_view m' j = (case lease_view m j of None \<Rightarrow> None
         | Some (l0, d) \<Rightarrow> Some (if j \<in> (\<lambda>c. inst_ID (ci_Instance c)) ` set cs then l else l0, d))) \<and>
      (\<forall>c \<in> set cs. \<exists>l0. lease_view m (inst_ID (ci_Instance c)) = Some (l0, inst_DefinitionID (ci_Instance c)))"
proof -
  let ?cl = "claim_list m now b"
  have cs: "cs = map (\<lambda>c. \<lparr>ci_Instance = row_inst (snd c), ci_LeaseID = l\<rparr>) ?cl"
    using cl by (cases "?cl = []") (auto simp: ClaimPending_ok Let_def prod_eq_iff lease_candidates_claimed)
  have rid: "find_row m (fst c) = Some (snd c) \<and> inst_ID (row_inst (snd c)) = fst c" if "c \<in> set ?cl" for c
    using claim_list_rows [OF inv, of "fst c" "snd c" now b] that inv by (auto simp: jinv_def row_ok_def)
  have ids: "map (\<lambda>c. inst_ID (ci_Instance c)) cs = map fst ?cl"
    unfolding cs using rid by simp
  have idset: "(\<lambda>c. inst_ID (ci_Instance c)) ` set cs = fst ` set ?cl"
    using arg_cong [OF ids, of set] by simp
  have "lease_view m' j = (case lease_view m j of None \<Rightarrow> None
         | Some (l0, d) \<Rightarrow> Some (if j \<in> fst ` set ?cl then l else l0, d))" for j
  proof (cases "map_of ?cl j")
    case None
    then have "j \<notin> fst ` set ?cl" by (simp add: map_of_eq_None_iff)
    with None find_ClaimPending(1) [OF inv cl, of j] show ?thesis
      by (simp add: lease_view_def split: option.split)
  next
    case (Some row)
    then have "(j, row) \<in> set ?cl" by (rule map_of_SomeD)
    with Some find_ClaimPending(1) [OF inv cl, of j] rid [of "(j, row)"] show ?thesis
      by (force simp: lease_view_def)
  qed
  moreover have "uuid = Inr l" if "cs \<noteq> []"
    using that cl by (auto simp: ClaimPending_ok Let_def split: if_splits)
  moreover have "\<exists>l0. lease_view m (inst_ID (ci_Instance c)) = Some (l0, inst_DefinitionID (ci_Instance c))"
    if "c \<in> set cs" for c
    using that rid by (force simp: cs lease_view_def)
  moreover have "log_view m' = log_view m" using find_ClaimPending(2) [OF inv cl] by (simp add: log_view_def fun_eq_iff)
  moreover have "\<forall>c \<in> set cs. ci_LeaseID c = l" by (simp add: cs)
  ultimately show ?thesis
    unfolding ids idset
    using jinv_ClaimPending [OF inv cl] claim_list_distinct [OF inv, of now b] by blast
qed

interpretation mem: fenced_journal jinv lease_view log_view Append MarkTerminal Heartbeat ClaimPending
  by unfold_locales (fact mem_append_law mem_mark_law mem_beat_law mem_claim_law)+

lemma mem_enqueue_law:
  assumes inv: "jinv m" and "Enqueue m inst = Inr m'"
  shows "jinv m' \<and> lease_view m (inst_ID inst) = None \<and> log_view m (inst_ID inst) = [] \<and> log_view m' = log_view m \<and>
    lease_view m' = (lease_view m)(inst_ID inst \<mapsto> ([], inst_DefinitionID inst))"
  using jinv_Enqueue [OF assms] assms
  by (auto simp: Enqueue_ok jinv_def lease_view_def log_view_def fun_eq_iff)

subsection \<open>Sample runs\<close>

lemma sample_find: "find_row (journal_after sample_ops) ''s1'' = Some sample_row"
  by code_simp

lemma sample_find_terminal:
  "find_row (journal_after (sample_ops @ [(20, OpMarkTerminal ''s1'' ''L1'' StatusSucceeded)])) ''s1'' =
   Some (sample_row\<lparr>row_inst := (row_inst sample_row)\<lparr>inst_Status := StatusSucceeded,
     inst_UpdatedAt := Some 20, inst_CompletedAt := Some 20\<rparr>, row_currentVersion := 2, row_leaseID := []\<rparr>)"
  by code_simp

lemma sample_claim: "claim_list (journal_after sample_ops) 200 3 = [(''s1'', sample_row), (''s2'', \<lparr>row_inst = NewInstance ''s2'' ''order'' 6, row_currentVersion = 0, row_leaseID = [], row_leaseExpiresAt = 0\<rparr>)]"
  by code_simp

lemma sample_loglen: "length (j_globalLog (journal_after sample_ops)) = 1"
  by code_simp

subsection \<open>Properties\<close>

lemma journal_after_inv: "jinv (journal_after ops)"
  by (rule jinv_jexec [OF jinv_new])

text \<open>
  C1. After any interleaving of journal calls, the status of an instance is the fold of its event
  log over the phase rules, the versions of its events are 1, 2, ... without gap, its log is the
  restriction of the global log to the instance, and the projected row is well formed.
\<close>

theorem journal_status_is_fold:
  assumes "find_row (journal_after ops) i = Some row"
  shows "\<exists>evs. Load (journal_after ops) i = Inr evs \<and>
    log_status (map ev_Kind evs) = Some (inst_Status (row_inst row)) \<and>
    map ev_Version evs = map int [1..<Suc (length evs)] \<and>
    evs = map ge_Event (filter (\<lambda>g. ge_InstanceID g = i) (j_globalLog (journal_after ops))) \<and>
    map ge_GlobalSeq (j_globalLog (journal_after ops)) =
      map int [1..<Suc (nat (HeadSeq (journal_after ops)))] \<and>
    row_currentVersion row = int (length evs) \<and> inst_wf (row_inst row)"
  using journal_after_inv [of ops] assms
  by (auto simp: jinv_def row_ok_def log_ok_def dense_def Load_def HeadSeq_def simp del: upt_Suc)

theorem journal_status_is_fold_witness:
  "\<exists>evs. Load (journal_after sample_ops) ''s1'' = Inr evs \<and>
     log_status (map ev_Kind evs) = Some StatusRunning \<and> length evs = 1"
  using journal_status_is_fold [OF sample_find] by (auto simp: sample_row_def)

text \<open>
  C3. A lease is exclusive: while it is unexpired, no interleaving of calls by others (claims,
  calls on other instances, calls under other leases) changes the row or the log of the leased
  instance.
\<close>

theorem lease_is_exclusive:
  assumes "find_row (journal_after ops) i = Some row" and "fenced row l now"
    and "\<forall>(t, op) \<in> set others. t \<le> row_leaseExpiresAt row \<and> \<not> op_acts_as op i l"
    and "m = jexec (journal_after ops) others"
  shows "find_row m i = Some row \<and> Load m i = Load (journal_after ops) i \<and> fenced row l now"
proof -
  have "row_view m i = row_view (journal_after ops) i"
    unfolding assms(4)
    by (rule untouched_exec [OF journal_after_inv assms(1)])
      (use assms(2,3) in \<open>auto simp: claimable_def fenced_iff\<close>)
  with assms(1,2) show ?thesis by (simp add: row_view_def Load_def)
qed

theorem lease_is_exclusive_witness:
  "find_row (jexec (journal_after sample_ops)
      [(50, OpClaimPending (Inr ''L2'') 9 100), (60, OpMarkTerminal ''s1'' ''L2'' StatusFailed)]) ''s1'' =
   Some sample_row"
  using lease_is_exclusive [OF sample_find, of "''L1''" 50
      "[(50, OpClaimPending (Inr ''L2'') 9 100), (60, OpMarkTerminal ''s1'' ''L2'' StatusFailed)]"]
  by (simp add: fenced_iff sample_row_def)

text \<open>
  C2. A worker that lost its lease is fenced off for good: once another claim took its instance
  (and random lease tokens do not repeat), every later append under the old lease fails as stale and
  every later heartbeat or terminal mark under it reports the loss, all without changing the journal.
\<close>

theorem stale_lease_is_fenced_off:
  assumes "ClaimPending (journal_after ops) now (Inr l') b d = Inr (m, claimed, l'')"
    and "i \<in> set (map (\<lambda>c. inst_ID (ci_Instance c)) claimed)"
    and "l \<noteq> l'" and "l \<noteq> []" and "\<forall>(t, op) \<in> set later. \<not> op_mints op l" and "0 < d'"
  shows "Append (jexec m later) t i l e = Inl errStaleLease \<and>
    Heartbeat (jexec m later) t i l d' = Inr (jexec m later, False) \<and>
    MarkTerminal (jexec m later) t i l s = Inr (jexec m later, False)"
proof -
  have inv: "jinv m" by (rule jinv_ClaimPending [OF journal_after_inv assms(1)])
  have ne: "claim_list (journal_after ops) now b \<noteq> []"
    using assms(1,2) by (auto simp: ClaimPending_ok Let_def)
  then have l': "l'' = l'"
    and cl: "claimed = snd (lease_candidates (journal_after ops) l' (now + d) (claim_list (journal_after ops) now b))"
    using assms(1) by (auto simp: ClaimPending_ok Let_def prod_eq_iff)
  then obtain k row where mem: "(k, row) \<in> set (claim_list (journal_after ops) now b)"
    and "inst_ID (row_inst row) = i" using assms(2) by (auto simp: lease_candidates_claimed)
  moreover from claim_list_rows [OF journal_after_inv mem] have "inst_ID (row_inst row) = k"
    using journal_after_inv [of ops] by (simp add: jinv_def row_ok_def)
  ultimately have "map_of (claim_list (journal_after ops) now b) i = Some row"
    using claim_list_distinct [OF journal_after_inv] by simp
  with find_ClaimPending(1) [OF journal_after_inv assms(1), of i] have "lease_dead m i l"
    using assms(3) l' by (simp add: lease_dead_def)
  from lease_dead_calls [OF lease_dead_exec [OF inv this assms(4,5)] assms(6)] show ?thesis .
qed

theorem stale_lease_is_fenced_off_witness:
  "\<exists>m claimed. ClaimPending (journal_after sample_ops) 200 (Inr ''L2'') 3 100 = Inr (m, claimed, ''L2'') \<and>
     Append m 201 ''s1'' ''L1'' sample_event = Inl errStaleLease"
proof -
  obtain m claimed where cl: "ClaimPending (journal_after sample_ops) 200 (Inr ''L2'') 3 100 =
      Inr (m, claimed, ''L2'')"
    and "''s1'' \<in> set (map (\<lambda>c. inst_ID (ci_Instance c)) claimed)"
    by (simp add: ClaimPending_ok sample_claim prod_eq_iff lease_candidates_claimed)
      (simp add: sample_row_def)
  from stale_lease_is_fenced_off [OF this, of "''L1''" "[]" 1] cl show ?thesis by auto
qed

text \<open>
  C4. A terminal saga is frozen: its log ends with the one event of its terminal status, every
  earlier event is non-terminal, and no later interleaving of calls changes its row or its log.
\<close>

theorem terminal_saga_is_frozen:
  assumes "find_row (journal_after ops) i = Some row" and "saga_IsTerminal (inst_Status (row_inst row))"
  shows "row_view (jexec (journal_after ops) later) i = row_view (journal_after ops) i \<and>
    (\<exists>ks k. map ev_Kind (j_events (journal_after ops) i) = ks @ [k] \<and>
       terminal_status k = Some (inst_Status (row_inst row)) \<and> (\<forall>x \<in> set ks. \<not> EventKind_IsTerminal x))"
proof
  from journal_after_inv [of ops] assms(1) have ok: "row_ok (j_events (journal_after ops) i) i row"
    by (simp add: jinv_def)
  with assms(2) have "row_leaseID row = []" by (simp add: row_ok_def)
  then show "row_view (jexec (journal_after ops) later) i = row_view (journal_after ops) i"
    using assms(2) by (intro untouched_exec [OF journal_after_inv assms(1)])
      (auto simp: claimable_def fenced_iff)
  show "\<exists>ks k. map ev_Kind (j_events (journal_after ops) i) = ks @ [k] \<and>
       terminal_status k = Some (inst_Status (row_inst row)) \<and> (\<forall>x \<in> set ks. \<not> EventKind_IsTerminal x)"
    using log_status_shape [of "map ev_Kind (j_events (journal_after ops) i)"] ok assms(2)
    by (auto simp: row_ok_def)
qed

theorem terminal_saga_is_frozen_witness:
  "\<exists>ks k. map ev_Kind (j_events (journal_after
      (sample_ops @ [(20, OpMarkTerminal ''s1'' ''L1'' StatusSucceeded)])) ''s1'') = ks @ [k] \<and>
     terminal_status k = Some StatusSucceeded"
  using terminal_saga_is_frozen [OF sample_find_terminal, of "[]"] by auto



text \<open>
  C6. Following the global log by cursor loses nothing: reading page by page from position \<open>a\<close> with
  any positive page size ends, and yields exactly the events after \<open>a\<close>, in order.
\<close>

theorem paging_reads_whole_log:
  assumes "m = journal_after ops" and "in_i64 (int (length (j_globalLog m)))" and "0 < limit" and "0 \<le> a"
    and "length (j_globalLog m) - nat a < fuel"
  shows "drain fuel m a limit = Inr (filter (\<lambda>g. a < ge_GlobalSeq g) (j_globalLog m)) \<and>
    LoadSince m a limit = Inr (take (nat limit) (filter (\<lambda>g. a < ge_GlobalSeq g) (j_globalLog m)))"
proof -
  have inv: "jinv m" unfolding assms(1) by (rule journal_after_inv)
  then have "filter (\<lambda>g. a < ge_GlobalSeq g) (j_globalLog m) = drop (nat a) (j_globalLog m)"
    by (intro seq_filter_drop assms(4)) (simp add: jinv_def log_ok_def)
  with drain_reads [OF inv assms(3,4,2,5)] LoadSince_take [OF assms(3,4,2)] show ?thesis by simp
qed

theorem paging_reads_whole_log_witness:
  "\<exists>page. drain 2 (journal_after sample_ops) 0 1 = Inr page \<and>
     LoadSince (journal_after sample_ops) 0 1 = Inr (take 1 page)"
  using paging_reads_whole_log [OF refl, of sample_ops 1 0 2]
  by (simp add: sample_loglen in_i64_def min_i64_def max_i64_def)

text \<open>
  C7. Parsing inverts printing of event kinds: a label parses to a kind exactly when the kind is
  valid and the label is its own.
\<close>

theorem event_kind_roundtrip:
  "ParseEventKind s = Some k \<longleftrightarrow> EventKind_Valid k \<and> s = EventKind_String k"
  by (cases k) (auto simp: ParseEventKind_def)

end
