(* ===== verification/Exp_Backoff.thy ===== *)
theory Exp_Backoff
  imports Gocell_Prelude
begin

text \<open>
  Exponential backoff: \<^verbatim>\<open>outbox.ExponentialDelay\<close> of \<^verbatim>\<open>framework/kernel/outbox/consumer_base.go\<close>,
  shared by the saga executor and the outbox consumers. The 64-bit multiplication and shift are
  written out with their wrap-around; the theorem is that the guards before them make the result
  the mathematical \<open>min (base * 2 ^ attempt) maxDelay\<close>.
\<close>

text \<open>\<^verbatim>\<open>bits.Len64\<close>: the number of bits of the binary representation.\<close>

fun bits_Len64 :: "nat \<Rightarrow> nat" where
  "bits_Len64 n = (if n = 0 then 0 else Suc (bits_Len64 (n div 2)))"

declare bits_Len64.simps [simp del]

definition exponentialDelayBase :: int where
  "exponentialDelayBase = 1"

definition ExponentialDelay :: "duration \<Rightarrow> duration \<Rightarrow> int \<Rightarrow> duration" where
  "ExponentialDelay base maxDelay attempt =
     (if base \<le> 0 then 0
      else if attempt < 0 then 0
      else let maxSafeShift = 63 - int (bits_Len64 (nat base)) in
        if attempt > maxSafeShift then maxDelay
        else let delay = i64 (base * i64 (exponentialDelayBase * 2 ^ nat attempt)) in
          if delay \<le> 0 \<or> delay > maxDelay then maxDelay else delay)"

lemma bits_Len64_0 [simp]: "bits_Len64 0 = 0"
  by (simp add: bits_Len64.simps)

lemma bits_Len64_bounds: "0 < n \<Longrightarrow> 2 ^ (bits_Len64 n - 1) \<le> n \<and> n < 2 ^ bits_Len64 n \<and> 0 < bits_Len64 n"
proof (induction n rule: bits_Len64.induct)
  case (1 n)
  show ?case
  proof (cases "n div 2 = 0")
    case True
    with 1(2) have "n = 1" by simp
    then show ?thesis by (simp add: bits_Len64.simps)
  next
    case False
    with 1 have ih: "2 ^ (bits_Len64 (n div 2) - 1) \<le> n div 2" "n div 2 < 2 ^ bits_Len64 (n div 2)"
      "0 < bits_Len64 (n div 2)" by auto
    from ih(3) obtain k where k: "bits_Len64 (n div 2) = Suc k" by (cases "bits_Len64 (n div 2)") auto
    from ih k have "2 ^ k \<le> n div 2" "n div 2 < 2 * 2 ^ k" by simp_all
    then have "2 * 2 ^ k \<le> n" "n < 4 * 2 ^ k" by linarith+
    with k 1(2) show ?thesis by (simp add: bits_Len64.simps [of n])
  qed
qed

lemma ExponentialDelay_min:
  assumes base: "0 < base" "in_i64 base" and "0 \<le> maxDelay" "in_i64 maxDelay" and "0 \<le> attempt"
  shows "ExponentialDelay base maxDelay attempt = min (base * 2 ^ nat attempt) maxDelay"
proof -
  let ?len = "bits_Len64 (nat base)"
  have len: "2 ^ (?len - 1) \<le> nat base" "nat base < 2 ^ ?len" "0 < ?len"
    using bits_Len64_bounds [of "nat base"] base(1) by auto
  have lo: "2 ^ (?len - 1) \<le> base" and hi: "base < 2 ^ ?len"
    using len base(1) by (simp_all add: le_nat_iff nat_less_iff)
  show ?thesis
  proof (cases "attempt > 63 - int ?len")
    case True
    then have "63 \<le> (?len - 1) + nat attempt" using len(3) assms(5) by linarith
    then have "(2::int) ^ 63 \<le> 2 ^ ((?len - 1) + nat attempt)" by (intro power_increasing) auto
    also have "\<dots> \<le> base * 2 ^ nat attempt"
      using lo by (simp add: power_add)
    finally have "maxDelay \<le> base * 2 ^ nat attempt"
      using assms(4) by (simp add: in_i64_def max_i64_def)
    with True base(1) assms(5) show ?thesis by (simp add: ExponentialDelay_def min_def)
  next
    case False
    then have "?len + nat attempt \<le> 63" using assms(5) by linarith
    have "base * 2 ^ nat attempt < 2 ^ ?len * 2 ^ nat attempt" using hi by simp
    also have "\<dots> = 2 ^ (?len + nat attempt)" by (simp add: power_add)
    also have "\<dots> \<le> (2::int) ^ 63" using \<open>?len + nat attempt \<le> 63\<close> by (intro power_increasing) auto
    finally have fits: "base * 2 ^ nat attempt < 2 ^ 63" .
    have pos: "0 < base * 2 ^ nat attempt" using base(1) by simp
    have "(2::int) ^ nat attempt \<le> base * 2 ^ nat attempt" using base(1) by simp
    with fits have "(2::int) ^ nat attempt < 2 ^ 63" by linarith
    then have "in_i64 (2 ^ nat attempt)"
      by (simp add: in_i64_def min_i64_def max_i64_def order_trans [of _ 0])
    moreover have "in_i64 (base * 2 ^ nat attempt)" using fits pos
      by (simp add: in_i64_def min_i64_def max_i64_def)
    moreover have "\<not> base * 2 ^ nat attempt \<le> 0" using pos by linarith
    ultimately show ?thesis
      using False base(1) assms(5)
      by (simp add: ExponentialDelay_def exponentialDelayBase_def Let_def min_def)
  qed
qed

end
