(* ===== verification/Saga_Executor.thy ===== *)
theory Saga_Executor
  imports Saga_Core Exp_Backoff
begin

text \<open>
  The step executor of \<^verbatim>\<open>framework/runtime/saga/executor\<close>: retry policy (\<^verbatim>\<open>retry_policy.go\<close>), the
  heartbeat loop (\<^verbatim>\<open>heartbeat.go\<close>) and the attempt loop (\<^verbatim>\<open>executor.go\<close>).

  The code runs a heartbeat goroutine beside the step and lets a timer, the parent context and the
  heartbeat cancel the run. What these goroutines do while a step or a backoff runs is a list of
  events, in the order in which they take effect; the model is total for every such list, so the
  theorems hold for every interleaving. The lease store behind the \<^verbatim>\<open>Heartbeater\<close> interface is a
  state \<open>'s\<close> with a function argument \<open>hb\<close>, and a step's \<^verbatim>\<open>Run\<close> answers each attempt with what
  it returned and the events that happened meanwhile. Logging, tracing and observer calls have no
  effect on the result and are left out, except that heartbeat failures are recorded.
\<close>

section \<open>Definitions\<close>

subsection \<open>Retry policy (retry\_policy.go)\<close>

definition DefaultMaxAttempts :: int where "DefaultMaxAttempts = 1"
definition DefaultBaseInterval :: duration where "DefaultBaseInterval = 100 * millisecond"
definition DefaultMaxInterval :: duration where "DefaultMaxInterval = 30 * second"
definition jitterDivisor :: int where "jitterDivisor = 5"

record resolved_policy =
  pol_maxAttempts :: int
  pol_base :: duration
  pol_max :: duration

definition resolvePolicy :: "retry_policy \<Rightarrow> retry_policy \<Rightarrow> resolved_policy" where
  "resolvePolicy step def =
     \<lparr>pol_maxAttempts =
        (if rp_MaxAttempts step \<noteq> 0 then rp_MaxAttempts step
         else if rp_MaxAttempts def \<noteq> 0 then rp_MaxAttempts def else DefaultMaxAttempts),
      pol_base =
        (if rp_BaseInterval step \<noteq> 0 then rp_BaseInterval step
         else if rp_BaseInterval def \<noteq> 0 then rp_BaseInterval def else DefaultBaseInterval),
      pol_max =
        (if rp_MaxInterval step \<noteq> 0 then rp_MaxInterval step
         else if rp_MaxInterval def \<noteq> 0 then rp_MaxInterval def else DefaultMaxInterval)\<rparr>"

definition ShouldRetry :: "resolved_policy \<Rightarrow> int \<Rightarrow> bool" where
  "ShouldRetry p attempt \<longleftrightarrow> attempt < pol_maxAttempts p"

text \<open>The argument \<open>int64N\<close> is the draw of the jitter source, \<^verbatim>\<open>rand.Int64N\<close>.\<close>

definition Backoff :: "resolved_policy \<Rightarrow> int \<Rightarrow> (int \<Rightarrow> int) \<Rightarrow> duration" where
  "Backoff p attempt int64N =
     (let d = ExponentialDelay (pol_base p) (pol_max p) attempt in
      if d \<le> 0 then 0
      else let lower = i64 (d - go_div d jitterDivisor) in
        i64 (lower + int64N (i64 (go_div d jitterDivisor + 1))))"

subsection \<open>Outcomes (executor.go)\<close>

datatype outcome =
    OutcomeSucceeded | OutcomeFailed | OutcomeExpired | OutcomeCanceled | OutcomeLeaseLost
  | OutcomeOther nat

fun Outcome_String :: "outcome \<Rightarrow> string" where
  "Outcome_String OutcomeSucceeded = ''Succeeded''"
| "Outcome_String OutcomeFailed = ''Failed''"
| "Outcome_String OutcomeExpired = ''Expired''"
| "Outcome_String OutcomeCanceled = ''Canceled''"
| "Outcome_String OutcomeLeaseLost = ''LeaseLost''"
| "Outcome_String (OutcomeOther n) = ''Outcome('' @ show_nat n @ '')''"

definition errLeaseLost :: goerr where
  "errLeaseLost = ErrorsNew ''saga executor: lease lost''"

definition errStepTimeout :: goerr where
  "errStepTimeout = ErrorsNew ''saga executor: step timeout elapsed''"

definition IsLeaseLost :: "goerr option \<Rightarrow> bool" where
  "IsLeaseLost err = (case err of None \<Rightarrow> False | Some e \<Rightarrow> errors_Is e errLeaseLost)"

record exec_result =
  er_Outcome :: outcome
  er_NewState :: bytes
  er_Err :: "goerr option"
  er_Attempts :: int

definition DefaultHeartbeatInterval :: duration where "DefaultHeartbeatInterval = 10 * second"
definition DefaultLeaseDuration :: duration where "DefaultLeaseDuration = 30 * second"
definition HeartbeatLeaseSafetyFactor :: int where "HeartbeatLeaseSafetyFactor = 2"

definition validateIntervals :: "duration \<Rightarrow> duration \<Rightarrow> unit res" where
  "validateIntervals heartbeatInterval leaseDuration =
     (if heartbeatInterval \<le> 0
        then Inl (invalid ''runtime/saga/executor: heartbeatInterval must be > 0'')
      else if leaseDuration \<le> 0
        then Inl (invalid ''runtime/saga/executor: leaseDuration must be > 0'')
      else if i64 (heartbeatInterval * HeartbeatLeaseSafetyFactor) \<ge> leaseDuration
        then Inl (invalid ''runtime/saga/executor: heartbeatInterval*2 must be < leaseDuration'')
      else Inr ())"

subsection \<open>Contexts and events\<close>

text \<open>
  The run context and the per-attempt step context with their cancel causes (the first cause wins,
  and canceling the run context cancels the step context), whether the heartbeat goroutine is still
  running, and the lease store.
\<close>

datatype hb_failure = HeartbeatFailureStaleLease | HeartbeatFailureInfraError

record 's exec_ctx =
  xc_run_cause :: "goerr option"
  xc_step_cause :: "goerr option"
  xc_hb_live :: bool
  xc_hb :: 's
  xc_hb_failures :: "hb_failure list"

datatype exec_event =
    EvTick instant
  | EvHbPanic
  | EvParentDone bool
  | EvStepTimeout

definition cancel_run :: "goerr \<Rightarrow> 's exec_ctx \<Rightarrow> 's exec_ctx" where
  "cancel_run cause c =
     (if xc_run_cause c \<noteq> None then c
      else c\<lparr>xc_run_cause := Some cause,
             xc_step_cause := (if xc_step_cause c = None then Some cause else xc_step_cause c)\<rparr>)"

type_synonym 's heartbeater = "instant \<Rightarrow> 's \<Rightarrow> 's \<times> bool res"

definition heartbeat_tick :: "'s heartbeater \<Rightarrow> instant \<Rightarrow> 's exec_ctx \<Rightarrow> 's exec_ctx" where
  "heartbeat_tick hb now c =
     (if \<not> xc_hb_live c then c
      else case hb now (xc_hb c) of
        (s, Inl err) \<Rightarrow> c\<lparr>xc_hb := s, xc_hb_failures := xc_hb_failures c @ [HeartbeatFailureInfraError]\<rparr>
      | (s, Inr True) \<Rightarrow> c\<lparr>xc_hb := s\<rparr>
      | (s, Inr False) \<Rightarrow>
          (let c = cancel_run errLeaseLost (c\<lparr>xc_hb := s\<rparr>) in
           c\<lparr>xc_hb_failures := xc_hb_failures c @ [HeartbeatFailureStaleLease], xc_hb_live := False\<rparr>))"

fun on_event :: "'s heartbeater \<Rightarrow> duration \<Rightarrow> 's exec_ctx \<Rightarrow> exec_event \<Rightarrow> 's exec_ctx" where
  "on_event hb timeout c (EvTick now) = heartbeat_tick hb now c"
| "on_event hb timeout c EvHbPanic =
     (if xc_hb_live c then (cancel_run errLeaseLost c)\<lparr>xc_hb_live := False\<rparr> else c)"
| "on_event hb timeout c (EvParentDone deadline) =
     cancel_run (if deadline then CtxDeadlineExceeded else CtxCanceled) c"
| "on_event hb timeout c EvStepTimeout =
     (if 0 < timeout \<and> xc_step_cause c = None then c\<lparr>xc_step_cause := Some errStepTimeout\<rparr> else c)"

definition on_events :: "'s heartbeater \<Rightarrow> duration \<Rightarrow> exec_event list \<Rightarrow> 's exec_ctx \<Rightarrow> 's exec_ctx" where
  "on_events hb timeout evs c = foldl (on_event hb timeout) c evs"

definition ctx_Err :: "goerr option \<Rightarrow> goerr option" where
  "ctx_Err cause =
     (case cause of None \<Rightarrow> None
      | Some e \<Rightarrow> Some (if e = CtxDeadlineExceeded then CtxDeadlineExceeded else CtxCanceled))"

subsection \<open>Attempts (executor.go)\<close>

datatype run_result = RunReturned bytes "goerr option" | RunPanicked

record attempt_env =
  at_events :: "exec_event list"
  at_result :: run_result
  at_int64N :: "int \<Rightarrow> int"
  at_sleep_events :: "exec_event list"
  at_slept :: bool

type_synonym run_fn = "saga_instance \<Rightarrow> bytes \<Rightarrow> int \<Rightarrow> attempt_env"

definition safeRun :: "run_result \<Rightarrow> bytes \<times> goerr option" where
  "safeRun r =
     (case r of
        RunReturned newState err \<Rightarrow> (newState, err)
      | RunPanicked \<Rightarrow>
          ([], Some (Errcode KindInternal ErrInternal ''runtime/saga/executor: step Run panicked'')))"

definition classifyCanceled :: "goerr option \<Rightarrow> goerr option \<Rightarrow> int \<Rightarrow> exec_result" where
  "classifyCanceled cause observedErr attempt =
     (if (case cause of None \<Rightarrow> False | Some e \<Rightarrow> errors_Is e errLeaseLost) then
        \<lparr>er_Outcome = OutcomeLeaseLost, er_NewState = [], er_Err = Some errLeaseLost,
         er_Attempts = attempt\<rparr>
      else if (case cause of None \<Rightarrow> False | Some e \<Rightarrow> errors_Is e CtxDeadlineExceeded) then
        \<lparr>er_Outcome = OutcomeExpired, er_NewState = [], er_Err = observedErr, er_Attempts = attempt\<rparr>
      else
        \<lparr>er_Outcome = OutcomeCanceled, er_NewState = [], er_Err = observedErr,
         er_Attempts = attempt\<rparr>)"

definition buildStepCtx :: "'s exec_ctx \<Rightarrow> 's exec_ctx" where
  "buildStepCtx c = c\<lparr>xc_step_cause := xc_run_cause c\<rparr>"

text \<open>\<open>None\<close> is the \<^verbatim>\<open>(Result{}, false)\<close> that asks for a retry.\<close>

definition runAttempt ::
  "'s heartbeater \<Rightarrow> duration \<Rightarrow> resolved_policy \<Rightarrow> attempt_env \<Rightarrow> int \<Rightarrow> 's exec_ctx \<Rightarrow>
   exec_result option \<times> 's exec_ctx" where
  "runAttempt hb timeout policy env attempt c =
     (let c = on_events hb timeout (at_events env) (buildStepCtx c);
          (newState, runErr) = safeRun (at_result env)
      in (if xc_run_cause c \<noteq> None then
            Some (classifyCanceled (xc_run_cause c) (xc_run_cause c) attempt)
          else if xc_step_cause c = Some errStepTimeout then
            Some \<lparr>er_Outcome = OutcomeExpired, er_NewState = [], er_Err = Some errStepTimeout,
                  er_Attempts = attempt\<rparr>
          else if runErr = None then
            Some \<lparr>er_Outcome = OutcomeSucceeded, er_NewState = newState, er_Err = None,
                  er_Attempts = attempt\<rparr>
          else if \<not> ShouldRetry policy attempt then
            Some \<lparr>er_Outcome = OutcomeFailed, er_NewState = [], er_Err = runErr,
                  er_Attempts = attempt\<rparr>
          else None, c))"

text \<open>\<^verbatim>\<open>clk.Sleep(runCtx, now + delay)\<close>: what it returned, given whether the timer fired first.\<close>

definition clk_Sleep :: "duration \<Rightarrow> bool \<Rightarrow> 's exec_ctx \<Rightarrow> goerr option" where
  "clk_Sleep delay slept c =
     (if delay \<le> 0 then ctx_Err (xc_run_cause c)
      else if slept then None else ctx_Err (xc_run_cause c))"

datatype exec_call = CallRun int | CallSleep duration

lemma runAttempt_retry:
  "runAttempt hb timeout policy env attempt c = (None, c') \<Longrightarrow> attempt < pol_maxAttempts policy"
  by (auto simp: runAttempt_def Let_def ShouldRetry_def split: prod.splits if_splits)

function attempt_loop ::
  "'s heartbeater \<Rightarrow> duration \<Rightarrow> resolved_policy \<Rightarrow> (int \<Rightarrow> attempt_env) \<Rightarrow> int \<Rightarrow> 's exec_ctx \<Rightarrow>
   exec_result \<times> 's exec_ctx \<times> exec_call list" where
  "attempt_loop hb timeout policy env attempt c =
     (case runAttempt hb timeout policy (env attempt) attempt c of
        (Some result, c) \<Rightarrow> (result, c, [CallRun attempt])
      | (None, c) \<Rightarrow>
          let delay = Backoff policy (attempt - 1) (at_int64N (env attempt));
              c = on_events hb 0 (at_sleep_events (env attempt)) c
          in (case clk_Sleep delay (at_slept (env attempt)) c of
               Some sleepErr \<Rightarrow>
                 (classifyCanceled (xc_run_cause c) (Some sleepErr) attempt, c,
                  [CallRun attempt, CallSleep delay])
             | None \<Rightarrow>
                 let (result, c, calls) = attempt_loop hb timeout policy env (attempt + 1) c
                 in (result, c, CallRun attempt # CallSleep delay # calls)))"
  by auto

termination
  by (relation "measure (\<lambda>(hb, timeout, policy, env, attempt, c). nat (pol_maxAttempts policy - attempt))")
    (auto dest!: runAttempt_retry [OF sym])

declare attempt_loop.simps [simp del]

definition start_ctx :: "goerr option \<Rightarrow> 's \<Rightarrow> hb_failure list \<Rightarrow> 's exec_ctx" where
  "start_ctx parent s fails =
     \<lparr>xc_run_cause = parent, xc_step_cause = parent, xc_hb_live = True, xc_hb = s,
      xc_hb_failures = fails\<rparr>"

definition nil_run :: attempt_env where
  "nil_run = \<lparr>at_events = [], at_result = RunPanicked, at_int64N = (\<lambda>_. 0), at_sleep_events = [],
     at_slept = True\<rparr>"

definition executeInner ::
  "'s heartbeater \<Rightarrow> instant \<Rightarrow> goerr option \<Rightarrow> 's \<Rightarrow> saga_instance \<Rightarrow> (run_fn, 'comp) saga_step \<Rightarrow>
   retry_policy \<Rightarrow> bytes \<Rightarrow> exec_result \<times> 's exec_ctx \<times> exec_call list" where
  "executeInner hb now parent s inst step defPolicy prevState =
     (let (s, pre) = hb now s;
          fails = (case pre of Inl _ \<Rightarrow> [HeartbeatFailureInfraError]
                   | Inr ok \<Rightarrow> if ok then [] else [HeartbeatFailureStaleLease])
      in if pre = Inr False then
           (\<lparr>er_Outcome = OutcomeLeaseLost, er_NewState = [], er_Err = Some errLeaseLost,
             er_Attempts = 0\<rparr>, start_ctx parent s fails, [])
         else
           attempt_loop hb (step_Timeout step) (resolvePolicy (step_RetryPolicy step) defPolicy)
             (case step_Run step of None \<Rightarrow> (\<lambda>_. nil_run) | Some run \<Rightarrow> run inst prevState)
             1 (start_ctx parent s fails))"

definition Execute ::
  "'s heartbeater \<Rightarrow> instant \<Rightarrow> goerr option \<Rightarrow> 's \<Rightarrow> saga_instance \<Rightarrow> (run_fn, 'comp) saga_step \<Rightarrow>
   retry_policy \<Rightarrow> bytes \<Rightarrow> exec_result" where
  "Execute hb now parent s inst step defPolicy prevState =
     fst (executeInner hb now parent s inst step defPolicy prevState)"

subsection \<open>Running compensation under a heartbeat (executor.go)\<close>

text \<open>The precedence of the last lines of \<^verbatim>\<open>RunWithHeartbeat\<close>.\<close>

definition heartbeat_verdict :: "goerr option \<Rightarrow> goerr option \<Rightarrow> goerr option" where
  "heartbeat_verdict fnErr cause =
     (if (case fnErr of None \<Rightarrow> True
          | Some e \<Rightarrow> errors_Is e CtxCanceled \<or> errors_Is e CtxDeadlineExceeded)
         \<and> IsLeaseLost cause
      then Some errLeaseLost else fnErr)"

definition RunWithHeartbeat ::
  "'s heartbeater \<Rightarrow> instant \<Rightarrow> goerr option \<Rightarrow> 's \<Rightarrow>
   ('s exec_ctx \<Rightarrow> 's exec_ctx \<times> goerr option) \<Rightarrow> 's exec_ctx \<times> goerr option" where
  "RunWithHeartbeat hb now parent s fn =
     (let (s, pre) = hb now s;
          fails = (case pre of Inl _ \<Rightarrow> [HeartbeatFailureInfraError]
                   | Inr ok \<Rightarrow> if ok then [] else [HeartbeatFailureStaleLease])
      in if pre = Inr False then (start_ctx parent s fails, Some errLeaseLost)
         else let (c, fnErr) = fn (start_ctx parent s fails)
              in (c, heartbeat_verdict fnErr (xc_run_cause c)))"

datatype comp_result = CompReturned "goerr option" | CompPanicked

type_synonym comp_fn = "saga_instance \<Rightarrow> bytes \<Rightarrow> comp_result"

definition safeRunCompensate :: "comp_result \<Rightarrow> goerr option" where
  "safeRunCompensate r =
     (case r of
        CompReturned err \<Rightarrow> err
      | CompPanicked \<Rightarrow>
          Some (Errcode KindInternal ErrInternal ''runtime/saga/executor: step Compensate panicked''))"

definition Compensate :: "saga_instance \<Rightarrow> ('run, comp_fn) saga_step \<Rightarrow> bytes \<Rightarrow> goerr option" where
  "Compensate inst step committedState =
     (case step_Compensate step of
        None \<Rightarrow> None
      | Some f \<Rightarrow> safeRunCompensate (f inst committedState))"

subsection \<open>Vocabulary of the properties\<close>

definition cause_ok :: "goerr option \<Rightarrow> bool" where
  "cause_ok c \<longleftrightarrow> c \<in> {None, Some errLeaseLost, Some CtxCanceled, Some CtxDeadlineExceeded}"

text \<open>
  What a result says about the attempts from \<open>n\<close> on and the final context: the meaning of the
  outcome constants.
\<close>

definition run_err :: "(int \<Rightarrow> attempt_env) \<Rightarrow> int \<Rightarrow> goerr option" where
  "run_err env k = snd (safeRun (at_result (env k)))"

definition outcome_means :: "resolved_policy \<Rightarrow> (int \<Rightarrow> attempt_env) \<Rightarrow> int \<Rightarrow> exec_result \<Rightarrow> 's exec_ctx \<Rightarrow> bool" where
  "outcome_means p env n r c \<longleftrightarrow>
     (let k = er_Attempts r in
      n \<le> k \<and> k \<le> max n (pol_maxAttempts p) \<and> (\<forall>j. n \<le> j \<and> j < k \<longrightarrow> run_err env j \<noteq> None) \<and>
      (case er_Outcome r of
         OutcomeSucceeded \<Rightarrow> xc_run_cause c = None \<and> safeRun (at_result (env k)) = (er_NewState r, None)
       | OutcomeFailed \<Rightarrow> xc_run_cause c = None \<and> k = max n (pol_maxAttempts p) \<and>
           er_Err r = run_err env k \<and> er_Err r \<noteq> None
       | OutcomeExpired \<Rightarrow> xc_run_cause c = Some CtxDeadlineExceeded \<or>
           xc_run_cause c = None \<and> er_Err r = Some errStepTimeout
       | OutcomeCanceled \<Rightarrow> xc_run_cause c = Some CtxCanceled
       | OutcomeLeaseLost \<Rightarrow> xc_run_cause c = Some errLeaseLost
       | OutcomeOther _ \<Rightarrow> False))"

text \<open>The calls of the loop: runs \<open>n\<close>, \<open>n + 1\<close>, ... with one backoff between two runs.\<close>

fun calls_ok :: "resolved_policy \<Rightarrow> (int \<Rightarrow> attempt_env) \<Rightarrow> int \<Rightarrow> int \<Rightarrow> exec_call list \<Rightarrow> bool" where
  "calls_ok p env n k (CallRun j # CallSleep d # calls) \<longleftrightarrow>
     j = n \<and> d = Backoff p (n - 1) (at_int64N (env n)) \<and>
     (if calls = [] then k = n else calls_ok p env (n + 1) k calls)"
| "calls_ok p env n k [CallRun j] \<longleftrightarrow> j = n \<and> k = n"
| "calls_ok p env n k _ \<longleftrightarrow> False"

definition sample_run :: run_fn where
  "sample_run inst prev n =
     (if n < 2 then \<lparr>at_events = [EvTick 5], at_result = RunReturned [] (Some (ErrorsNew ''busy'')),
        at_int64N = (\<lambda>_. 0), at_sleep_events = [EvTick 6], at_slept = True\<rparr>
      else \<lparr>at_events = [], at_result = RunReturned ''null'' None, at_int64N = (\<lambda>_. 0),
        at_sleep_events = [], at_slept = True\<rparr>)"

definition sample_step :: "(run_fn, comp_fn) saga_step" where
  "sample_step = \<lparr>step_Name = ''reserve'', step_Run = Some sample_run, step_Compensate = None,
     step_Timeout = 0, step_RetryPolicy = \<lparr>rp_MaxAttempts = 3, rp_BaseInterval = 100, rp_MaxInterval = 0\<rparr>\<rparr>"

definition sample_policy :: retry_policy where
  "sample_policy = \<lparr>rp_MaxAttempts = 0, rp_BaseInterval = 0, rp_MaxInterval = 0\<rparr>"

definition sample_hb :: "nat heartbeater" where
  "sample_hb now n = (Suc n, Inr True)"

definition sample_exec :: "exec_result \<times> nat exec_ctx \<times> exec_call list" where
  "sample_exec = executeInner sample_hb 4 None 0 sample_instance sample_step sample_policy []"

section \<open>Lemmas\<close>

subsection \<open>Backoff\<close>

lemma Backoff_bounds:
  assumes "0 < pol_base p" "in_i64 (pol_base p)" and "0 \<le> pol_max p" "in_i64 (pol_max p)"
    and "0 \<le> attempt" and draw: "\<And>n. 0 < n \<Longrightarrow> 0 \<le> int64N n \<and> int64N n < n"
    and d: "d = min (pol_base p * 2 ^ nat attempt) (pol_max p)"
  shows "d - d div 5 \<le> Backoff p attempt int64N \<and> Backoff p attempt int64N \<le> d"
proof -
  have E: "ExponentialDelay (pol_base p) (pol_max p) attempt = d"
    unfolding d by (rule ExponentialDelay_min) (use assms in auto)
  have pos: "0 \<le> d" using assms(1,3) d by simp
  have max: "d \<le> max_i64" using assms(4) d by (simp add: in_i64_def min_def)
  show ?thesis
  proof (cases "d \<le> 0")
    case True
    with pos E show ?thesis by (simp add: Backoff_def)
  next
    case False
    have div: "go_div d jitterDivisor = d div 5" using pos by (simp add: go_div_nonneg jitterDivisor_def)
    have q: "0 \<le> d div 5" "d div 5 \<le> d" using pos by auto
    have w1: "i64 (d div 5 + 1) = d div 5 + 1" and w2: "i64 (d - d div 5) = d - d div 5"
      using q max pos False by (auto intro!: i64_id simp: in_i64_def min_i64_def max_i64_def)
    have r: "0 \<le> int64N (d div 5 + 1)" "int64N (d div 5 + 1) \<le> d div 5"
      using draw [of "d div 5 + 1"] q by auto
    have w3: "i64 (d - d div 5 + int64N (d div 5 + 1)) = d - d div 5 + int64N (d div 5 + 1)"
      using q r max pos by (intro i64_id) (auto simp: in_i64_def min_i64_def max_i64_def)
    from False E div w1 w2 w3 r show ?thesis by (simp add: Backoff_def Let_def)
  qed
qed

subsection \<open>Causes\<close>

lemma cancel_run_cause:
  "xc_run_cause (cancel_run e c) = (if xc_run_cause c = None then Some e else xc_run_cause c)"
  by (simp add: cancel_run_def)

lemma heartbeat_tick_cause:
  "xc_run_cause (heartbeat_tick hb now c) = xc_run_cause c \<or>
   xc_run_cause (heartbeat_tick hb now c) = Some errLeaseLost"
  by (auto simp: heartbeat_tick_def Let_def cancel_run_cause split: prod.split sum.split bool.split)

lemma cause_ok_on_event: "cause_ok (xc_run_cause c) \<Longrightarrow> cause_ok (xc_run_cause (on_event hb t c ev))"
proof (cases ev)
  case (EvTick now)
  assume "cause_ok (xc_run_cause c)"
  with EvTick heartbeat_tick_cause [of hb now c] show ?thesis by (auto simp: cause_ok_def)
qed (auto simp: cause_ok_def cancel_run_cause)

lemma cause_ok_on_events: "cause_ok (xc_run_cause c) \<Longrightarrow> cause_ok (xc_run_cause (on_events hb t evs c))"
  unfolding on_events_def by (induction evs arbitrary: c) (auto intro: cause_ok_on_event)

lemma runAttempt_ctx:
  "runAttempt hb t p env n c = (ro, c') \<Longrightarrow> c' = on_events hb t (at_events env) (buildStepCtx c)"
  by (auto simp: runAttempt_def Let_def split: prod.splits)

lemma classify_ok:
  assumes "cause_ok cause" and "cause \<noteq> None"
  shows "er_Outcome (classifyCanceled cause err n) =
      (if cause = Some errLeaseLost then OutcomeLeaseLost
       else if cause = Some CtxDeadlineExceeded then OutcomeExpired else OutcomeCanceled) \<and>
    er_Attempts (classifyCanceled cause err n) = n"
  using assms by (auto simp: classifyCanceled_def cause_ok_def errLeaseLost_def)

subsection \<open>The attempt loop\<close>

lemma runAttempt_means:
  assumes "runAttempt hb t p (env n) n c = (Some r, c')" and "cause_ok (xc_run_cause c)"
  shows "outcome_means p env n r c'"
proof -
  from runAttempt_ctx [OF assms(1)] assms(2) have ok: "cause_ok (xc_run_cause c')"
    by (simp add: cause_ok_on_events buildStepCtx_def)
  show ?thesis
  proof (cases "xc_run_cause c' = None")
    case True
    with assms(1) show ?thesis
      by (auto simp: runAttempt_def Let_def outcome_means_def run_err_def ShouldRetry_def
          split: prod.splits if_splits)
  next
    case False
    with assms(1) have "r = classifyCanceled (xc_run_cause c') (xc_run_cause c') n"
      by (auto simp: runAttempt_def Let_def split: prod.splits if_splits)
    with classify_ok [OF ok False] ok False show ?thesis
      by (auto simp: outcome_means_def cause_ok_def errLeaseLost_def)
  qed
qed

lemma runAttempt_failed:
  "runAttempt hb t p (env n) n c = (None, c') \<Longrightarrow> run_err env n \<noteq> None \<and> n < pol_maxAttempts p"
  by (auto simp: runAttempt_def Let_def run_err_def ShouldRetry_def split: prod.splits if_splits)

lemma attempt_loop_means:
  "attempt_loop hb t p env n c = (r, c', calls) \<Longrightarrow> cause_ok (xc_run_cause c) \<Longrightarrow> outcome_means p env n r c'"
proof (induction hb t p env n c arbitrary: r c' calls rule: attempt_loop.induct)
  case (1 hb t p env n c)
  obtain ro c1 where ra: "runAttempt hb t p (env n) n c = (ro, c1)" by (cases "runAttempt hb t p (env n) n c")
  show ?case
  proof (cases ro)
    case (Some r0)
    with ra 1(2) have "r = r0" "c' = c1" by (simp_all add: attempt_loop.simps [of hb t p env n c])
    with runAttempt_means [of hb t p env n c] ra Some 1(3) show ?thesis by simp
  next
    case None
    let ?d = "Backoff p (n - 1) (at_int64N (env n))"
    define c2 where "c2 = on_events hb 0 (at_sleep_events (env n)) c1"
    from ra None have fail: "run_err env n \<noteq> None" "n < pol_maxAttempts p"
      using runAttempt_failed [of hb t p env n c c1] by auto
    have ok2: "cause_ok (xc_run_cause c2)"
      using runAttempt_ctx [OF ra] 1(3) by (simp add: c2_def cause_ok_on_events buildStepCtx_def)
    show ?thesis
    proof (cases "clk_Sleep ?d (at_slept (env n)) c2")
      case (Some e)
      then have ne: "xc_run_cause c2 \<noteq> None" by (auto simp: clk_Sleep_def ctx_Err_def split: if_splits option.splits)
      from Some ra None 1(2) have "r = classifyCanceled (xc_run_cause c2) (Some e) n" "c' = c2"
        by (auto simp: attempt_loop.simps [of hb t p env n c] c2_def Let_def)
      with classify_ok [OF ok2 ne] ok2 ne fail show ?thesis
        by (auto simp: outcome_means_def cause_ok_def errLeaseLost_def)
    next
      case None2: None
      obtain r3 c3 calls3 where rec: "attempt_loop hb t p env (n + 1) c2 = (r3, c3, calls3)"
        by (metis prod_cases3)
      with None2 ra None 1(2) have eq: "r = r3" "c' = c3"
        by (simp_all add: attempt_loop.simps [of hb t p env n c] c2_def Let_def)
      have "outcome_means p env (n + 1) r3 c3"
        by (rule "1.IH" [OF ra [symmetric, unfolded None] refl refl refl None2 [unfolded c2_def] rec [unfolded c2_def] ok2 [unfolded c2_def]])
      then show ?thesis unfolding eq outcome_means_def Let_def
        using fail by (auto split: outcome.splits) (metis add1_zle_eq order_le_less)+
    qed
  qed
qed

lemma attempt_loop_calls:
  "attempt_loop hb t p env n c = (r, c', calls) \<Longrightarrow> cause_ok (xc_run_cause c) \<Longrightarrow> calls_ok p env n (er_Attempts r) calls"
proof (induction hb t p env n c arbitrary: r c' calls rule: attempt_loop.induct)
  case (1 hb t p env n c)
  obtain ro c1 where ra: "runAttempt hb t p (env n) n c = (ro, c1)" by (cases "runAttempt hb t p (env n) n c")
  show ?case
  proof (cases ro)
    case (Some r0)
    with ra have "attempt_loop hb t p env n c = (r0, c1, [CallRun n])"
      by (simp add: attempt_loop.simps [of hb t p env n c])
    with 1(2) have eq: "r = r0" "calls = [CallRun n]" by simp_all
    from ra Some have "er_Attempts r0 = n"
      by (auto simp: runAttempt_def Let_def classifyCanceled_def split: prod.splits if_splits)
    with eq show ?thesis by simp
  next
    case None
    let ?d = "Backoff p (n - 1) (at_int64N (env n))"
    define c2 where "c2 = on_events hb 0 (at_sleep_events (env n)) c1"
    have ok2: "cause_ok (xc_run_cause c2)"
      using runAttempt_ctx [OF ra] 1(3) by (simp add: c2_def cause_ok_on_events buildStepCtx_def)
    show ?thesis
    proof (cases "clk_Sleep ?d (at_slept (env n)) c2")
      case (Some e)
      with ra None 1(2) show ?thesis
        by (auto simp: attempt_loop.simps [of hb t p env n c] c2_def Let_def classifyCanceled_def)
    next
      case None2: None
      obtain r3 c3 calls3 where rec: "attempt_loop hb t p env (n + 1) c2 = (r3, c3, calls3)"
        by (metis prod_cases3)
      have ih: "calls_ok p env (n + 1) (er_Attempts r3) calls3"
        by (rule "1.IH" [OF ra [symmetric, unfolded None] refl refl refl None2 [unfolded c2_def] rec [unfolded c2_def] ok2 [unfolded c2_def]])
      then have "calls3 \<noteq> []" by auto
      with ih rec None2 ra None 1(2) show ?thesis
        by (auto simp: attempt_loop.simps [of hb t p env n c] c2_def Let_def)
    qed
  qed
qed

lemma executeInner_cases:
  assumes "executeInner hb now parent s inst step pol prev = (r, c, calls)"
  shows "(snd (hb now s) = Inr False \<and> er_Outcome r = OutcomeLeaseLost \<and> er_Attempts r = 0 \<and> calls = []) \<or>
    (snd (hb now s) \<noteq> Inr False \<and>
     attempt_loop hb (step_Timeout step) (resolvePolicy (step_RetryPolicy step) pol)
       (case step_Run step of None \<Rightarrow> (\<lambda>_. nil_run) | Some run \<Rightarrow> run inst prev) 1
       (start_ctx parent (fst (hb now s))
          (case snd (hb now s) of Inl _ \<Rightarrow> [HeartbeatFailureInfraError] | Inr ok \<Rightarrow> if ok then [] else [HeartbeatFailureStaleLease]))
     = (r, c, calls))"
proof (cases "snd (hb now s) = Inr False")
  case True
  with assms show ?thesis by (auto simp: executeInner_def Let_def case_prod_beta)
next
  case False
  with assms show ?thesis by (simp add: executeInner_def Let_def case_prod_beta)
qed

subsection \<open>Properties\<close>

text \<open>
  The retry backoff is the capped exponential with bounded jitter: for every attempt it lies
  between four fifths of \<open>min (base * 2 ^ attempt) max\<close> and that delay, whatever the jitter source
  draws, with no overflow of the 64-bit durations.
\<close>

lemma backoff_within_jitter_window:
  assumes "0 < pol_base p" "in_i64 (pol_base p)" and "0 \<le> pol_max p" "in_i64 (pol_max p)"
    and "0 \<le> attempt" and "\<And>n. 0 < n \<Longrightarrow> 0 \<le> int64N n \<and> int64N n < n"
  shows "4 * min (pol_base p * 2 ^ nat attempt) (pol_max p) \<le> 5 * Backoff p attempt int64N \<and>
    Backoff p attempt int64N \<le> min (pol_base p * 2 ^ nat attempt) (pol_max p)"
  using Backoff_bounds [OF assms refl] by linarith

text \<open>
  C22. A step runs within its retry budget: a stale lease seen before the first run means no run at
  all, otherwise the runs are numbered 1, 2, ... up to the reported number of attempts, which is at
  most the resolved maximum (and at least one), with one backoff between two runs.
\<close>

theorem execute_within_retry_budget:
  assumes "executeInner hb now parent s inst step pol prev = (r, c, calls)" and "cause_ok parent"
    and "p = resolvePolicy (step_RetryPolicy step) pol"
    and "env = (case step_Run step of None \<Rightarrow> (\<lambda>_. nil_run) | Some run \<Rightarrow> run inst prev)"
  shows "if snd (hb now s) = Inr False then calls = [] \<and> er_Attempts r = 0
    else 1 \<le> er_Attempts r \<and> er_Attempts r \<le> max 1 (pol_maxAttempts p) \<and>
      calls_ok p env 1 (er_Attempts r) calls"
proof (cases "snd (hb now s) = Inr False")
  case True
  with executeInner_cases [OF assms(1)] show ?thesis by auto
next
  case False
  with executeInner_cases [OF assms(1)] obtain c0 where
    loop: "attempt_loop hb (step_Timeout step) p env 1 c0 = (r, c, calls)" and "xc_run_cause c0 = parent"
    unfolding assms(3,4) by (fastforce simp: start_ctx_def)
  with assms(2) have "cause_ok (xc_run_cause c0)" by simp
  from attempt_loop_means [OF loop this] attempt_loop_calls [OF loop this] False show ?thesis
    by (simp add: outcome_means_def Let_def)
qed

text \<open>
  C21. The outcome is sound: \<open>Succeeded\<close> means the last run returned no error, all earlier ones
  failed, and the run was not canceled (so a lease that was seen lost is never reported as success);
  \<open>Failed\<close> means every attempt of the budget failed; \<open>LeaseLost\<close>, \<open>Canceled\<close> and \<open>Expired\<close> name the
  first reason for which the run was canceled, or the step timeout.
\<close>

theorem execute_outcome_sound:
  assumes "executeInner hb now parent s inst step pol prev = (r, c, calls)" and "cause_ok parent"
    and "snd (hb now s) \<noteq> Inr False"
  shows "outcome_means (resolvePolicy (step_RetryPolicy step) pol)
    (case step_Run step of None \<Rightarrow> (\<lambda>_. nil_run) | Some run \<Rightarrow> run inst prev) 1 r c"
proof -
  from executeInner_cases [OF assms(1)] assms(3) obtain c0 where
    loop: "attempt_loop hb (step_Timeout step) (resolvePolicy (step_RetryPolicy step) pol)
      (case step_Run step of None \<Rightarrow> (\<lambda>_. nil_run) | Some run \<Rightarrow> run inst prev) 1 c0 = (r, c, calls)"
    and "xc_run_cause c0 = parent"
    by (fastforce simp: start_ctx_def)
  with assms(2) show ?thesis by (intro attempt_loop_means) auto
qed

lemma sample_backoff:
  "Backoff (resolvePolicy (step_RetryPolicy sample_step) sample_policy) 0 (\<lambda>_. 0) = 80"
  by code_simp

lemma sample_exec_eq:
  "sample_exec =
     (\<lparr>er_Outcome = OutcomeSucceeded, er_NewState = ''null'', er_Err = None, er_Attempts = 2\<rparr>,
      \<lparr>xc_run_cause = None, xc_step_cause = None, xc_hb_live = True, xc_hb = 3, xc_hb_failures = []\<rparr>,
      [CallRun 1, CallSleep 80, CallRun 2])"
proof -
  let ?p = "resolvePolicy (step_RetryPolicy sample_step) sample_policy"
  let ?c = "\<lambda>n. \<lparr>xc_run_cause = None, xc_step_cause = None, xc_hb_live = True, xc_hb = n, xc_hb_failures = []\<rparr>"
  let ?run = "sample_run sample_instance []"
  note defs = runAttempt_def on_events_def buildStepCtx_def heartbeat_tick_def sample_hb_def
    sample_run_def safeRun_def ShouldRetry_def
  have r2: "attempt_loop sample_hb 0 ?p ?run 2 (?c 3) =
      (\<lparr>er_Outcome = OutcomeSucceeded, er_NewState = ''null'', er_Err = None, er_Attempts = 2\<rparr>, ?c 3, [CallRun 2])"
    by (subst attempt_loop.simps) (simp add: defs)
  have "runAttempt sample_hb 0 ?p (?run 1) 1 (?c 1) = (None, ?c 2)"
    by (simp add: defs resolvePolicy_def sample_step_def)
  moreover have "on_events sample_hb 0 [EvTick 6] (?c 2) = ?c 3"
    by (simp add: defs)
  ultimately have "attempt_loop sample_hb 0 ?p ?run 1 (?c 1) =
      (\<lparr>er_Outcome = OutcomeSucceeded, er_NewState = ''null'', er_Err = None, er_Attempts = 2\<rparr>, ?c 3,
       [CallRun 1, CallSleep 80, CallRun 2])"
    using r2 sample_backoff
    by (subst attempt_loop.simps) (simp add: sample_run_def Let_def clk_Sleep_def)
  then show ?thesis
    by (simp add: sample_exec_def executeInner_def sample_hb_def start_ctx_def sample_step_def)
qed

theorem execute_within_retry_budget_witness:
  "er_Attempts (fst sample_exec) = 2 \<and> er_Attempts (fst sample_exec) \<le> 3"
  using execute_within_retry_budget [of sample_hb 4 None 0 sample_instance sample_step sample_policy "[]",
      folded sample_exec_def, OF sample_exec_eq _ refl refl]
  by (simp add: cause_ok_def sample_hb_def sample_exec_eq resolvePolicy_def sample_step_def)

theorem execute_outcome_sound_witness:
  "er_Outcome (fst sample_exec) = OutcomeSucceeded \<and>
   safeRun (at_result (sample_run sample_instance [] 2)) = (''null'', None)"
  using execute_outcome_sound [of sample_hb 4 None 0 sample_instance sample_step sample_policy "[]",
      folded sample_exec_def, OF sample_exec_eq]
  by (simp add: cause_ok_def sample_hb_def sample_exec_eq outcome_means_def sample_step_def)

text \<open>
  C23. What the interval check accepts: a positive heartbeat interval and lease such that twice the
  interval is shorter than the lease, as documented, and besides that every interval of \<open>2 ^ 62\<close>
  nanoseconds or more with any lease at all, because the doubled interval wraps around to a negative
  number.
\<close>

theorem heartbeat_check_overflows:
  assumes "in_i64 h" and "in_i64 l"
  shows "validateIntervals h l = Inr () \<longleftrightarrow> 0 < h \<and> 0 < l \<and> (2 * h < l \<or> 2 ^ 62 \<le> h)"
proof (cases "h < 2 ^ 62")
  case True
  then have "0 < h \<Longrightarrow> i64 (h * 2) = h * 2" by (intro i64_id) (simp add: in_i64_def min_i64_def max_i64_def)
  with True show ?thesis by (auto simp: validateIntervals_def HeartbeatLeaseSafetyFactor_def)
next
  case False
  have "(h * 2 + 2 ^ 63) mod 2 ^ 64 = h * 2 - 2 ^ 63"
    using False assms(1) by (intro int_mod_pos_eq [where q = 1]) (simp_all add: in_i64_def max_i64_def)
  then have "i64 (h * 2) = h * 2 - 2 ^ 64" by (simp add: i64_def)
  then have "i64 (h * 2) < 0" using assms(1) by (simp add: in_i64_def max_i64_def)
  with False show ?thesis by (auto simp: validateIntervals_def HeartbeatLeaseSafetyFactor_def)
qed

theorem heartbeat_check_overflows_witness: "validateIntervals (2 ^ 62) 1 = Inr ()"
proof -
  have "in_i64 (2 ^ 62)" "in_i64 1" by code_simp+
  from heartbeat_check_overflows [OF this] show ?thesis by simp
qed

end
