(* ===== verification/Go_Json_Encode.thy ===== *)
theory Go_Json_Encode
  imports Go_Json
begin

text \<open>
  The encoder side of \<^verbatim>\<open>encoding/json\<close> that the code uses: \<^verbatim>\<open>json.Marshal\<close> of a struct with one
  string field. Strings are escaped as the standard library does with HTML escaping on: control
  characters, quotes, backslash, \<^verbatim>\<open><\<close>, \<^verbatim>\<open>>\<close> and \<^verbatim>\<open>&\<close> are escaped, invalid UTF-8 bytes become the
  replacement character, and U+2028/U+2029 are escaped. Whatever the string, the encoded text is
  accepted by the scanner and the encoding is at most six times as long.
\<close>

definition rune_error :: "nat \<times> nat" where
  "rune_error = (0xFFFD, 1)"

definition cont_byte :: "nat \<Rightarrow> nat \<Rightarrow> nat \<Rightarrow> bool" where
  "cont_byte lo hi b \<longleftrightarrow> lo \<le> b \<and> b \<le> hi"

text \<open>\<^verbatim>\<open>utf8.DecodeRune\<close>: the rune and its width; width 1 for an invalid byte.\<close>

definition decode_rune :: "nat \<Rightarrow> nat list \<Rightarrow> nat \<times> nat" where
  "decode_rune b0 r =
     (if b0 < 0x80 then (b0, 1)
      else if cont_byte 0xC2 0xDF b0 then
        (case r of
           b1 # _ \<Rightarrow> if cont_byte 0x80 0xBF b1 then ((b0 mod 32) * 64 + b1 mod 64, 2) else rune_error
         | [] \<Rightarrow> rune_error)
      else if cont_byte 0xE0 0xEF b0 then
        (case r of
           b1 # b2 # _ \<Rightarrow>
             if cont_byte (if b0 = 0xE0 then 0xA0 else 0x80) (if b0 = 0xED then 0x9F else 0xBF) b1 \<and>
                cont_byte 0x80 0xBF b2
             then ((b0 mod 16) * 4096 + (b1 mod 64) * 64 + b2 mod 64, 3) else rune_error
         | _ \<Rightarrow> rune_error)
      else if cont_byte 0xF0 0xF4 b0 then
        (case r of
           b1 # b2 # b3 # _ \<Rightarrow>
             if cont_byte (if b0 = 0xF0 then 0x90 else 0x80) (if b0 = 0xF4 then 0x8F else 0xBF) b1 \<and>
                cont_byte 0x80 0xBF b2 \<and> cont_byte 0x80 0xBF b3
             then ((b0 mod 8) * 262144 + (b1 mod 64) * 4096 + (b2 mod 64) * 64 + b3 mod 64, 4)
             else rune_error
         | _ \<Rightarrow> rune_error)
      else rune_error)"

definition hex_char :: "nat \<Rightarrow> char" where
  "hex_char n = ''0123456789abcdef'' ! (n mod 16)"

definition html_safe :: "char \<Rightarrow> bool" where
  "html_safe c \<longleftrightarrow> 0x20 \<le> (of_char c :: nat) \<and> c \<noteq> CHR 0x22 \<and> c \<noteq> CHR 0x5C \<and>
     c \<noteq> CHR ''<'' \<and> c \<noteq> CHR ''>'' \<and> c \<noteq> CHR ''&''"

definition escape_ascii :: "char \<Rightarrow> string" where
  "escape_ascii c =
     (if html_safe c then [c]
      else if c = CHR 0x22 \<or> c = CHR 0x5C then [CHR 0x5C, c]
      else if c = CHR 0x08 then [CHR 0x5C, CHR ''b'']
      else if c = CHR 0x0C then [CHR 0x5C, CHR ''f'']
      else if c = CHR 0x0A then [CHR 0x5C, CHR ''n'']
      else if c = CHR 0x0D then [CHR 0x5C, CHR ''r'']
      else if c = CHR 0x09 then [CHR 0x5C, CHR ''t'']
      else [CHR 0x5C, CHR ''u'', CHR ''0'', CHR ''0'', hex_char (of_char c div 16), hex_char (of_char c)])"

function json_escape :: "string \<Rightarrow> string" where
  "json_escape [] = []"
| "json_escape (c # s) =
     (if (of_char c :: nat) < 0x80 then escape_ascii c @ json_escape s
      else let (r, n) = decode_rune (of_char c) (map of_char s) in
        (if n \<le> 1 then [CHR 0x5C, CHR ''u'', CHR ''f'', CHR ''f'', CHR ''f'', CHR ''d''] @ json_escape s
         else (if r = 0x2028 \<or> r = 0x2029
               then [CHR 0x5C, CHR ''u'', CHR ''2'', CHR ''0'', CHR ''2'', hex_char r]
               else c # take (n - 1) s) @ json_escape (drop (n - 1) s)))"
  by pat_completeness auto

termination
  by (relation "measure length") auto

definition json_quote :: "string \<Rightarrow> string" where
  "json_quote s = [CHR 0x22] @ json_escape s @ [CHR 0x22]"

definition json_one_field :: "string \<Rightarrow> string \<Rightarrow> bytes" where
  "json_one_field name v = [CHR ''{''] @ [CHR 0x22] @ name @ [CHR 0x22] @ [CHR '':''] @ json_quote v @ [CHR ''}'']"

definition plain_char :: "char \<Rightarrow> bool" where
  "plain_char c \<longleftrightarrow> 0x20 \<le> (of_char c :: nat) \<and> c \<noteq> CHR 0x22 \<and> c \<noteq> CHR 0x5C"

subsection \<open>The encoder's output is accepted\<close>

lemma decode_rune_bytes:
  assumes "decode_rune b r = (c, n)" and "0x80 \<le> b"
  shows "n \<le> 1 \<or> (n \<le> 4 \<and> n - 1 \<le> length r \<and> (\<forall>x \<in> set (take (n - 1) r). 0x80 \<le> x))"
  using assms
  by (auto simp: decode_rune_def rune_error_def cont_byte_def numeral_3_eq_3 numeral_2_eq_2
      split: if_splits list.splits)

lemma scan_plain: "plain_char c \<Longrightarrow> scan_step (InString, ps) c = (InString, ps)"
  by (auto simp: plain_char_def less_char_def)

lemma scan_plains: "\<forall>c \<in> set cs. plain_char c \<Longrightarrow> foldl scan_step (InString, ps) cs = (InString, ps)"
  by (induction cs) (auto simp: scan_plain simp del: scan_step.simps)

lemma high_plain: "0x80 \<le> (of_char c :: nat) \<Longrightarrow> plain_char c"
  by (auto simp: plain_char_def)

lemma hex_char_digit: "hex_digit (hex_char n)"
proof -
  have "\<forall>k < 16. hex_digit (''0123456789abcdef'' ! k)"
    by (simp add: All_less_Suc numeral_nat hex_digit_def less_eq_char_def)
  then show ?thesis by (simp add: hex_char_def)
qed

lemma scan_escape_ascii: "foldl scan_step (InString, ps) (escape_ascii c) = (InString, ps)"
  by (auto simp: escape_ascii_def html_safe_def less_char_def hex_char_digit
      simp: hex_digit_def [of "CHR ''0''"] less_eq_char_def)

lemma scan_json_escape: "foldl scan_step (InString, ps) (json_escape s) = (InString, ps)"
proof (induction s rule: json_escape.induct)
  case (2 c s)
  show ?case
  proof (cases "(of_char c :: nat) < 0x80")
    case True
    with 2(1) show ?thesis by (simp add: scan_escape_ascii)
  next
    case False
    obtain r n where rn: "decode_rune (of_char c) (map of_char s) = (r, n)" by fastforce
    show ?thesis
    proof (cases "n \<le> 1")
      case True
      with False rn 2(2) [OF False rn [symmetric] refl] show ?thesis
        by (simp add: hex_digit_def less_eq_char_def)
    next
      case n: False
      from decode_rune_bytes [OF rn] False n have "\<forall>x \<in> set (take (n - 1) s). 0x80 \<le> (of_char x :: nat)"
        by (auto simp: take_map)
      then have "\<forall>x \<in> set (c # take (n - 1) s). plain_char x"
        using False high_plain by auto
      from scan_plains [OF this] False rn n 2(3) [OF False rn [symmetric] refl n] show ?thesis
        by (auto simp: hex_char_digit simp: hex_digit_def [of "CHR ''2''"] hex_digit_def [of "CHR ''0''"] less_eq_char_def)
    qed
  qed
qed simp

lemma json_one_field_valid:
  assumes "\<forall>c \<in> set name. plain_char c"
  shows "json_Valid (json_one_field name v)"
proof -
  have "foldl scan_step (BeginValue, []) (json_one_field name v) = (EndTop, [])"
    using scan_plains [OF assms]
    by (simp add: json_one_field_def json_quote_def scan_begin_value_def scan_begin_string_def
        push_state_def pop_state_def json_space_def scan_json_escape)
  then show ?thesis by (simp add: json_Valid_def scan_eof_def)
qed

lemma escape_ascii_length: "length (escape_ascii c) \<le> 6"
  by (simp add: escape_ascii_def)

lemma json_escape_length: "length (json_escape s) \<le> 6 * length s"
proof (induction s rule: json_escape.induct)
  case (2 c s)
  show ?case
  proof (cases "(of_char c :: nat) < 0x80")
    case True
    with 2(1) escape_ascii_length [of c] show ?thesis by simp
  next
    case False
    obtain r n where rn: "decode_rune (of_char c) (map of_char s) = (r, n)" by fastforce
    show ?thesis
    proof (cases "n \<le> 1")
      case True
      with False rn 2(2) [OF False rn [symmetric] refl] show ?thesis by simp
    next
      case n: False
      from decode_rune_bytes [OF rn] False n have "n - 1 \<le> length s" by simp
      with False rn n 2(3) [OF False rn [symmetric] refl n] show ?thesis by auto
    qed
  qed
qed simp

end
