(* ===== verification/Saga_Coordinator.thy ===== *)
theory Saga_Coordinator
  imports Saga_Journal Saga_Executor Go_Json_Encode
begin

text \<open>
  The saga coordinator of \<^verbatim>\<open>framework/runtime/saga\<close>: driving one claimed instance
  (\<^verbatim>\<open>coordinator.go\<close>), the leader-elect gate (\<^verbatim>\<open>leader_elect.go\<close>) and error classification.

  \<^verbatim>\<open>driveOne\<close> is a sequence of calls (to the journal, the executor, the outbox, the clock) between
  which other coordinators act. It is modelled by an interaction tree: each node of the datatype
  \<open>prog\<close> is one call with its arguments and a continuation for every answer. One semantics runs the
  tree, so that a system of many coordinators interleaves at the granularity of calls; a crash is a
  tree that is never continued.

  \<^verbatim>\<open>RunInTx\<close> is the pass-through runner (\<^verbatim>\<open>DemoTxRunner\<close>) that goes with the in-memory journal:
  it calls its function once, returns its error and keeps what the function did; the after-commit
  hook runs on success. Logging, tracing and metrics are left out. The redaction of foreign error
  texts is the argument \<open>redact\<close>.
\<close>

section \<open>Definitions\<close>

subsection \<open>Calls\<close>

datatype ('r, 'c) prog =
    Ret "unit res"
  | CNow "instant \<Rightarrow> ('r, 'c) prog"
  | CLoad safeid "saga_event list res \<Rightarrow> ('r, 'c) prog"
  | CAppend safeid safeid saga_event "int res \<Rightarrow> ('r, 'c) prog"
  | CMarkTerminal safeid safeid saga_status "bool res \<Rightarrow> ('r, 'c) prog"
  | CHeartbeat safeid safeid duration "bool res \<Rightarrow> ('r, 'c) prog"
  | CExecute "instant option" saga_instance safeid "('r, 'c) saga_step" retry_policy bytes
      "exec_result \<Rightarrow> ('r, 'c) prog"
  | CCompensate saga_instance safeid "('r, 'c) saga_step" bytes "goerr option \<Rightarrow> ('r, 'c) prog"
  | CCtxErr "goerr option \<Rightarrow> ('r, 'c) prog"
  | CCause "goerr option \<Rightarrow> ('r, 'c) prog"
  | CEmit string safeid safeid "unit res \<Rightarrow> ('r, 'c) prog"
  | CKick "('r, 'c) prog"

type_synonym ('r, 'c) cont = "unit res \<Rightarrow> ('r, 'c) prog"

definition new_event :: "event_kind \<Rightarrow> safeid \<Rightarrow> bytes \<Rightarrow> saga_event" where
  "new_event kind stepName payload =
     \<lparr>ev_Version = 0, ev_GlobalSeq = 0, ev_Kind = kind, ev_StepName = stepName,
      ev_Payload = payload, ev_CreatedAt = 0\<rparr>"

subsection \<open>Payloads and topics\<close>

text \<open>
  The text of an error that has no \<^verbatim>\<open>errcode.Error\<close> in its chain; the clauses for those are never reached.
\<close>

fun err_text :: "goerr \<Rightarrow> string" where
  "err_text (Errcode k c m) = m"
| "err_text (ErrorsNew m) = m"
| "err_text (Wrap m e) = m @ '': '' @ err_text e"
| "err_text (ErrcodeWrap k c m e) = m @ '': '' @ err_text e"
| "err_text (Permanent e) = ''permanent: '' @ err_text e"
| "err_text CtxCanceled = ''context canceled''"
| "err_text CtxDeadlineExceeded = ''context deadline exceeded''"

definition failurePayload :: "(string \<Rightarrow> string) \<Rightarrow> goerr \<Rightarrow> bytes" where
  "failurePayload redact err =
     (let reason = (case errors_As err of
                      Some (k, c, message) \<Rightarrow> message
                    | None \<Rightarrow> redact (err_text err));
          reason = (if length reason > 256 then take 256 reason else reason)
      in json_one_field ''reason'' reason)"

definition stepCompletedTopic :: "safeid \<Rightarrow> string" where
  "stepCompletedTopic defID = ''saga.'' @ defID @ ''.step_completed''"

subsection \<open>Terminal marks and commits\<close>

definition markTerminal :: "safeid \<Rightarrow> safeid \<Rightarrow> saga_status \<Rightarrow> ('r, 'c) cont \<Rightarrow> ('r, 'c) prog" where
  "markTerminal iid leaseID finalStatus k =
     CMarkTerminal iid leaseID finalStatus (\<lambda>r.
       case r of
         Inl err \<Rightarrow> k (Inl (Wrap (''MarkTerminal('' @ saga_status_String finalStatus @ '')'') err))
       | Inr ok \<Rightarrow> k (Inr ()))"

record ('r, 'c) commit_step_args =
  ca_instanceID :: safeid
  ca_leaseID :: safeid
  ca_defID :: safeid
  ca_step :: "('r, 'c) saga_step"
  ca_newState :: bytes
  ca_runErr :: "goerr option"
  ca_isLastStep :: bool

definition commitStepFailed ::
  "(string \<Rightarrow> string) \<Rightarrow> ('r, 'c) commit_step_args \<Rightarrow> goerr \<Rightarrow> ('r, 'c) cont \<Rightarrow> ('r, 'c) prog" where
  "commitStepFailed redact a runErr k =
     CAppend (ca_instanceID a) (ca_leaseID a)
       (new_event KindStepFailed (step_Name (ca_step a)) (failurePayload redact runErr)) (\<lambda>r.
       case r of
         Inl err \<Rightarrow> k (Inl err)
       | Inr _ \<Rightarrow>
           CMarkTerminal (ca_instanceID a) (ca_leaseID a) StatusFailed (\<lambda>r.
             case r of Inl err \<Rightarrow> k (Inl err) | Inr _ \<Rightarrow> k (Inr ())))"

definition commitStepCompleted ::
  "('r, 'c) commit_step_args \<Rightarrow> ('r, 'c) cont \<Rightarrow> ('r, 'c) prog" where
  "commitStepCompleted a k =
     CAppend (ca_instanceID a) (ca_leaseID a)
       (new_event KindStepCompleted (step_Name (ca_step a)) (ca_newState a)) (\<lambda>r.
       case r of
         Inl err \<Rightarrow> k (Inl err)
       | Inr _ \<Rightarrow>
           CEmit (stepCompletedTopic (ca_defID a)) (ca_instanceID a) (step_Name (ca_step a)) (\<lambda>r.
             case r of
               Inl err \<Rightarrow> k (Inl err)
             | Inr _ \<Rightarrow>
                 if ca_isLastStep a then
                   CMarkTerminal (ca_instanceID a) (ca_leaseID a) StatusSucceeded (\<lambda>r.
                     case r of Inl err \<Rightarrow> k (Inl err) | Inr _ \<Rightarrow> k (Inr ()))
                 else k (Inr ())))"

definition commitStep ::
  "(string \<Rightarrow> string) \<Rightarrow> ('r, 'c) commit_step_args \<Rightarrow> ('r, 'c) cont \<Rightarrow> ('r, 'c) prog" where
  "commitStep redact a k =
     (case ca_runErr a of
        Some runErr \<Rightarrow> commitStepFailed redact a runErr k
      | None \<Rightarrow> commitStepCompleted a k)"

definition commitStepInTx ::
  "(string \<Rightarrow> string) \<Rightarrow> ('r, 'c) commit_step_args \<Rightarrow> ('r, 'c) cont \<Rightarrow> ('r, 'c) prog" where
  "commitStepInTx redact a k =
     commitStep redact a (\<lambda>r. case r of Inl err \<Rightarrow> k (Inl err) | Inr _ \<Rightarrow> CKick (k (Inr ())))"

subsection \<open>Replay\<close>

definition errFoldEventMismatch :: goerr where
  "errFoldEventMismatch = Errcode KindInternal ErrInternal
     ''saga coordinator: replayed events inconsistent with state machine''"

definition errFoldUnknownKind :: goerr where
  "errFoldUnknownKind = Errcode KindInternal ErrSagaFoldUnknownKind
     ''saga coordinator: foldEvents saw an unhandled journal event kind''"

fun fold_events_from :: "nat \<Rightarrow> bytes \<Rightarrow> saga_event list \<Rightarrow> (nat \<times> bytes) res" where
  "fold_events_from cursor prevState [] = Inr (cursor, prevState)"
| "fold_events_from cursor prevState (ev # events) =
     (case ev_Kind ev of
        KindStepCompleted \<Rightarrow> fold_events_from (Suc cursor) (ev_Payload ev) events
      | KindStepFailed \<Rightarrow> Inl errFoldEventMismatch
      | KindOther _ \<Rightarrow> Inl errFoldUnknownKind
      | _ \<Rightarrow> fold_events_from cursor prevState events)"

definition foldEvents :: "saga_event list \<Rightarrow> (nat \<times> bytes) res" where
  "foldEvents events = fold_events_from 0 [] events"

definition shouldCompensate :: "saga_event list \<Rightarrow> ('r, 'c) saga_definition \<Rightarrow> bool" where
  "shouldCompensate events def =
     (if \<not> list_ex (\<lambda>s. step_Compensate s \<noteq> None) (def_Steps def) then False
      else list_ex (\<lambda>ev. ev_Kind ev = KindStepCompleted) events)"

record committed_step_entry =
  cs_name :: safeid
  cs_payload :: bytes

fun compensated_names :: "saga_event list \<Rightarrow> safeid list \<times> nat" where
  "compensated_names [] = ([], 0)"
| "compensated_names (ev # events) =
     (let (names, failures) = compensated_names events in
      if ev_Kind ev = KindStepCompensationFailed then (ev_StepName ev # names, Suc failures)
      else if ev_Kind ev = KindStepCompensated then (ev_StepName ev # names, failures)
      else (names, failures))"

definition collectCommittedSteps ::
  "saga_event list \<Rightarrow> ('r, 'c) saga_definition \<Rightarrow>
   committed_step_entry list \<times> (safeid \<rightharpoonup> ('r, 'c) saga_step) \<times> nat" where
  "collectCommittedSteps events def =
     (let (compensated, priorFailureCount) = compensated_names events;
          committed = map (\<lambda>ev. \<lparr>cs_name = ev_StepName ev, cs_payload = ev_Payload ev\<rparr>)
            (filter (\<lambda>ev. ev_StepName ev \<notin> set compensated)
              (filter (\<lambda>ev. ev_Kind ev = KindStepCompleted) events));
          stepByName = foldl (\<lambda>m s. m(step_Name s \<mapsto> s)) Map.empty (def_Steps def)
      in (committed, stepByName, priorFailureCount))"

subsection \<open>Compensation\<close>

definition compensateOneStep ::
  "(string \<Rightarrow> string) \<Rightarrow> claimed_instance \<Rightarrow> ('r, 'c) saga_step \<Rightarrow> bytes \<Rightarrow>
   (goerr option \<Rightarrow> ('r, 'c) prog) \<Rightarrow> ('r, 'c) prog" where
  "compensateOneStep redact ci step committedPayload k =
     (if step_Compensate step = None then k None
      else CCompensate (ci_Instance ci) (ci_LeaseID ci) step committedPayload (\<lambda>compensateErr.
        case compensateErr of
          Some err \<Rightarrow>
            CAppend (inst_ID (ci_Instance ci)) (ci_LeaseID ci)
              (new_event KindStepCompensationFailed (step_Name step) (failurePayload redact err))
              (\<lambda>_. k (Some err))
        | None \<Rightarrow>
            CAppend (inst_ID (ci_Instance ci)) (ci_LeaseID ci)
              (new_event KindStepCompensated (step_Name step)
                (json_one_field ''step'' (step_Name step)))
              (\<lambda>_. k None)))"

text \<open>The list is walked from its last element down, as the loop counts its index down.\<close>

fun walk_reversed ::
  "(string \<Rightarrow> string) \<Rightarrow> claimed_instance \<Rightarrow> (safeid \<rightharpoonup> ('r, 'c) saga_step) \<Rightarrow>
   committed_step_entry list \<Rightarrow> goerr list \<Rightarrow> (goerr list \<Rightarrow> ('r, 'c) prog) \<Rightarrow> ('r, 'c) prog" where
  "walk_reversed redact ci stepByName [] errs k = k errs"
| "walk_reversed redact ci stepByName (cs # rest) errs k =
     CCtxErr (\<lambda>e.
       if e \<noteq> None then k errs
       else (case stepByName (cs_name cs) of
          None \<Rightarrow> walk_reversed redact ci stepByName rest errs k
        | Some step \<Rightarrow>
            compensateOneStep redact ci step (cs_payload cs) (\<lambda>compensateErr.
              walk_reversed redact ci stepByName rest
                (case compensateErr of Some err \<Rightarrow> errs @ [err] | None \<Rightarrow> errs) k)))"

definition reverseWalkCompensate ::
  "(string \<Rightarrow> string) \<Rightarrow> claimed_instance \<Rightarrow> committed_step_entry list \<Rightarrow>
   (safeid \<rightharpoonup> ('r, 'c) saga_step) \<Rightarrow> goerr list \<Rightarrow> (goerr list \<Rightarrow> ('r, 'c) prog) \<Rightarrow> ('r, 'c) prog" where
  "reverseWalkCompensate redact ci committed stepByName errs k =
     walk_reversed redact ci stepByName (rev committed) errs k"

datatype compensation_trigger = recoveryTrigger | failureTrigger goerr

definition appendCompensationStarted ::
  "(string \<Rightarrow> string) \<Rightarrow> claimed_instance \<Rightarrow> goerr \<Rightarrow> ('r, 'c) cont \<Rightarrow> ('r, 'c) prog" where
  "appendCompensationStarted redact ci runErr k =
     CAppend (inst_ID (ci_Instance ci)) (ci_LeaseID ci)
       (new_event KindCompensationStarted [] (failurePayload redact runErr)) (\<lambda>r.
       case r of
         Inl err \<Rightarrow> k (Inl (Wrap ''runCompensation: append KindCompensationStarted'' err))
       | Inr _ \<Rightarrow> k (Inr ()))"

text \<open>The walk under \<^verbatim>\<open>executor.RunWithHeartbeat\<close>: its preflight heartbeat, the body and the verdict.\<close>

definition run_with_heartbeat ::
  "duration \<Rightarrow> claimed_instance \<Rightarrow> goerr list \<Rightarrow>
   ((goerr list \<Rightarrow> goerr option \<Rightarrow> ('r, 'c) prog) \<Rightarrow> ('r, 'c) prog) \<Rightarrow>
   (goerr list \<Rightarrow> goerr option \<Rightarrow> ('r, 'c) prog) \<Rightarrow> ('r, 'c) prog" where
  "run_with_heartbeat leaseDuration ci errs fn k =
     CHeartbeat (inst_ID (ci_Instance ci)) (ci_LeaseID ci) leaseDuration (\<lambda>pre.
       if pre = Inr False then k errs (Some errLeaseLost)
       else fn (\<lambda>errs fnErr. CCause (\<lambda>cause. k errs (heartbeat_verdict fnErr cause))))"

definition finish_compensation ::
  "claimed_instance \<Rightarrow> goerr list \<Rightarrow> goerr option \<Rightarrow> ('r, 'c) cont \<Rightarrow> ('r, 'c) prog" where
  "finish_compensation ci compensateErrors walkErr k =
     (if IsLeaseLost walkErr then k (Inr ())
      else case walkErr of
        Some err \<Rightarrow> k (Inl (Wrap ''runCompensation: RunWithHeartbeat'' err))
      | None \<Rightarrow>
          if length compensateErrors > 0
          then markTerminal (inst_ID (ci_Instance ci)) (ci_LeaseID ci) StatusCompensationFailed k
          else markTerminal (inst_ID (ci_Instance ci)) (ci_LeaseID ci) StatusCompensated k)"

definition walk_and_finish ::
  "(string \<Rightarrow> string) \<Rightarrow> duration \<Rightarrow> claimed_instance \<Rightarrow> ('r, 'c) saga_definition \<Rightarrow>
   saga_event list \<Rightarrow> ('r, 'c) cont \<Rightarrow> ('r, 'c) prog" where
  "walk_and_finish redact leaseDuration ci def events k =
     (let (committed, stepByName, priorFailureCount) = collectCommittedSteps events def;
          compensateErrors =
            replicate priorFailureCount (ErrorsNew ''prior compensation failure (not retried)'')
      in run_with_heartbeat leaseDuration ci compensateErrors
           (\<lambda>k'. reverseWalkCompensate redact ci committed stepByName compensateErrors
              (\<lambda>errs. CCtxErr (\<lambda>e. k' errs e)))
           (\<lambda>compensateErrors walkErr. finish_compensation ci compensateErrors walkErr k))"

definition runCompensation ::
  "(string \<Rightarrow> string) \<Rightarrow> duration \<Rightarrow> claimed_instance \<Rightarrow> ('r, 'c) saga_definition \<Rightarrow>
   saga_event list \<Rightarrow> compensation_trigger \<Rightarrow> ('r, 'c) cont \<Rightarrow> ('r, 'c) prog" where
  "runCompensation redact leaseDuration ci def events trig k =
     (case trig of
        recoveryTrigger \<Rightarrow> walk_and_finish redact leaseDuration ci def events k
      | failureTrigger runErr \<Rightarrow>
          appendCompensationStarted redact ci runErr (\<lambda>r.
            case r of
              Inl err \<Rightarrow> k (Inl err)
            | Inr _ \<Rightarrow> walk_and_finish redact leaseDuration ci def events k))"

subsection \<open>Driving one instance\<close>

definition routeOutcome ::
  "(string \<Rightarrow> string) \<Rightarrow> duration \<Rightarrow> claimed_instance \<Rightarrow> ('r, 'c) saga_definition \<Rightarrow>
   saga_event list \<Rightarrow> nat \<Rightarrow> ('r, 'c) saga_step \<Rightarrow> exec_result \<Rightarrow> ('r, 'c) cont \<Rightarrow> ('r, 'c) prog" where
  "routeOutcome redact leaseDuration ci def events cursor nextStep res k =
     (let iid = inst_ID (ci_Instance ci);
          args = \<lparr>ca_instanceID = iid, ca_leaseID = ci_LeaseID ci, ca_defID = def_ID def,
                   ca_step = nextStep, ca_newState = [], ca_runErr = None, ca_isLastStep = False\<rparr>
      in case er_Outcome res of
           OutcomeSucceeded \<Rightarrow>
             commitStepInTx redact (args\<lparr>ca_newState := er_NewState res,
               ca_isLastStep := (int cursor = int (Definition_Len def) - 1)\<rparr>) k
         | OutcomeFailed \<Rightarrow>
             if shouldCompensate events def
             then runCompensation redact leaseDuration ci def events
                    (failureTrigger (the (er_Err res))) k
             else commitStepInTx redact (args\<lparr>ca_runErr := er_Err res\<rparr>) k
         | OutcomeExpired \<Rightarrow> markTerminal iid (ci_LeaseID ci) StatusExpired k
         | OutcomeCanceled \<Rightarrow> k (Inr ())
         | OutcomeLeaseLost \<Rightarrow> k (Inr ())
         | OutcomeOther _ \<Rightarrow> k (Inl (ErrorsNew ''saga: unknown executor outcome'')))"

definition drive_loaded ::
  "(string \<Rightarrow> string) \<Rightarrow> duration \<Rightarrow> claimed_instance \<Rightarrow> ('r, 'c) saga_definition \<Rightarrow>
   saga_event list \<Rightarrow> ('r, 'c) prog" where
  "drive_loaded redact leaseDuration ci def events =
     (let inst = ci_Instance ci in
      if inst_Status inst = StatusCompensating
      then runCompensation redact leaseDuration ci def events recoveryTrigger Ret
      else (case foldEvents events of
          Inl foldErr \<Rightarrow> markTerminal (inst_ID inst) (ci_LeaseID ci) StatusFailed Ret
        | Inr (cursor, prevState) \<Rightarrow>
            if cursor \<ge> Definition_Len def
            then markTerminal (inst_ID inst) (ci_LeaseID ci) StatusSucceeded Ret
            else let nextStep = def_Steps def ! cursor;
                     deadline = (if def_Timeout def > 0
                       then Some (inst_StartedAt inst + def_Timeout def) else None)
                 in CExecute deadline inst (ci_LeaseID ci) nextStep (def_RetryPolicy def) prevState
                      (\<lambda>res. routeOutcome redact leaseDuration ci def events cursor nextStep res Ret)))"

definition drive_live ::
  "(string \<Rightarrow> string) \<Rightarrow> duration \<Rightarrow> claimed_instance \<Rightarrow> ('r, 'c) saga_definition \<Rightarrow> ('r, 'c) prog" where
  "drive_live redact leaseDuration ci def =
     CLoad (inst_ID (ci_Instance ci)) (\<lambda>r.
       case r of
         Inl err \<Rightarrow> Ret (Inl (Wrap ''load events'' err))
       | Inr events \<Rightarrow> drive_loaded redact leaseDuration ci def events)"

definition driveOne ::
  "(string \<Rightarrow> string) \<Rightarrow> ('r, 'c) saga_registry \<Rightarrow> duration \<Rightarrow> claimed_instance \<Rightarrow> ('r, 'c) prog" where
  "driveOne redact reg leaseDuration ci =
     (let inst = ci_Instance ci in
      case Registry_Lookup reg (inst_DefinitionID inst) of
        None \<Rightarrow> markTerminal (inst_ID inst) (ci_LeaseID ci) StatusFailed Ret
      | Some def \<Rightarrow>
          if def_Timeout def > 0 then
            CNow (\<lambda>now.
              if time_Sub now (inst_StartedAt inst) > def_Timeout def
              then markTerminal (inst_ID inst) (ci_LeaseID ci) StatusExpired Ret
              else drive_live redact leaseDuration ci def)
          else drive_live redact leaseDuration ci def)"

subsection \<open>Leader election and ticks\<close>

definition leaderElectLockKey :: "safeid \<Rightarrow> safeid \<Rightarrow> string" where
  "leaderElectLockKey definitionID instanceID =
     ''saga:'' @ show_nat (length definitionID) @ '':'' @ definitionID @ '':'' @ instanceID"

datatype leader_skip = LeaderSkipContended | LeaderSkipCtxCanceled | LeaderSkipBackendError

definition classifyLeaderSkip :: "goerr \<Rightarrow> leader_skip" where
  "classifyLeaderSkip err =
     (if (case errors_As err of Some (k, c, m) \<Rightarrow> c = ErrDistlockTimeout | None \<Rightarrow> False)
        then LeaderSkipContended
      else if errors_Is err CtxCanceled \<or> errors_Is err CtxDeadlineExceeded
        then LeaderSkipCtxCanceled
      else LeaderSkipBackendError)"

datatype log_level = LevelDebug | LevelInfo | LevelWarn | LevelError

definition leaderSkipLogLevel :: "leader_skip \<Rightarrow> log_level" where
  "leaderSkipLogLevel reason = (if reason = LeaderSkipBackendError then LevelWarn else LevelDebug)"

definition journalErrLevel :: "goerr \<Rightarrow> log_level" where
  "journalErrLevel err =
     (case errors_As err of
        None \<Rightarrow> LevelWarn
      | Some (k, c, m) \<Rightarrow>
          if c = ErrSagaStaleLease then LevelInfo
          else if c = ErrSagaNotFound then LevelWarn else LevelWarn)"

definition foldErrLevel :: "goerr \<Rightarrow> log_level" where
  "foldErrLevel err =
     (case errors_As err of
        Some (k, c, m) \<Rightarrow> if c = ErrSagaFoldUnknownKind then LevelError else LevelWarn
      | None \<Rightarrow> LevelWarn)"

text \<open>The distributed lock is a function from key and lease to the answer of \<^verbatim>\<open>Acquire\<close>.\<close>

type_synonym locker = "string \<Rightarrow> duration \<Rightarrow> unit res"

definition acquireLead :: "locker option \<Rightarrow> duration \<Rightarrow> claimed_instance \<Rightarrow> leader_skip option" where
  "acquireLead locker leaseDuration ci =
     (case locker of
        None \<Rightarrow> None
      | Some acquire \<Rightarrow>
          (case acquire (leaderElectLockKey (inst_DefinitionID (ci_Instance ci)) (inst_ID (ci_Instance ci)))
                  leaseDuration of
             Inl err \<Rightarrow> Some (classifyLeaderSkip err)
           | Inr _ \<Rightarrow> None))"

record coord_config =
  cfg_PollInterval :: duration
  cfg_ClaimBatchSize :: int
  cfg_LeaseDuration :: duration
  cfg_HeartbeatInterval :: duration

definition DefaultConfig :: coord_config where
  "DefaultConfig =
     \<lparr>cfg_PollInterval = 200 * millisecond, cfg_ClaimBatchSize = 16,
      cfg_LeaseDuration = 30 * second, cfg_HeartbeatInterval = DefaultHeartbeatInterval\<rparr>"

definition Config_Validate :: "coord_config \<Rightarrow> unit res" where
  "Config_Validate c =
     (if cfg_PollInterval c \<le> 0
        then Inl (invalid ''saga coordinator: Config.PollInterval must be positive'')
      else if cfg_ClaimBatchSize c \<le> 0
        then Inl (invalid ''saga coordinator: Config.ClaimBatchSize must be positive'')
      else if cfg_LeaseDuration c \<le> 0
        then Inl (invalid ''saga coordinator: Config.LeaseDuration must be positive'')
      else if cfg_HeartbeatInterval c \<le> 0
        then Inl (invalid ''saga coordinator: Config.HeartbeatInterval must be positive'')
      else if i64 (cfg_HeartbeatInterval c * HeartbeatLeaseSafetyFactor) \<ge> cfg_LeaseDuration c
        then Inl (invalid ''saga coordinator: Config.HeartbeatInterval*2 must be < LeaseDuration'')
      else Inr ())"

definition labelDefinitionID :: "('r, 'c) saga_registry \<Rightarrow> safeid \<Rightarrow> string" where
  "labelDefinitionID reg definitionID =
     (case Registry_Lookup reg definitionID of
        Some _ \<Rightarrow> definitionID
      | None \<Rightarrow> ''_unregistered'')"

record ('r, 'c) worker =
  w_inst :: safeid
  w_lease :: safeid
  w_prog :: "('r, 'c) prog"

definition tickOnce ::
  "(string \<Rightarrow> string) \<Rightarrow> ('r, 'c) saga_registry \<Rightarrow> coord_config \<Rightarrow> locker option \<Rightarrow> bool \<Rightarrow>
   string res \<Rightarrow> instant \<Rightarrow> mem_journal \<Rightarrow> (mem_journal \<times> ('r, 'c) worker list) res" where
  "tickOnce redact reg cfg locker stopping uuid now m =
     (if stopping then Inr (m, [])
      else case ClaimPending m now uuid (cfg_ClaimBatchSize cfg) (cfg_LeaseDuration cfg) of
        Inl err \<Rightarrow> Inl (Wrap ''ClaimPending'' err)
      | Inr (m, claimed, _) \<Rightarrow>
          Inr (m, map (\<lambda>ci. \<lparr>w_inst = inst_ID (ci_Instance ci), w_lease = ci_LeaseID ci,
                             w_prog = driveOne redact reg (cfg_LeaseDuration cfg) ci\<rparr>)
                    (filter (\<lambda>ci. acquireLead locker (cfg_LeaseDuration cfg) ci = None) claimed)))"

subsection \<open>Interleaved execution\<close>

text \<open>The answers the environment gives to the calls that do not go to the journal.\<close>

record answer =
  an_exec :: exec_result
  an_comp :: "goerr option"
  an_ctx :: "goerr option"
  an_emit :: "unit res"

fun prog_step :: "instant \<Rightarrow> answer \<Rightarrow> mem_journal \<Rightarrow> ('r, 'c) prog \<Rightarrow> mem_journal \<times> ('r, 'c) prog" where
  "prog_step now an m (Ret r) = (m, Ret r)"
| "prog_step now an m (CNow k) = (m, k now)"
| "prog_step now an m (CLoad i k) = (m, k (Load m i))"
| "prog_step now an m (CAppend i l e k) =
     (case Append m now i l e of Inl err \<Rightarrow> (m, k (Inl err)) | Inr (m', v) \<Rightarrow> (m', k (Inr v)))"
| "prog_step now an m (CMarkTerminal i l s k) =
     (case MarkTerminal m now i l s of Inl err \<Rightarrow> (m, k (Inl err)) | Inr (m', ok) \<Rightarrow> (m', k (Inr ok)))"
| "prog_step now an m (CHeartbeat i l d k) =
     (case Heartbeat m now i l d of Inl err \<Rightarrow> (m, k (Inl err)) | Inr (m', ok) \<Rightarrow> (m', k (Inr ok)))"
| "prog_step now an m (CExecute dl inst l step pol prev k) = (m, k (an_exec an))"
| "prog_step now an m (CCompensate inst l step payload k) = (m, k (an_comp an))"
| "prog_step now an m (CCtxErr k) = (m, k (an_ctx an))"
| "prog_step now an m (CCause k) = (m, k (an_ctx an))"
| "prog_step now an m (CEmit topic i step k) = (m, k (an_emit an))"
| "prog_step now an m (CKick p) = (m, p)"

record ('r, 'c) sys =
  sys_j :: mem_journal
  sys_ws :: "('r, 'c) worker list"

datatype sched =
    SEnqueue saga_instance
  | STick coord_config "locker option" bool "string res"
  | SRun nat answer
  | SBeat nat duration
  | SCrash nat

definition drop_nth :: "nat \<Rightarrow> 'a list \<Rightarrow> 'a list" where
  "drop_nth n xs = take n xs @ drop (Suc n) xs"

fun sys_step ::
  "(string \<Rightarrow> string) \<Rightarrow> ('r, 'c) saga_registry \<Rightarrow> ('r, 'c) sys \<Rightarrow> instant \<Rightarrow> sched \<Rightarrow> ('r, 'c) sys" where
  "sys_step redact reg s now (SEnqueue inst) =
     (case Enqueue (sys_j s) inst of Inl _ \<Rightarrow> s | Inr m \<Rightarrow> s\<lparr>sys_j := m\<rparr>)"
| "sys_step redact reg s now (STick cfg locker stopping uuid) =
     (case tickOnce redact reg cfg locker stopping uuid now (sys_j s) of
        Inl _ \<Rightarrow> s
      | Inr (m, ws) \<Rightarrow> s\<lparr>sys_j := m, sys_ws := sys_ws s @ ws\<rparr>)"
| "sys_step redact reg s now (SRun n an) =
     (if n < length (sys_ws s) then
        let w = sys_ws s ! n; (m, p) = prog_step now an (sys_j s) (w_prog w)
        in s\<lparr>sys_j := m, sys_ws := (sys_ws s)[n := w\<lparr>w_prog := p\<rparr>]\<rparr>
      else s)"
| "sys_step redact reg s now (SBeat n d) =
     (if n < length (sys_ws s) then
        s\<lparr>sys_j := kept (sys_j s) (Heartbeat (sys_j s) now (w_inst (sys_ws s ! n)) (w_lease (sys_ws s ! n)) d)\<rparr>
      else s)"
| "sys_step redact reg s now (SCrash n) = s\<lparr>sys_ws := drop_nth n (sys_ws s)\<rparr>"

fun sys_exec ::
  "(string \<Rightarrow> string) \<Rightarrow> ('r, 'c) saga_registry \<Rightarrow> ('r, 'c) sys \<Rightarrow> (instant \<times> sched) list \<Rightarrow> ('r, 'c) sys" where
  "sys_exec redact reg s [] = s"
| "sys_exec redact reg s ((now, a) # as) = sys_exec redact reg (sys_step redact reg s now a) as"

definition sys_start :: "('r, 'c) sys" where
  "sys_start = \<lparr>sys_j = NewMemJournal, sys_ws = []\<rparr>"

subsection \<open>What the log may say\<close>

definition completed :: "sig list \<Rightarrow> safeid list" where
  "completed s = map snd (filter (\<lambda>x. fst x = KindStepCompleted) s)"

definition undone :: "sig list \<Rightarrow> safeid list" where
  "undone s = map snd (filter (\<lambda>x. fst x \<in> {KindStepCompensated, KindStepCompensationFailed}) s)"

text \<open>
  The steps committed are a prefix of the definition's steps, in order and once each; the rollback
  outcome of a step is recorded at most once and only for a committed step.
\<close>

definition log_ordered :: "('r, 'c) saga_step list \<Rightarrow> sig list \<Rightarrow> bool" where
  "log_ordered steps s \<longleftrightarrow>
     completed s = take (length (completed s)) (map step_Name steps) \<and>
     distinct (undone s) \<and> set (undone s) \<subseteq> set (completed s)"

text \<open>
  A drive is safe for the log it knows (\<open>None\<close> before it has loaded one): it acts only on its own
  instance and lease, and appends only what keeps the known log ordered.
\<close>

primrec safe_prog ::
  "safeid \<Rightarrow> safeid \<Rightarrow> ('r, 'c) saga_step list \<Rightarrow> ('r, 'c) prog \<Rightarrow> sig list option \<Rightarrow> bool" where
  "safe_prog i l st (Ret r) kn = True"
| "safe_prog i l st (CNow k) kn = (\<forall>t. safe_prog i l st (k t) kn)"
| "safe_prog i l st (CLoad j k) kn =
     (j = i \<and> (\<forall>e. safe_prog i l st (k (Inl e)) kn) \<and>
      (\<forall>evs. log_ordered st (map sig_of evs) \<longrightarrow> safe_prog i l st (k (Inr evs)) (Some (map sig_of evs))))"
| "safe_prog i l st (CAppend j l' e k) kn =
     (j = i \<and> l' = l \<and> (\<forall>er. safe_prog i l st (k (Inl er)) kn) \<and>
      (\<exists>s. kn = Some s \<and> log_ordered st (s @ [sig_of e]) \<and>
         (\<forall>v. safe_prog i l st (k (Inr v)) (Some (s @ [sig_of e])))))"
| "safe_prog i l st (CMarkTerminal j l' s k) kn = (j = i \<and> l' = l \<and> (\<forall>r. safe_prog i l st (k r) kn))"
| "safe_prog i l st (CHeartbeat j l' d k) kn = (j = i \<and> l' = l \<and> (\<forall>r. safe_prog i l st (k r) kn))"
| "safe_prog i l st (CExecute dl inst l' step pol prev k) kn = (\<forall>r. safe_prog i l st (k r) kn)"
| "safe_prog i l st (CCompensate inst l' step payload k) kn = (\<forall>r. safe_prog i l st (k r) kn)"
| "safe_prog i l st (CCtxErr k) kn = (\<forall>r. safe_prog i l st (k r) kn)"
| "safe_prog i l st (CCause k) kn = (\<forall>r. safe_prog i l st (k r) kn)"
| "safe_prog i l st (CEmit topic j step k) kn = (\<forall>r. safe_prog i l st (k r) kn)"
| "safe_prog i l st (CKick p) kn = safe_prog i l st p kn"

subsection \<open>Vocabulary of the properties\<close>

definition steps_of :: "('r, 'c) saga_registry \<Rightarrow> safeid \<Rightarrow> ('r, 'c) saga_step list" where
  "steps_of reg d = (case reg d of Some def \<Rightarrow> def_Steps def | None \<Rightarrow> [])"

definition worker_ok :: "('r, 'c) saga_registry \<Rightarrow> mem_journal \<Rightarrow> ('r, 'c) worker \<Rightarrow> bool" where
  "worker_ok reg m w \<longleftrightarrow>
     w_lease w \<noteq> [] \<and>
     (\<exists>l d kn. lease_view m (w_inst w) = Some (l, d) \<and>
        safe_prog (w_inst w) (w_lease w) (steps_of reg d) (w_prog w) kn \<and>
        mem.knows m (w_inst w) (w_lease w) kn)"

definition logs_ok :: "('r, 'c) saga_registry \<Rightarrow> mem_journal \<Rightarrow> bool" where
  "logs_ok reg m \<longleftrightarrow> (\<forall>i l d. lease_view m i = Some (l, d) \<longrightarrow> log_ordered (steps_of reg d) (log_view m i))"

definition sys_inv :: "('r, 'c) saga_registry \<Rightarrow> safeid set \<Rightarrow> ('r, 'c) sys \<Rightarrow> bool" where
  "sys_inv reg U s \<longleftrightarrow>
     jinv (sys_j s) \<and> logs_ok reg (sys_j s) \<and>
     distinct (map (\<lambda>w. (w_inst w, w_lease w)) (sys_ws s)) \<and>
     (\<forall>w \<in> set (sys_ws s). w_lease w \<in> U \<and> worker_ok reg (sys_j s) w)"

text \<open>One call of one worker: its own invariant, everybody else's, and the logs.\<close>

definition step_keeps ::
  "('r, 'c) saga_registry \<Rightarrow> mem_journal \<Rightarrow> mem_journal \<Rightarrow> ('r, 'c) worker \<Rightarrow> ('r, 'c) prog \<Rightarrow> bool" where
  "step_keeps reg m m' w p \<longleftrightarrow>
     jinv m' \<and> logs_ok reg m' \<and> worker_ok reg m' (w\<lparr>w_prog := p\<rparr>) \<and>
     (\<forall>v. worker_ok reg m v \<longrightarrow> (w_inst v, w_lease v) \<noteq> (w_inst w, w_lease w) \<longrightarrow> worker_ok reg m' v)"

definition worker_at ::
  "('r, 'c) saga_registry \<Rightarrow> mem_journal \<Rightarrow> ('r, 'c) worker \<Rightarrow> safeid \<Rightarrow> sig list option \<Rightarrow> bool" where
  "worker_at reg m w d kn \<longleftrightarrow>
     jinv m \<and> logs_ok reg m \<and> w_lease w \<noteq> [] \<and> (\<exists>l. lease_view m (w_inst w) = Some (l, d)) \<and>
     mem.knows m (w_inst w) (w_lease w) kn"

definition minted :: "sched \<Rightarrow> safeid set" where
  "minted a = (case a of STick cfg locker stopping uuid \<Rightarrow> (case uuid of Inr l \<Rightarrow> {l} | Inl _ \<Rightarrow> {}) | _ \<Rightarrow> {})"

text \<open>The tokens of a schedule are present, and no two claims mint the same one.\<close>

fun fresh_tokens :: "safeid set \<Rightarrow> (instant \<times> sched) list \<Rightarrow> bool" where
  "fresh_tokens U [] = True"
| "fresh_tokens U ((t, a) # as) =
     ([] \<notin> minted a \<and> minted a \<inter> U = {} \<and> fresh_tokens (U \<union> minted a) as)"

text \<open>Whether some run of the tree calls the executor on a forward step.\<close>

primrec runs_forward :: "('r, 'c) prog \<Rightarrow> bool" where
  "runs_forward (Ret r) = False"
| "runs_forward (CNow k) = (\<exists>t. runs_forward (k t))"
| "runs_forward (CLoad j k) = (\<exists>r. runs_forward (k r))"
| "runs_forward (CAppend j l e k) = (\<exists>r. runs_forward (k r))"
| "runs_forward (CMarkTerminal j l s k) = (\<exists>r. runs_forward (k r))"
| "runs_forward (CHeartbeat j l d k) = (\<exists>r. runs_forward (k r))"
| "runs_forward (CExecute dl inst l step pol prev k) = True"
| "runs_forward (CCompensate inst l step payload k) = (\<exists>r. runs_forward (k r))"
| "runs_forward (CCtxErr k) = (\<exists>r. runs_forward (k r))"
| "runs_forward (CCause k) = (\<exists>r. runs_forward (k r))"
| "runs_forward (CEmit topic j step k) = (\<exists>r. runs_forward (k r))"
| "runs_forward (CKick p) = runs_forward p"

definition sample_registry :: "(nat, nat) saga_registry" where
  "sample_registry = [''order'' \<mapsto> sample_definition]"

definition sample_answer :: answer where
  "sample_answer =
     \<lparr>an_exec = \<lparr>er_Outcome = OutcomeSucceeded, er_NewState = [], er_Err = None, er_Attempts = 1\<rparr>,
      an_comp = None, an_ctx = None, an_emit = Inr ()\<rparr>"

definition sample_schedule :: "(instant \<times> sched) list" where
  "sample_schedule =
     [(6, SEnqueue (NewInstance ''s1'' ''order'' 5)),
      (7, STick \<lparr>cfg_PollInterval = 1, cfg_ClaimBatchSize = 4, cfg_LeaseDuration = 20, cfg_HeartbeatInterval = 5\<rparr>
            None False (Inr ''L1'')),
      (8, SRun 0 sample_answer), (8, SRun 0 sample_answer), (9, SRun 0 sample_answer),
      (9, SBeat 0 20), (10, SRun 0 sample_answer), (11, SRun 0 sample_answer)]"

text \<open>The journal seen through the narrow heartbeat interface of the executor.\<close>

definition journal_heartbeater :: "safeid \<Rightarrow> safeid \<Rightarrow> duration \<Rightarrow> mem_journal heartbeater" where
  "journal_heartbeater i l d now m =
     (case Heartbeat m now i l d of Inl e \<Rightarrow> (m, Inl e) | Inr (m', ok) \<Rightarrow> (m', Inr ok))"

text \<open>
  Running a drive to its end with the executor of \<^verbatim>\<open>Saga_Executor\<close> on the same journal: the clock
  reads \<open>now\<close>, the context is not canceled, the outbox accepts. The last component lists the steps
  whose \<^verbatim>\<open>Compensate\<close> was called, in order.
\<close>

primrec drive_run ::
  "(run_fn, comp_fn) prog \<Rightarrow> instant \<Rightarrow> duration \<Rightarrow> mem_journal \<Rightarrow> mem_journal \<times> unit res \<times> safeid list" where
  "drive_run (Ret r) now d m = (m, r, [])"
| "drive_run (CNow k) now d m = drive_run (k now) now d m"
| "drive_run (CLoad i k) now d m = drive_run (k (Load m i)) now d m"
| "drive_run (CAppend i l e k) now d m =
     (case Append m now i l e of
        Inl err \<Rightarrow> drive_run (k (Inl err)) now d m
      | Inr mv \<Rightarrow> drive_run (k (Inr (snd mv))) now d (fst mv))"
| "drive_run (CMarkTerminal i l s k) now d m =
     (case MarkTerminal m now i l s of
        Inl err \<Rightarrow> drive_run (k (Inl err)) now d m
      | Inr mb \<Rightarrow> drive_run (k (Inr (snd mb))) now d (fst mb))"
| "drive_run (CHeartbeat i l x k) now d m =
     (case Heartbeat m now i l x of
        Inl err \<Rightarrow> drive_run (k (Inl err)) now d m
      | Inr mb \<Rightarrow> drive_run (k (Inr (snd mb))) now d (fst mb))"
| "drive_run (CExecute dl inst l step pol prev k) now d m =
     (let rc = executeInner (journal_heartbeater (inst_ID inst) l d) now None m inst step pol prev
      in drive_run (k (fst rc)) now d (xc_hb (fst (snd rc))))"
| "drive_run (CCompensate inst l step payload k) now d m =
     (let out = drive_run (k (Compensate inst step payload)) now d m
      in (fst out, fst (snd out), step_Name step # snd (snd out)))"
| "drive_run (CCtxErr k) now d m = drive_run (k None) now d m"
| "drive_run (CCause k) now d m = drive_run (k None) now d m"
| "drive_run (CEmit topic i step k) now d m = drive_run (k (Inr ())) now d m"
| "drive_run (CKick p) now d m = drive_run p now d m"

text \<open>The instance is leased to \<open>l\<close> until after \<open>now\<close>, in the given status, with no clock skew.\<close>

definition held :: "mem_journal \<Rightarrow> safeid \<Rightarrow> safeid \<Rightarrow> instant \<Rightarrow> saga_instance \<Rightarrow> bool" where
  "held m i l now inst \<longleftrightarrow>
     jinv m \<and> (\<exists>row. find_row m i = Some row \<and> fenced row l now \<and> row_inst row = inst) \<and>
     inst_StartedAt inst \<le> now \<and> (\<forall>t. inst_UpdatedAt inst = Some t \<longrightarrow> t \<le> now)"

text \<open>The steps a walk compensates, in order, with the state each had committed.\<close>

definition undo_list ::
  "(safeid \<rightharpoonup> ('r, 'c) saga_step) \<Rightarrow> committed_step_entry list \<Rightarrow> (('r, 'c) saga_step \<times> bytes) list" where
  "undo_list stepByName cs =
     concat (map (\<lambda>c. case stepByName (cs_name c) of
         None \<Rightarrow> []
       | Some step \<Rightarrow> if step_Compensate step = None then [] else [(step, cs_payload c)]) cs)"

definition undo_sig :: "saga_instance \<Rightarrow> (run_fn, comp_fn) saga_step \<times> bytes \<Rightarrow> sig" where
  "undo_sig inst sp =
     (case Compensate inst (fst sp) (snd sp) of
        None \<Rightarrow> (KindStepCompensated, step_Name (fst sp))
      | Some _ \<Rightarrow> (KindStepCompensationFailed, step_Name (fst sp)))"

text \<open>
  What a rollback of the instance still has to undo, read off its log: the commits from the last one
  back, each with the step of the definition that has its name, unless that step has nothing to undo or
  the log has a compensation outcome for it.
\<close>

definition has_outcome :: "saga_event list \<Rightarrow> safeid \<Rightarrow> bool" where
  "has_outcome events n =
     list_ex (\<lambda>ev. (ev_Kind ev = KindStepCompensated \<or> ev_Kind ev = KindStepCompensationFailed) \<and> ev_StepName ev = n) events"

definition pending_undo ::
  "('r, 'c) saga_definition \<Rightarrow> saga_event list \<Rightarrow> (('r, 'c) saga_step \<times> bytes) list" where
  "pending_undo def events =
     [(step, ev_Payload ev). ev \<leftarrow> rev events, ev_Kind ev = KindStepCompleted, \<not> has_outcome events (ev_StepName ev),
        step \<leftarrow> def_Steps def, step_Name step = ev_StepName ev, step_Compensate step \<noteq> None]"

text \<open>
  The first step commits, the rollback starts, the coordinator crashes, and another one claims the saga
  after the lease has expired.
\<close>

definition rollback_journal :: mem_journal where
  "rollback_journal = journal_after
     [(6, OpEnqueue (NewInstance ''s1'' ''order'' 5)), (10, OpClaimPending (Inr ''L1'') 1 20),
      (12, OpAppend ''s1'' ''L1'' (new_event KindStepCompleted ''reserve'' [])),
      (13, OpAppend ''s1'' ''L1'' (new_event KindCompensationStarted [] [])),
      (60, OpClaimPending (Inr ''L3'') 1 20)]"

definition rollback_instance :: saga_instance where
  "rollback_instance = (NewInstance ''s1'' ''order'' 5)\<lparr>inst_Status := StatusCompensating,
     inst_UpdatedAt := Some 13\<rparr>"

definition undo_definition :: "(run_fn, comp_fn) saga_definition" where
  "undo_definition =
     \<lparr>def_ID = ''order'',
      def_Steps = [\<lparr>step_Name = ''reserve'', step_Run = Some (\<lambda>inst prev n. \<lparr>at_events = [], at_result = RunReturned prev None,
                       at_int64N = (\<lambda>n. 0), at_sleep_events = [], at_slept = True\<rparr>),
                     step_Compensate = Some (\<lambda>inst state. CompReturned (Some (ErrorsNew ''gone''))),
                     step_Timeout = 0, step_RetryPolicy = \<lparr>rp_MaxAttempts = 0, rp_BaseInterval = 0, rp_MaxInterval = 0\<rparr>\<rparr>],
      def_Timeout = 100,
      def_RetryPolicy = \<lparr>rp_MaxAttempts = 2, rp_BaseInterval = 0, rp_MaxInterval = 0\<rparr>\<rparr>"

definition undo_registry :: "(run_fn, comp_fn) saga_registry" where
  "undo_registry = [''order'' \<mapsto> undo_definition]"

section \<open>Lemmas\<close>

subsection \<open>Ordered logs\<close>

lemma completed_append [simp]: "completed (s @ t) = completed s @ completed t"
  by (simp add: completed_def)

lemma undone_append [simp]: "undone (s @ t) = undone s @ undone t"
  by (simp add: undone_def)

lemma log_ordered_Nil [simp]: "log_ordered st []"
  by (simp add: log_ordered_def completed_def undone_def)

lemma log_ordered_neutral:
  "log_ordered st s \<Longrightarrow> fst x \<notin> {KindStepCompleted, KindStepCompensated, KindStepCompensationFailed} \<Longrightarrow>
   log_ordered st (s @ [x])"
proof -
  assume ord: "log_ordered st s" and "fst x \<notin> {KindStepCompleted, KindStepCompensated, KindStepCompensationFailed}"
  then have "completed [x] = []" "undone [x] = []" by (auto simp: completed_def undone_def)
  with ord show ?thesis by (simp add: log_ordered_def)
qed

lemma log_ordered_complete:
  assumes ord: "log_ordered st s" and len: "length (completed s) < length st"
  shows "log_ordered st (s @ [(KindStepCompleted, step_Name (st ! length (completed s)))])"
    (is "log_ordered st ?t")
proof -
  have c: "completed ?t = completed s @ [step_Name (st ! length (completed s))]" and u: "undone ?t = undone s"
    by (simp_all add: completed_def undone_def)
  have "completed s @ [step_Name (st ! length (completed s))] =
      take (Suc (length (completed s))) (map step_Name st)"
    using ord len by (simp add: take_Suc_conv_app_nth log_ordered_def)
  then have "completed ?t = take (length (completed ?t)) (map step_Name st)"
    unfolding c by (metis length_append_singleton)
  moreover have "distinct (undone ?t)" "set (undone ?t) \<subseteq> set (completed ?t)"
    unfolding u c using ord by (auto simp: log_ordered_def)
  ultimately show ?thesis unfolding log_ordered_def by blast
qed

lemma log_ordered_undo:
  assumes "log_ordered st s" and "n \<in> set (completed s)" and "n \<notin> set (undone s)"
    and "k \<in> {KindStepCompensated, KindStepCompensationFailed}"
  shows "log_ordered st (s @ [(k, n)])"
proof -
  have "completed [(k, n)] = []" "undone [(k, n)] = [n]"
    using assms(4) by (auto simp: completed_def undone_def)
  with assms show ?thesis by (simp add: log_ordered_def)
qed

lemma log_ordered_distinct:
  "log_ordered st s \<Longrightarrow> distinct (map step_Name st) \<Longrightarrow> distinct (completed s)"
  unfolding log_ordered_def by (metis distinct_take)

subsection \<open>Replay\<close>

lemma completed_Cons: "completed (x # s) = (if fst x = KindStepCompleted then snd x # completed s else completed s)"
  by (simp add: completed_def)

lemma undone_Cons:
  "undone (x # s) = (if fst x = KindStepCompensated \<or> fst x = KindStepCompensationFailed
     then snd x # undone s else undone s)"
  by (simp add: undone_def)

lemma fold_events_cursor:
  "fold_events_from c p evs = Inr (cursor, prev) \<Longrightarrow> cursor = c + length (completed (map sig_of evs))"
proof (induction evs arbitrary: c p)
  case Nil
  then show ?case by (simp add: completed_def)
next
  case (Cons ev evs)
  from Cons.prems show ?case
    by (cases "ev_Kind ev") (auto simp: completed_Cons sig_of_def [of ev] dest!: Cons.IH)
qed

lemma foldEvents_cursor: "foldEvents evs = Inr (cursor, prev) \<Longrightarrow> cursor = length (completed (map sig_of evs))"
  using fold_events_cursor [of 0 "[]" evs cursor prev] by (simp add: foldEvents_def)

lemma compensated_names_undone: "fst (compensated_names evs) = undone (map sig_of evs)"
proof (induction evs)
  case Nil
  show ?case by (simp add: undone_def)
next
  case (Cons ev evs)
  then show ?case by (simp add: undone_Cons sig_of_def Let_def case_prod_beta)
qed

lemma stepByName_fold:
  "foldl (\<lambda>m s. m(step_Name s \<mapsto> s)) m st n = Some step \<Longrightarrow> m n = Some step \<or> (step \<in> set st \<and> step_Name step = n)"
  by (induction st arbitrary: m) (fastforce split: if_splits)+

lemma collect_committed:
  assumes "collectCommittedSteps evs def = (committed, stepByName, f)"
  shows "map cs_name committed = filter (\<lambda>n. n \<notin> set (undone (map sig_of evs))) (completed (map sig_of evs))"
    and "stepByName n = Some step \<Longrightarrow> step_Name step = n"
proof -
  have "committed = map (\<lambda>ev. \<lparr>cs_name = ev_StepName ev, cs_payload = ev_Payload ev\<rparr>)
      (filter (\<lambda>ev. ev_StepName ev \<notin> set (undone (map sig_of evs)))
        (filter (\<lambda>ev. ev_Kind ev = KindStepCompleted) evs))"
    using assms by (auto simp: collectCommittedSteps_def Let_def case_prod_beta compensated_names_undone)
  then show "map cs_name committed = filter (\<lambda>n. n \<notin> set (undone (map sig_of evs))) (completed (map sig_of evs))"
    by (simp add: completed_def sig_of_def filter_map o_def)
  show "stepByName n = Some step \<Longrightarrow> step_Name step = n"
    using assms stepByName_fold [of Map.empty "def_Steps def" n step]
    by (auto simp: collectCommittedSteps_def Let_def case_prod_beta)
qed

subsection \<open>Every drive is safe\<close>

lemma sig_new_event [simp]: "sig_of (new_event k n p) = (k, n)"
  by (simp add: sig_of_def new_event_def)

lemma safe_markTerminal:
  "i = inst \<Longrightarrow> l = lease \<Longrightarrow> (\<And>r. safe_prog i l st (k r) kn) \<Longrightarrow>
   safe_prog i l st (markTerminal inst lease s k) kn"
  by (auto simp: markTerminal_def split: sum.split)

lemma safe_compensateOneStep:
  assumes ci: "inst_ID (ci_Instance ci) = i" "ci_LeaseID ci = l"
    and ord: "log_ordered st s" and n: "step_Name step \<in> set (completed s)" "step_Name step \<notin> set (undone s)"
    and k1: "\<And>ce. safe_prog i l st (k ce) (Some s)"
    and k2: "\<And>ce kd. kd \<in> {KindStepCompensated, KindStepCompensationFailed} \<Longrightarrow>
      safe_prog i l st (k ce) (Some (s @ [(kd, step_Name step)]))"
  shows "safe_prog i l st (compensateOneStep redact ci step payload k) (Some s)"
  using ci k1 k2 log_ordered_undo [OF ord n]
  by (auto simp: compensateOneStep_def split: option.split)

lemma safe_walk:
  assumes ci: "inst_ID (ci_Instance ci) = i" "ci_LeaseID ci = l"
    and step: "\<And>n step. stepByName n = Some step \<Longrightarrow> step_Name step = n"
    and k: "\<And>errs s'. log_ordered st s' \<Longrightarrow> safe_prog i l st (k errs) (Some s')"
  shows "log_ordered st s \<Longrightarrow> distinct (map cs_name cs) \<Longrightarrow> set (map cs_name cs) \<subseteq> set (completed s) \<Longrightarrow>
    set (map cs_name cs) \<inter> set (undone s) = {} \<Longrightarrow>
    safe_prog i l st (walk_reversed redact ci stepByName cs errs k) (Some s)"
proof (induction cs arbitrary: s errs)
  case Nil
  then show ?case by (simp add: k)
next
  case (Cons c cs)
  have skip: "safe_prog i l st (walk_reversed redact ci stepByName cs errs' k) (Some s)" for errs'
    by (rule Cons.IH) (use Cons.prems in auto)
  have next_: "safe_prog i l st (walk_reversed redact ci stepByName cs errs' k) (Some (s @ [(kd, cs_name c)]))"
    if "kd \<in> {KindStepCompensated, KindStepCompensationFailed}" for errs' kd
  proof (rule Cons.IH)
    show "log_ordered st (s @ [(kd, cs_name c)])"
      by (rule log_ordered_undo) (use Cons.prems that in auto)
    have "completed [(kd, cs_name c)] = []" "undone [(kd, cs_name c)] = [cs_name c]"
      using that by (auto simp: completed_def undone_def)
    with Cons.prems show "set (map cs_name cs) \<subseteq> set (completed (s @ [(kd, cs_name c)]))"
      "set (map cs_name cs) \<inter> set (undone (s @ [(kd, cs_name c)])) = {}" by auto
  qed (use Cons.prems in simp)
  show ?case
  proof (cases "stepByName (cs_name c)")
    case None
    with k Cons.prems(1) skip show ?thesis by simp
  next
    case (Some stp)
    from step [OF Some] have n: "step_Name stp = cs_name c" .
    have "safe_prog i l st (compensateOneStep redact ci stp (cs_payload c) (\<lambda>compensateErr.
        walk_reversed redact ci stepByName cs
          (case compensateErr of Some err \<Rightarrow> errs @ [err] | None \<Rightarrow> errs) k)) (Some s)"
      by (rule safe_compensateOneStep [OF ci Cons.prems(1)]) (use Cons.prems n skip next_ in auto)
    with Some k Cons.prems(1) show ?thesis by simp
  qed
qed

lemma safe_finish:
  assumes "inst_ID (ci_Instance ci) = i" "ci_LeaseID ci = l"
  shows "safe_prog i l st (finish_compensation ci errs walkErr Ret) kn"
  using assms by (auto simp: finish_compensation_def safe_markTerminal split: option.split)

lemma safe_walk_and_finish:
  assumes ci: "inst_ID (ci_Instance ci) = i" "ci_LeaseID ci = l"
    and dist: "distinct (map step_Name st)" and ord: "log_ordered st s"
    and same: "completed s = completed (map sig_of evs)" "undone s = undone (map sig_of evs)"
  shows "safe_prog i l st (walk_and_finish redact d ci def evs Ret) (Some s)"
proof -
  obtain committed stepByName f where c: "collectCommittedSteps evs def = (committed, stepByName, f)"
    by (metis prod_cases3)
  let ?errs = "replicate f (ErrorsNew ''prior compensation failure (not retried)'')"
  have names: "map cs_name committed = filter (\<lambda>n. n \<notin> set (undone s)) (completed s)"
    using collect_committed(1) [OF c] same by simp
  have fin: "safe_prog i l st (CCtxErr (\<lambda>e. CCause (\<lambda>cause.
      finish_compensation ci errs (heartbeat_verdict e cause) Ret))) (Some s')" for errs s'
    using ci by (simp add: safe_finish)
  have "safe_prog i l st (walk_reversed redact ci stepByName (rev committed) ?errs
      (\<lambda>errs. CCtxErr (\<lambda>e. CCause (\<lambda>cause.
         finish_compensation ci errs (heartbeat_verdict e cause) Ret)))) (Some s)"
  proof (rule safe_walk [OF ci _ fin ord])
    show "step_Name step = n" if "stepByName n = Some step" for n step
      by (rule collect_committed(2) [OF c that])
    have "distinct (map cs_name committed)"
      unfolding names by (rule distinct_filter [OF log_ordered_distinct [OF ord dist]])
    then show "distinct (map cs_name (rev committed))" by (simp add: rev_map [symmetric])
    have "set (map cs_name (rev committed)) = set (map cs_name committed)" by simp
    then show "set (map cs_name (rev committed)) \<subseteq> set (completed s)"
      "set (map cs_name (rev committed)) \<inter> set (undone s) = {}" unfolding names by auto
  qed
  then show ?thesis using ci
    by (simp add: walk_and_finish_def c run_with_heartbeat_def reverseWalkCompensate_def Let_def safe_finish)
qed

lemma safe_commitStepInTx:
  assumes "ca_instanceID a = i" "ca_leaseID a = l"
    and "\<And>e. ca_runErr a = Some e \<Longrightarrow> log_ordered st (s @ [(KindStepFailed, step_Name (ca_step a))])"
    and "ca_runErr a = None \<Longrightarrow> log_ordered st (s @ [(KindStepCompleted, step_Name (ca_step a))])"
  shows "safe_prog i l st (commitStepInTx redact a Ret) (Some s)"
  using assms
  by (cases "ca_runErr a")
    (auto simp: commitStepInTx_def commitStep_def commitStepFailed_def commitStepCompleted_def split: sum.split)

lemma safe_runCompensation:
  assumes ci: "inst_ID (ci_Instance ci) = i" "ci_LeaseID ci = l"
    and dist: "distinct (map step_Name st)" and ord: "log_ordered st (map sig_of evs)"
  shows "safe_prog i l st (runCompensation redact d ci def evs trig Ret) (Some (map sig_of evs))"
proof (cases trig)
  case recoveryTrigger
  with safe_walk_and_finish [OF ci dist ord refl refl] show ?thesis by (simp add: runCompensation_def)
next
  case (failureTrigger e)
  let ?s = "map sig_of evs @ [(KindCompensationStarted, [])]"
  have ord': "log_ordered st ?s" by (rule log_ordered_neutral [OF ord]) simp
  have "safe_prog i l st (walk_and_finish redact d ci def evs Ret) (Some ?s)"
    by (rule safe_walk_and_finish [OF ci dist ord']) (simp_all add: completed_def undone_def)
  with ci ord' failureTrigger show ?thesis
    by (auto simp: runCompensation_def appendCompensationStarted_def split: sum.split)
qed

lemma safe_drive_loaded:
  assumes ci: "inst_ID (ci_Instance ci) = i" "ci_LeaseID ci = l"
    and st: "def_Steps def = st" and dist: "distinct (map step_Name st)"
    and ord: "log_ordered st (map sig_of evs)"
  shows "safe_prog i l st (drive_loaded redact d ci def evs) (Some (map sig_of evs))"
proof (cases "inst_Status (ci_Instance ci) = StatusCompensating")
  case True
  with safe_runCompensation [OF ci dist ord] show ?thesis by (simp add: drive_loaded_def)
next
  case False
  show ?thesis
  proof (cases "foldEvents evs")
    case (Inl e)
    with False ci show ?thesis by (simp add: drive_loaded_def safe_markTerminal)
  next
    case (Inr cp)
    obtain cursor prev where cp: "cp = (cursor, prev)" by (cases cp)
    with Inr foldEvents_cursor have cur: "cursor = length (completed (map sig_of evs))" by blast
    show ?thesis
    proof (cases "Definition_Len def \<le> cursor")
      case True
      with False Inr cp ci show ?thesis by (simp add: drive_loaded_def safe_markTerminal)
    next
      case fw: False
      then have len: "length (completed (map sig_of evs)) < length st"
        using cur st by (simp add: Definition_Len_def)
      have ok1: "log_ordered st (map sig_of evs @ [(KindStepCompleted, step_Name (st ! cursor))])"
        using log_ordered_complete [OF ord len] cur by simp
      have ok2: "log_ordered st (map sig_of evs @ [(KindStepFailed, step_Name (st ! cursor))])"
        by (rule log_ordered_neutral [OF ord]) simp
      have "safe_prog i l st (routeOutcome redact d ci def evs cursor (st ! cursor) res Ret) (Some (map sig_of evs))" for res
        using ci ok1 ok2 safe_runCompensation [OF ci dist ord]
        by (cases "er_Outcome res")
          (auto simp: routeOutcome_def Let_def safe_markTerminal intro!: safe_commitStepInTx)
      with False Inr cp fw st show ?thesis by (simp add: drive_loaded_def Let_def)
    qed
  qed
qed

lemma safe_drive_live:
  assumes ci: "inst_ID (ci_Instance ci) = i" "ci_LeaseID ci = l"
    and st: "def_Steps def = st" and dist: "distinct (map step_Name st)"
  shows "safe_prog i l st (drive_live redact d ci def) kn"
  using safe_drive_loaded [OF assms] ci by (simp add: drive_live_def)

lemma safe_driveOne:
  assumes ci: "inst_ID (ci_Instance ci) = i" "ci_LeaseID ci = l"
    and st: "\<And>def. reg (inst_DefinitionID (ci_Instance ci)) = Some def \<Longrightarrow>
      def_Steps def = st \<and> distinct (map step_Name st)"
  shows "safe_prog i l st (driveOne redact reg d ci) None"
proof (cases "reg (inst_DefinitionID (ci_Instance ci))")
  case None
  with ci show ?thesis by (simp add: driveOne_def Registry_Lookup_def safe_markTerminal)
next
  case (Some def)
  with st ci show ?thesis
    by (simp add: driveOne_def Registry_Lookup_def safe_markTerminal safe_drive_live Let_def)
qed

subsection \<open>Any number of coordinators\<close>

lemma log_ordered_terminal:
  "log_ordered st s \<Longrightarrow> EventKind_IsTerminal k \<Longrightarrow> log_ordered st (s @ [(k, n)])"
  by (rule log_ordered_neutral) auto

lemma keeps_stay:
  "worker_at reg m w d kn \<Longrightarrow> safe_prog (w_inst w) (w_lease w) (steps_of reg d) p kn \<Longrightarrow> step_keeps reg m m w p"
  by (auto simp: worker_at_def step_keeps_def worker_ok_def)

lemma keeps_load:
  assumes at: "worker_at reg m w d kn" and ld: "Load m (w_inst w) = Inr evs"
    and k: "log_ordered (steps_of reg d) (map sig_of evs) \<Longrightarrow>
      safe_prog (w_inst w) (w_lease w) (steps_of reg d) p (Some (map sig_of evs))"
  shows "step_keeps reg m m w p"
proof (rule keeps_stay)
  have evs: "map sig_of evs = log_view m (w_inst w)"
    using ld by (auto simp: Load_def log_view_def split: option.splits)
  with at show "worker_at reg m w d (Some (map sig_of evs))" by (simp add: worker_at_def mem.knows_def)
  from at evs have "log_ordered (steps_of reg d) (map sig_of evs)" by (auto simp: worker_at_def logs_ok_def)
  then show "safe_prog (w_inst w) (w_lease w) (steps_of reg d) p (Some (map sig_of evs))" by (rule k)
qed

lemma keeps_append:
  assumes at: "worker_at reg m w d (Some s)" and app: "Append m now (w_inst w) (w_lease w) e = Inr (m', v)"
    and ord: "log_ordered (steps_of reg d) (s @ [sig_of e])"
    and k: "safe_prog (w_inst w) (w_lease w) (steps_of reg d) p (Some (s @ [sig_of e]))"
  shows "step_keeps reg m m' w p"
proof -
  from at have inv: "jinv m" by (simp add: worker_at_def)
  from mem.append_law [OF inv app] have law: "jinv m'" "lease_view m' = lease_view m"
    "log_view m' = (log_view m)(w_inst w := log_view m (w_inst w) @ [sig_of e])" by auto
  from mem.knows_append_own [OF inv app] at have own: "log_view m (w_inst w) = s"
    "mem.knows m' (w_inst w) (w_lease w) (Some (s @ [sig_of e]))" by (auto simp: worker_at_def)
  have "logs_ok reg m'" using at ord own(1) by (auto simp: worker_at_def logs_ok_def law)
  moreover have "worker_ok reg m' (w\<lparr>w_prog := p\<rparr>)"
    using at k own(2) by (auto simp: worker_at_def worker_ok_def law(2))
  moreover have "worker_ok reg m' v"
    if "worker_ok reg m v" "(w_inst v, w_lease v) \<noteq> (w_inst w, w_lease w)" for v
    using that mem.knows_append_other [OF inv app that(2)] by (auto simp: worker_ok_def law(2))
  ultimately show ?thesis using law(1) by (simp add: step_keeps_def)
qed

lemma keeps_mark:
  assumes at: "worker_at reg m w d kn" and mt: "MarkTerminal m now (w_inst w) (w_lease w) st = Inr (m', b)"
    and k: "safe_prog (w_inst w) (w_lease w) (steps_of reg d) p kn"
  shows "step_keeps reg m m' w p"
proof -
  from at have inv: "jinv m" by (simp add: worker_at_def)
  note law = mem.mark_law [OF inv mt]
  have vd: "\<exists>l'. lease_view m' i' = Some (l', d')" if "lease_view m i' = Some (l0, d')" for i' l0 d'
    using law that by auto
  have "logs_ok reg m'"
    using law at by (auto simp: worker_at_def logs_ok_def log_ordered_terminal split: if_splits)
  moreover have "worker_ok reg m' (w\<lparr>w_prog := p\<rparr>)"
    using at vd k mem.knows_mark [OF inv mt] by (fastforce simp: worker_at_def worker_ok_def)
  moreover have "worker_ok reg m' v" if "worker_ok reg m v" for v
    using that vd mem.knows_mark [OF inv mt, of "w_lease v"] unfolding worker_ok_def by fast
  ultimately show ?thesis using law by (simp add: step_keeps_def)
qed

lemma keeps_beat:
  assumes at: "worker_at reg m w d kn" and hb: "Heartbeat m now (w_inst w) (w_lease w) x = Inr (m', b)"
    and k: "safe_prog (w_inst w) (w_lease w) (steps_of reg d) p kn"
  shows "step_keeps reg m m' w p"
proof -
  from at have inv: "jinv m" by (simp add: worker_at_def)
  from mem.beat_law [OF inv hb] have law: "jinv m'" "lease_view m' = lease_view m" "log_view m' = log_view m"
    by auto
  show ?thesis using at k mem.knows_beat [OF inv hb] law
    by (auto simp: worker_at_def step_keeps_def worker_ok_def logs_ok_def)
qed

lemma prog_step_keeps:
  assumes at: "worker_at reg m w d kn" and safe: "safe_prog (w_inst w) (w_lease w) (steps_of reg d) (w_prog w) kn"
    and step: "prog_step now an m (w_prog w) = (m', p)"
  shows "step_keeps reg m m' w p"
proof (cases "w_prog w")
  case (Ret r)
  with step have "m' = m" "p = Ret r" by auto
  with keeps_stay [OF at] show ?thesis by simp
next
  case (CLoad j k)
  with at safe step show ?thesis
    by (cases "Load m j") (auto intro: keeps_stay keeps_load)
next
  case (CAppend j l e k)
  with at safe step show ?thesis
    by (cases "Append m now j l e") (auto intro: keeps_stay keeps_append)
next
  case (CMarkTerminal j l s k)
  with at safe step show ?thesis
    by (cases "MarkTerminal m now j l s") (auto intro: keeps_stay keeps_mark)
next
  case (CHeartbeat j l x k)
  with at safe step show ?thesis
    by (cases "Heartbeat m now j l x") (auto intro: keeps_stay keeps_beat)
qed (use at safe step in \<open>auto intro: keeps_stay\<close>)

lemma worker_ok_at:
  assumes "jinv m" and "logs_ok reg m" and "worker_ok reg m w"
  obtains d kn where "worker_at reg m w d kn" and "safe_prog (w_inst w) (w_lease w) (steps_of reg d) (w_prog w) kn"
  using assms by (auto simp: worker_ok_def worker_at_def)

subsection \<open>The system invariant\<close>

lemma distinct_update_key:
  "n < length xs \<Longrightarrow> f y = f (xs ! n) \<Longrightarrow> map f (xs[n := y]) = map f xs"
  by (metis list_update_id map_update)

lemma inv_run:
  assumes inv: "sys_inv reg U s" and n: "n < length (sys_ws s)"
    and step: "prog_step now an (sys_j s) (w_prog (sys_ws s ! n)) = (m, p)"
  shows "sys_inv reg U (s\<lparr>sys_j := m, sys_ws := (sys_ws s)[n := (sys_ws s ! n)\<lparr>w_prog := p\<rparr>]\<rparr>)"
proof -
  let ?w = "sys_ws s ! n"
  have w: "?w \<in> set (sys_ws s)" using n by simp
  with inv have ok: "worker_ok reg (sys_j s) ?w" "jinv (sys_j s)" "logs_ok reg (sys_j s)"
    by (auto simp: sys_inv_def)
  from worker_ok_at [OF ok(2,3,1)] prog_step_keeps [OF _ _ step] have keeps: "step_keeps reg (sys_j s) m ?w p"
    by metis
  have keys: "map (\<lambda>w. (w_inst w, w_lease w)) ((sys_ws s)[n := ?w\<lparr>w_prog := p\<rparr>]) =
      map (\<lambda>w. (w_inst w, w_lease w)) (sys_ws s)"
    by (rule distinct_update_key [OF n]) simp
  have "w_lease v \<in> U \<and> worker_ok reg m v" if "v \<in> set ((sys_ws s)[n := ?w\<lparr>w_prog := p\<rparr>])" for v
  proof -
    from that obtain k where k: "k < length (sys_ws s)" "v = (sys_ws s)[n := ?w\<lparr>w_prog := p\<rparr>] ! k"
      by (auto simp: in_set_conv_nth)
    show ?thesis
    proof (cases "k = n")
      case True
      with k w inv keeps show ?thesis by (simp add: sys_inv_def step_keeps_def)
    next
      case False
      with k have v: "v = sys_ws s ! k" by simp
      have "(w_inst v, w_lease v) \<noteq> (w_inst ?w, w_lease ?w)"
        using inv False k(1) n v by (auto simp: sys_inv_def distinct_conv_nth)
      with keeps inv v k(1) show ?thesis by (auto simp: sys_inv_def step_keeps_def)
    qed
  qed
  with inv keeps keys show ?thesis by (simp add: sys_inv_def step_keeps_def)
qed

lemma sys_inv_mono: "sys_inv reg U s \<Longrightarrow> U \<subseteq> V \<Longrightarrow> sys_inv reg V s"
  by (auto simp: sys_inv_def)

text \<open>What a claim leaves of the invariants of the logs and of the workers that already run.\<close>

lemma claim_keeps:
  assumes inv: "jinv m" and logs: "logs_ok reg m" and cl: "ClaimPending m now uuid b x = Inr (m', cs, l)"
  shows "jinv m' \<and> logs_ok reg m' \<and>
    (\<forall>v. worker_ok reg m v \<longrightarrow> (cs \<noteq> [] \<longrightarrow> w_lease v \<noteq> l) \<longrightarrow> worker_ok reg m' v)"
proof -
  note law = mem.claim_law [OF inv cl]
  have vd: "\<exists>l'. lease_view m' i = Some (l', d)" if "lease_view m i = Some (l0, d)" for i l0 d
    using law that by auto
  have "logs_ok reg m'"
  proof -
    have "\<exists>l0. lease_view m i = Some (l0, d)" if "lease_view m' i = Some (l', d)" for i l' d
      using law that by (auto split: option.splits)
    with logs law show ?thesis by (fastforce simp: logs_ok_def)
  qed
  moreover have "worker_ok reg m' v" if v: "worker_ok reg m v" and ne: "cs \<noteq> [] \<longrightarrow> w_lease v \<noteq> l" for v
  proof -
    have "mem.knows m' (w_inst v) (w_lease v) kn" if "mem.knows m (w_inst v) (w_lease v) kn" for kn
    proof (cases "cs = []")
      case True
      with law have "lease_view m' (w_inst v) = lease_view m (w_inst v)" by (auto split: option.split)
      with law that show ?thesis by (simp add: mem.knows_def)
    next
      case False
      with ne that mem.knows_claim [OF inv cl] show ?thesis by blast
    qed
    with v vd show ?thesis unfolding worker_ok_def by fast
  qed
  ultimately show ?thesis using law by blast
qed

lemma claim_starts:
  assumes inv: "jinv m" and cl: "ClaimPending m now uuid b x = Inr (m', cs, l)" and c: "c \<in> set cs" and "l \<noteq> []"
    and regok: "\<And>d def. reg d = Some def \<Longrightarrow> distinct (map step_Name (def_Steps def))"
  shows "worker_ok reg m' \<lparr>w_inst = inst_ID (ci_Instance c), w_lease = l, w_prog = driveOne redact reg y c\<rparr>"
proof -
  let ?i = "inst_ID (ci_Instance c)" and ?d = "inst_DefinitionID (ci_Instance c)"
  note law = mem.claim_law [OF inv cl]
  from law c obtain l0 where "lease_view m ?i = Some (l0, ?d)" by blast
  with law c have "lease_view m' ?i = Some (l, ?d)" by auto
  moreover have "safe_prog ?i l (steps_of reg ?d) (driveOne redact reg y c) None"
    by (rule safe_driveOne) (use law c regok in \<open>auto simp: steps_of_def\<close>)
  ultimately show ?thesis using \<open>l \<noteq> []\<close> by (fastforce simp: worker_ok_def mem.knows_def)
qed

lemma inv_tick:
  assumes inv: "sys_inv reg U s" and regok: "\<And>d def. reg d = Some def \<Longrightarrow> distinct (map step_Name (def_Steps def))"
    and fresh: "[] \<notin> minted (STick cfg locker stopping uuid)" "minted (STick cfg locker stopping uuid) \<inter> U = {}"
    and tick: "tickOnce redact reg cfg locker stopping uuid now (sys_j s) = Inr (m, ws)"
  shows "sys_inv reg (U \<union> minted (STick cfg locker stopping uuid)) (s\<lparr>sys_j := m, sys_ws := sys_ws s @ ws\<rparr>)"
proof (cases stopping)
  case True
  with tick inv show ?thesis by (auto simp: tickOnce_def sys_inv_def)
next
  case False
  with tick obtain cs l where cl: "ClaimPending (sys_j s) now uuid (cfg_ClaimBatchSize cfg) (cfg_LeaseDuration cfg) = Inr (m, cs, l)"
    and ws: "ws = map (\<lambda>ci. \<lparr>w_inst = inst_ID (ci_Instance ci), w_lease = ci_LeaseID ci,
        w_prog = driveOne redact reg (cfg_LeaseDuration cfg) ci\<rparr>)
      (filter (\<lambda>ci. acquireLead locker (cfg_LeaseDuration cfg) ci = None) cs)"
    by (auto simp: tickOnce_def split: sum.splits)
  from inv have j: "jinv (sys_j s)" and logs: "logs_ok reg (sys_j s)" by (auto simp: sys_inv_def)
  note law = mem.claim_law [OF j cl]
  have tok: "cs \<noteq> [] \<longrightarrow> l \<noteq> [] \<and> l \<notin> U \<and> minted (STick cfg locker stopping uuid) = {l}"
    using law fresh by (auto simp: minted_def)
  have old: "worker_ok reg m v" if "v \<in> set (sys_ws s)" for v
    using that inv tok claim_keeps [OF j logs cl] by (auto simp: sys_inv_def)
  have start: "worker_ok reg m \<lparr>w_inst = inst_ID (ci_Instance c), w_lease = l,
      w_prog = driveOne redact reg (cfg_LeaseDuration cfg) c\<rparr>" if "c \<in> set cs" "l \<noteq> []" for c
    by (rule claim_starts [OF j cl that regok])
  have new: "w_lease v = l \<and> cs \<noteq> [] \<and> worker_ok reg m v" if "v \<in> set ws" for v
  proof -
    from that obtain c where c: "c \<in> set cs" and v: "v = \<lparr>w_inst = inst_ID (ci_Instance c), w_lease = l,
        w_prog = driveOne redact reg (cfg_LeaseDuration cfg) c\<rparr>"
      using law by (auto simp: ws)
    from c have ne: "cs \<noteq> []" by auto
    with tok start [OF c] v show ?thesis by simp
  qed
  have "distinct (map (\<lambda>w. (w_inst w, w_lease w)) ws)"
  proof -
    have "distinct (map (\<lambda>c. inst_ID (ci_Instance c)) (filter (\<lambda>ci. acquireLead locker (cfg_LeaseDuration cfg) ci = None) cs))"
      using law by (simp add: distinct_map_filter)
    then show ?thesis by (simp add: ws distinct_map inj_on_def)
  qed
  moreover have "(w_inst v, w_lease v) \<noteq> (w_inst w, w_lease w)" if "v \<in> set (sys_ws s)" "w \<in> set ws" for v w
    using that inv new tok by (auto simp: sys_inv_def)
  ultimately have "distinct (map (\<lambda>w. (w_inst w, w_lease w)) (sys_ws s @ ws))"
    using inv by (auto simp: sys_inv_def)
  moreover have "w_lease v \<in> U \<union> minted (STick cfg locker stopping uuid) \<and> worker_ok reg m v"
    if "v \<in> set (sys_ws s @ ws)" for v
    using that inv old new tok by (auto simp: sys_inv_def)
  ultimately show ?thesis using claim_keeps [OF j logs cl] by (simp add: sys_inv_def)
qed

lemma inv_enqueue:
  assumes inv: "sys_inv reg U s" and en: "Enqueue (sys_j s) inst = Inr m"
  shows "sys_inv reg U (s\<lparr>sys_j := m\<rparr>)"
proof -
  from inv have j: "jinv (sys_j s)" by (simp add: sys_inv_def)
  note law = mem_enqueue_law [OF j en]
  have "logs_ok reg m" using law inv by (auto simp: sys_inv_def logs_ok_def)
  moreover have "worker_ok reg m v" if "worker_ok reg (sys_j s) v" for v
    using that law by (force simp: worker_ok_def mem.knows_def)
  ultimately show ?thesis using inv law by (auto simp: sys_inv_def)
qed

lemma inv_beat:
  assumes inv: "sys_inv reg U s" and hb: "Heartbeat (sys_j s) now i l x = Inr (m, b)"
  shows "sys_inv reg U (s\<lparr>sys_j := m\<rparr>)"
proof -
  from inv have j: "jinv (sys_j s)" by (simp add: sys_inv_def)
  from mem.beat_law [OF j hb] inv mem.knows_beat [OF j hb] show ?thesis
    by (auto simp: sys_inv_def logs_ok_def worker_ok_def)
qed

lemma set_drop_nth: "set (drop_nth n xs) \<subseteq> set xs"
  by (auto simp: drop_nth_def dest: in_set_takeD in_set_dropD)

lemma distinct_drop_nth: "distinct (map f xs) \<Longrightarrow> distinct (map f (drop_nth n xs))"
proof -
  assume d: "distinct (map f xs)"
  have "map f xs = map f (take n xs) @ map f (drop n xs)" by (metis append_take_drop_id map_append)
  with d have "distinct (map f (take n xs) @ map f (drop n xs))" by simp
  moreover have "set (map f (drop (Suc n) xs)) \<subseteq> set (map f (drop n xs))"
    using in_set_dropD [of _ 1 "drop n xs"] by auto
  moreover have "distinct (map f (drop (Suc n) xs))" using d by (simp add: drop_map [symmetric])
  ultimately show ?thesis by (auto simp: drop_nth_def)
qed

lemma sys_step_inv:
  assumes inv: "sys_inv reg U s" and regok: "\<And>d def. reg d = Some def \<Longrightarrow> distinct (map step_Name (def_Steps def))"
    and fresh: "[] \<notin> minted a" "minted a \<inter> U = {}"
  shows "sys_inv reg (U \<union> minted a) (sys_step redact reg s now a)"
proof (cases a)
  case (SEnqueue inst)
  with inv inv_enqueue [OF inv] show ?thesis by (auto simp: minted_def split: sum.split)
next
  case (STick cfg locker stopping uuid)
  with sys_inv_mono [OF inv] inv_tick [OF inv regok] fresh show ?thesis
    by (auto split: sum.split)
next
  case (SRun n an)
  with inv inv_run [OF inv] show ?thesis by (auto simp: minted_def Let_def split: prod.split)
next
  case (SBeat n d)
  let ?w = "sys_ws s ! n"
  have "sys_inv reg U (s\<lparr>sys_j := kept (sys_j s) (Heartbeat (sys_j s) now (w_inst ?w) (w_lease ?w) d)\<rparr>)"
    using inv inv_beat [OF inv] by (auto simp: kept_def split: sum.split)
  with SBeat inv show ?thesis by (simp add: minted_def)
next
  case (SCrash n)
  with inv set_drop_nth [of n "sys_ws s"] show ?thesis
    by (auto simp: minted_def sys_inv_def distinct_drop_nth)
qed

lemma sys_exec_inv:
  assumes "sys_inv reg U s" and "\<And>d def. reg d = Some def \<Longrightarrow> distinct (map step_Name (def_Steps def))"
    and "fresh_tokens U as"
  shows "\<exists>V. sys_inv reg V (sys_exec redact reg s as)"
  using assms
proof (induction as arbitrary: s U)
  case (Cons ta as)
  obtain t a where ta: "ta = (t, a)" by (cases ta)
  with Cons.prems(3) have "[] \<notin> minted a" "minted a \<inter> U = {}" and f: "fresh_tokens (U \<union> minted a) as" by auto
  from sys_step_inv [OF Cons.prems(1,2) this(1,2)] Cons.IH [OF _ Cons.prems(2) f] ta show ?case by auto
qed auto

lemma sys_inv_start: "sys_inv reg {} sys_start"
  by (simp add: sys_inv_def sys_start_def jinv_new logs_ok_def lease_view_def) (simp add: NewMemJournal_def find_row_def)

subsection \<open>Compensating instances\<close>

lemma not_forward_markTerminal: "\<not> runs_forward (markTerminal i l s Ret)"
  by (auto simp: markTerminal_def split: sum.splits)

lemma not_forward_walk:
  "(\<And>errs. \<not> runs_forward (k errs)) \<Longrightarrow> \<not> runs_forward (walk_reversed redact ci sbn cs errs k)"
  by (induction cs arbitrary: errs)
    (auto simp: compensateOneStep_def split: if_splits option.splits)

lemma not_forward_finish: "\<not> runs_forward (finish_compensation ci errs e Ret)"
  by (auto simp: finish_compensation_def not_forward_markTerminal split: option.split)

lemma not_forward_compensation: "\<not> runs_forward (walk_and_finish redact d ci def evs Ret)"
proof -
  obtain c s f where c: "collectCommittedSteps evs def = (c, s, f)" by (metis prod_cases3)
  have "\<not> runs_forward (walk_reversed redact ci s cs errs
      (\<lambda>errs. CCtxErr (\<lambda>e. CCause (\<lambda>cause. finish_compensation ci errs (heartbeat_verdict e cause) Ret))))" for cs errs
    by (rule not_forward_walk) (simp add: not_forward_finish)
  then show ?thesis
    by (auto simp: walk_and_finish_def c run_with_heartbeat_def reverseWalkCompensate_def Let_def not_forward_finish
        split: if_splits)
qed

subsection \<open>Properties\<close>

lemma registry_distinct:
  "NewInMemoryRegistry defs = Inr reg \<Longrightarrow> reg d = Some def \<Longrightarrow> distinct (map step_Name (def_Steps def)) \<and> definition_ok def"
proof -
  assume "NewInMemoryRegistry defs = Inr reg" and d: "reg d = Some def"
  then have ok: "\<And>d. Some d \<in> set defs \<Longrightarrow> definition_ok d" and r: "reg = Map.empty ++ map_of (map (\<lambda>d. (def_ID (the d), the d)) defs)"
    and none: "None \<notin> set defs"
    by (auto simp: NewInMemoryRegistry_def register_all_ok)
  from d r have "(d, def) \<in> set (map (\<lambda>d. (def_ID (the d), the d)) defs)" by (auto dest: map_of_SomeD)
  then obtain x where "x \<in> set defs" "def = the x" by auto
  with none ok have "definition_ok def" by (cases x) auto
  then show ?thesis by (simp add: definition_ok_def)
qed

text \<open>
  C9. However many coordinators run, however their calls interleave, whichever of them crash or lose
  their leases and whatever the steps answer, the log of every saga commits the steps of its
  definition in order, each at most once, and records the rollback outcome of a step at most once and
  only for a committed step (provided that random lease tokens do not repeat).
\<close>

theorem saga_steps_commit_in_order:
  assumes "NewInMemoryRegistry defs = Inr reg" and "fresh_tokens {} as"
    and "m = sys_j (sys_exec redact reg sys_start as)"
    and "find_row m i = Some row" and "reg (inst_DefinitionID (row_inst row)) = Some def"
  shows "completed (log_view m i) = take (length (completed (log_view m i))) (map step_Name (def_Steps def)) \<and>
    distinct (completed (log_view m i)) \<and>
    distinct (undone (log_view m i)) \<and> set (undone (log_view m i)) \<subseteq> set (completed (log_view m i))"
proof -
  have regok: "distinct (map step_Name (def_Steps def))" if "reg d = Some def" for d def
    using registry_distinct [OF assms(1) that] by blast
  obtain V where "sys_inv reg V (sys_exec redact reg sys_start as)"
    using sys_exec_inv [OF sys_inv_start _ assms(2), of reg redact] regok by blast
  then have "logs_ok reg m" by (simp add: sys_inv_def assms(3))
  moreover have "lease_view m i = Some (row_leaseID row, inst_DefinitionID (row_inst row))"
    using assms(4) by (simp add: lease_view_def)
  ultimately have "log_ordered (steps_of reg (inst_DefinitionID (row_inst row))) (log_view m i)"
    unfolding logs_ok_def by blast
  then have "log_ordered (def_Steps def) (log_view m i)" using assms(5) by (simp add: steps_of_def)
  with log_ordered_distinct [OF this regok [OF assms(5)]] show ?thesis by (simp add: log_ordered_def)
qed

text \<open>
  A saga that is claimed while rolling back never runs a forward step again, whatever its log
  says and whatever answers the drive gets.
\<close>

lemma compensating_never_runs_forward:
  assumes "inst_Status (ci_Instance ci) = StatusCompensating"
  shows "\<not> runs_forward (driveOne redact reg leaseDuration ci)"
  using assms
  by (auto simp: driveOne_def drive_live_def drive_loaded_def runCompensation_def Let_def
      not_forward_markTerminal not_forward_compensation
      split: option.splits sum.splits)

text \<open>
  The distributed-lock keys of two sagas are equal only for the same definition and instance, even
  though identifiers may contain the separator.
\<close>

lemma lock_key_injective:
  "leaderElectLockKey d i = leaderElectLockKey d' i' \<longleftrightarrow> d = d' \<and> i = i'"
proof
  assume eq: "leaderElectLockKey d i = leaderElectLockKey d' i'"
  have nd: "CHR '':'' \<notin> set (show_nat n)" for n
    using show_nat_digits [of "CHR '':''" n] by (auto simp: is_digit_def)
  from eq have "show_nat (length d) @ CHR '':'' # d @ CHR '':'' # i = show_nat (length d') @ CHR '':'' # d' @ CHR '':'' # i'"
    by (simp add: leaderElectLockKey_def)
  from split_at_sep [OF nd nd this] have "length d = length d'" "d @ CHR '':'' # i = d' @ CHR '':'' # i'"
    using show_nat_inject by auto
  then show "d = d' \<and> i = i'" by simp
qed simp

lemma sample_definition_valid: "Definition_Validate sample_definition = Inr ()"
  by code_simp

lemma sample_registry_built: "NewInMemoryRegistry [Some sample_definition] = Inr sample_registry"
  by (simp add: NewInMemoryRegistry_def sample_definition_valid sample_registry_def)
    (simp add: sample_definition_def)

lemma sample_found:
  "map_option (\<lambda>r. inst_DefinitionID (row_inst r))
     (find_row (sys_j (sys_exec (\<lambda>s. s) sample_registry sys_start sample_schedule)) ''s1'') = Some ''order''"
  by code_simp

lemma sample_log:
  "log_view (sys_j (sys_exec (\<lambda>s. s) sample_registry sys_start sample_schedule)) ''s1'' =
     [(KindStepCompleted, ''reserve'')]"
  by code_simp

theorem saga_steps_commit_in_order_witness:
  "completed (log_view (sys_j (sys_exec (\<lambda>s. s) sample_registry sys_start sample_schedule)) ''s1'') =
     take 1 (map step_Name (def_Steps sample_definition))"
proof -
  from sample_found obtain row where row:
    "find_row (sys_j (sys_exec (\<lambda>s. s) sample_registry sys_start sample_schedule)) ''s1'' = Some row"
    "inst_DefinitionID (row_inst row) = ''order''" by auto
  have "fresh_tokens {} sample_schedule" by (simp add: sample_schedule_def minted_def)
  moreover have "sample_registry (inst_DefinitionID (row_inst row)) = Some sample_definition"
    by (simp add: row(2) sample_registry_def)
  ultimately show ?thesis
    using saga_steps_commit_in_order [OF sample_registry_built _ refl row(1)]
    by (simp add: sample_log completed_def)
qed

subsection \<open>One coordinator, not interrupted\<close>

subsection \<open>Payloads are accepted\<close>

lemma trim_object: "bytes_TrimSpace (CHR ''{'' # xs @ [CHR ''}'']) = CHR ''{'' # xs @ [CHR ''}'']"
  by (simp add: bytes_TrimSpace_def ascii_space_def)

lemma one_field_object:
  assumes "\<forall>c \<in> set name. plain_char c"
  shows "validateObjectOrNull (json_one_field name v) = Inr ()"
proof -
  let ?xs = "[CHR 0x22] @ name @ [CHR 0x22] @ [CHR '':''] @ json_quote v"
  have xs: "json_one_field name v = CHR ''{'' # ?xs @ [CHR ''}'']" by (simp add: json_one_field_def)
  show ?thesis
    using json_one_field_valid [OF assms, of v] trim_object [of ?xs]
    unfolding xs validateObjectOrNull_def by (simp del: append_Cons append_assoc)
qed

lemma one_field_length: "length (json_one_field name v) \<le> 6 * length v + length name + 7"
  using json_escape_length [of v] by (simp add: json_one_field_def json_quote_def)

lemma failurePayload_reason: "\<exists>v. failurePayload redact e = json_one_field ''reason'' v \<and> length v \<le> 256"
  by (auto simp: failurePayload_def Let_def)

lemma plain_names: "\<forall>c \<in> set ''reason''. plain_char c" "\<forall>c \<in> set ''step''. plain_char c"
  by (simp_all add: plain_char_def)

lemma failurePayload_accepted:
  "validateObjectOrNull (failurePayload redact e) = Inr () \<and> length (failurePayload redact e) \<le> MaxPayloadBytes"
proof -
  obtain v where v: "failurePayload redact e = json_one_field ''reason'' v" "length v \<le> 256"
    using failurePayload_reason by blast
  have "length (json_one_field ''reason'' v) \<le> MaxPayloadBytes"
    using one_field_length [of "''reason''" v] v(2) by (simp add: MaxPayloadBytes_def)
  with v(1) one_field_object [OF plain_names(1)] show ?thesis by simp
qed

lemma step_payload_accepted:
  "length v \<le> 256 \<Longrightarrow> validateObjectOrNull (json_one_field ''step'' v) = Inr () \<and>
     length (json_one_field ''step'' v) \<le> MaxPayloadBytes"
  using one_field_object [OF plain_names(2), of v] one_field_length [of "''step''" v]
  by (simp add: MaxPayloadBytes_def)

subsection \<open>An uninterrupted rollback\<close>

lemma held_append_undo:
  assumes h: "held m i l now inst" and st: "inst_Status inst = StatusCompensating"
    and k: "k \<in> {KindStepCompensated, KindStepCompensationFailed}" and n: "safe_id n"
    and p: "validateObjectOrNull p = Inr ()" "length p \<le> MaxPayloadBytes"
  shows "\<exists>m' v. Append m now i l (new_event k n p) = Inr (m', v) \<and> held m' i l now inst \<and>
    log_view m' = (log_view m)(i := log_view m i @ [(k, n)])"
proof -
  from h obtain row where row: "find_row m i = Some row" "fenced row l now" "row_inst row = inst" and inv: "jinv m"
    by (auto simp: held_def)
  have "ValidateForAppend (new_event k n p) = Inr ()"
  proof -
    from n have "SafeID_Validate n = Inr ()" "n \<noteq> []" by (simp_all add: SafeID_Validate_ok) (simp add: safe_id_def)
    with k p show ?thesis by (auto simp: ValidateForAppend_def new_event_def validateStepName_def)
  qed
  moreover have "applyProjection row (ev_Kind (new_event k n p)) now = Inr row"
    using k st row(3) by (auto simp: applyProjection_def new_event_def)
  ultimately obtain m' v where app: "Append m now i l (new_event k n p) = Inr (m', v)"
    and m': "m' = logged m i row ((new_event k n p)\<lparr>ev_Version := 0, ev_GlobalSeq := 0, ev_CreatedAt := now\<rparr>)"
    using row by (auto simp: Append_ok)
  have "held m' i l now inst"
    using h row jinv_Append [OF inv app] by (auto simp: held_def m' logged_fields fenced_iff)
  with app mem.append_law [OF inv app] show ?thesis by auto
qed

lemma held_beat:
  assumes "held m i l now inst" and "0 < d"
  shows "\<exists>m'. Heartbeat m now i l d = Inr (m', True) \<and> held m' i l now inst \<and> log_view m' = log_view m"
proof -
  from assms obtain row where row: "find_row m i = Some row" "fenced row l now" "row_inst row = inst" and inv: "jinv m"
    by (auto simp: held_def)
  define m' where "m' = put_row m i (row\<lparr>row_leaseExpiresAt := now + d\<rparr>)"
  have hb: "Heartbeat m now i l d = Inr (m', True)"
    using row assms(2) by (simp add: Heartbeat_def m'_def)
  with assms row jinv_Heartbeat [OF inv hb] mem_beat_law [OF inv hb] show ?thesis
    by (auto simp: held_def m'_def fenced_iff)
qed

lemma held_mark:
  assumes "held m i l now inst" and "terminal_status k = Some s"
    and "s \<in> set (saga_statusTransitions (inst_Status inst))"
  shows "\<exists>m' row. MarkTerminal m now i l s = Inr (m', True) \<and> find_row m' i = Some row \<and>
    inst_Status (row_inst row) = s \<and> log_view m' = (log_view m)(i := log_view m i @ [(k, [])])"
proof -
  from assms obtain row where row: "find_row m i = Some row" "fenced row l now" "row_inst row = inst"
    by (auto simp: held_def)
  obtain inst' where adv: "AdvanceSaga (Some (row_inst row)) s now = Inr inst'" "inst_Status inst' = s"
    using assms row(3) by (auto simp: held_def AdvanceSaga_ok)
  show ?thesis
    using MarkTerminal_wins [OF row(1,2) assms(2) adv(1)] adv(2)
    by (auto simp: logged_fields log_view_def sig_of_def terminal_event_def)
qed

lemma undo_list_simps [simp]:
  "undo_list sbn [] = []"
  "undo_list sbn (c # cs) = (case sbn (cs_name c) of
         None \<Rightarrow> []
       | Some step \<Rightarrow> if step_Compensate step = None then [] else [(step, cs_payload c)]) @ undo_list sbn cs"
  by (simp_all add: undo_list_def)

lemma run_one_undo:
  assumes h: "held m i l now inst" and st: "inst_Status inst = StatusCompensating"
    and i: "inst_ID inst = i" and n: "safe_id (step_Name step)" and c: "step_Compensate step \<noteq> None"
  shows "\<exists>m'. held m' i l now inst \<and>
    log_view m' = (log_view m)(i := log_view m i @ [undo_sig inst (step, p)]) \<and>
    drive_run (compensateOneStep redact \<lparr>ci_Instance = inst, ci_LeaseID = l\<rparr> step p k) now d m =
      (let out = drive_run (k (Compensate inst step p)) now d m'
       in (fst out, fst (snd out), step_Name step # snd (snd out)))"
proof (cases "Compensate inst step p")
  case None
  have "length (step_Name step) \<le> 256" using n by (simp add: safe_id_def MaxMetadataIDLen_def)
  from step_payload_accepted [OF this] obtain m' v where
    "Append m now i l (new_event KindStepCompensated (step_Name step) (json_one_field ''step'' (step_Name step))) = Inr (m', v)"
    "held m' i l now inst" "log_view m' = (log_view m)(i := log_view m i @ [(KindStepCompensated, step_Name step)])"
    using held_append_undo [OF h st _ n, of KindStepCompensated] by blast
  with None c i show ?thesis by (auto simp: compensateOneStep_def undo_sig_def Let_def)
next
  case (Some err)
  from failurePayload_accepted obtain m' v where
    "Append m now i l (new_event KindStepCompensationFailed (step_Name step) (failurePayload redact err)) = Inr (m', v)"
    "held m' i l now inst" "log_view m' = (log_view m)(i := log_view m i @ [(KindStepCompensationFailed, step_Name step)])"
    using held_append_undo [OF h st _ n, of KindStepCompensationFailed] by blast
  with Some c i show ?thesis by (auto simp: compensateOneStep_def undo_sig_def Let_def)
qed

lemma run_walk:
  assumes st: "inst_Status inst = StatusCompensating" and i: "inst_ID inst = i"
    and names: "\<forall>n step. sbn n = Some step \<longrightarrow> safe_id (step_Name step)"
  shows "held m i l now inst \<Longrightarrow> \<exists>m'. held m' i l now inst \<and>
    log_view m' = (log_view m)(i := log_view m i @ map (undo_sig inst) (undo_list sbn cs)) \<and>
    drive_run (walk_reversed redact \<lparr>ci_Instance = inst, ci_LeaseID = l\<rparr> sbn cs errs k) now d m =
      (let out = drive_run (k (errs @ List.map_filter (\<lambda>sp. Compensate inst (fst sp) (snd sp)) (undo_list sbn cs))) now d m'
       in (fst out, fst (snd out), map (step_Name \<circ> fst) (undo_list sbn cs) @ snd (snd out)))"
proof (induction cs arbitrary: m errs)
  case Nil
  then show ?case by (auto simp: map_filter_simps Let_def)
next
  case (Cons c cs)
  show ?case
  proof (cases "\<exists>step. sbn (cs_name c) = Some step \<and> step_Compensate step \<noteq> None")
    case False
    then have "undo_list sbn (c # cs) = undo_list sbn cs" by (auto split: option.split)
    moreover have "drive_run (walk_reversed redact \<lparr>ci_Instance = inst, ci_LeaseID = l\<rparr> sbn (c # cs) errs k) now d m =
        drive_run (walk_reversed redact \<lparr>ci_Instance = inst, ci_LeaseID = l\<rparr> sbn cs errs k) now d m"
      using False by (auto simp: compensateOneStep_def split: option.split)
    ultimately show ?thesis using Cons.IH [OF Cons.prems, of errs] by (simp only:)
  next
    case True
    then obtain step where s: "sbn (cs_name c) = Some step" "step_Compensate step \<noteq> None" by blast
    let ?u = "(step, cs_payload c)" and ?e = "Compensate inst step (cs_payload c)"
    let ?k = "\<lambda>ce. walk_reversed redact \<lparr>ci_Instance = inst, ci_LeaseID = l\<rparr> sbn cs
      (case ce of Some err \<Rightarrow> errs @ [err] | None \<Rightarrow> errs) k"
    from run_one_undo [OF Cons.prems st i names [rule_format, OF s(1)] s(2), of "cs_payload c" redact ?k d] obtain m1
      where m1: "held m1 i l now inst" "log_view m1 = (log_view m)(i := log_view m i @ [undo_sig inst ?u])"
      and run: "drive_run (compensateOneStep redact \<lparr>ci_Instance = inst, ci_LeaseID = l\<rparr> step (cs_payload c) ?k) now d m =
        (let out = drive_run (?k ?e) now d m1 in (fst out, fst (snd out), step_Name step # snd (snd out)))"
      by blast
    from Cons.IH [OF m1(1), of "case ?e of Some err \<Rightarrow> errs @ [err] | None \<Rightarrow> errs"] obtain m2
      where "held m2 i l now inst"
        "log_view m2 = (log_view m1)(i := log_view m1 i @ map (undo_sig inst) (undo_list sbn cs))"
        "drive_run (?k ?e) now d m1 = (let out = drive_run (k ((case ?e of Some err \<Rightarrow> errs @ [err] | None \<Rightarrow> errs) @
            List.map_filter (\<lambda>sp. Compensate inst (fst sp) (snd sp)) (undo_list sbn cs))) now d m2
          in (fst out, fst (snd out), map (step_Name \<circ> fst) (undo_list sbn cs) @ snd (snd out)))" by blast
    moreover have "undo_list sbn (c # cs) = ?u # undo_list sbn cs" using s by simp
    ultimately show ?thesis
      using run s m1(2)
      by (intro exI [of _ m2]) (cases ?e; simp add: Let_def map_filter_simps del: undo_list_simps)
  qed
qed

lemma compensated_names_failures:
  "snd (compensated_names evs) = length (filter (\<lambda>x. fst x = KindStepCompensationFailed) (map sig_of evs))"
  by (induction evs) (simp_all add: Let_def case_prod_beta sig_of_def)

lemma collect_step_names:
  assumes "collectCommittedSteps evs def = (committed, sbn, f)" and "definition_ok def"
  shows "\<forall>n step. sbn n = Some step \<longrightarrow> safe_id (step_Name step)"
proof (intro allI impI)
  fix n step
  assume "sbn n = Some step"
  then have "step \<in> set (def_Steps def)"
    using assms stepByName_fold [of Map.empty "def_Steps def" n step]
    by (auto simp: collectCommittedSteps_def Let_def case_prod_beta)
  with assms(2) show "safe_id (step_Name step)" by (auto simp: definition_ok_def step_ok_def)
qed

lemma stepByName_find:
  fixes st :: "('r, 'c) saga_step list"
  assumes "distinct (map step_Name st)"
  shows "foldl (\<lambda>m s. m(step_Name s \<mapsto> s)) Map.empty st n = find (\<lambda>s. step_Name s = n) st"
proof -
  have "foldl (\<lambda>m s. m(step_Name s \<mapsto> s)) m st n =
      (case find (\<lambda>s. step_Name s = n) st of Some s \<Rightarrow> Some s | None \<Rightarrow> m n)" for m
    using assms
  proof (induction st arbitrary: m)
    case (Cons s st)
    have "find (\<lambda>s. step_Name s = n) st = None" if "step_Name s = n"
      unfolding find_None_iff using that Cons.prems by (force simp: image_iff)
    with Cons show ?case by (auto split: option.split)
  qed simp
  then show ?thesis by (simp split: option.split)
qed

lemma steps_with_name:
  assumes "distinct (map step_Name st)"
  shows "concat (map (\<lambda>s. if step_Name s = n then if step_Compensate s \<noteq> None then [(s, p)] else [] else []) st) =
    (case find (\<lambda>s. step_Name s = n) st of
       None \<Rightarrow> [] | Some s \<Rightarrow> if step_Compensate s = None then [] else [(s, p)])"
  using assms
proof (induction st)
  case (Cons s st)
  have "concat (map (\<lambda>s. if step_Name s = n then if step_Compensate s \<noteq> None then [(s, p)] else [] else []) st) = []"
    if "step_Name s = n"
  proof -
    have "step_Name t \<noteq> n" if "t \<in> set st" for t using that Cons.prems \<open>step_Name s = n\<close> by (force simp: image_iff)
    then show ?thesis by simp
  qed
  with Cons show ?case by auto
qed simp

lemma collect_pending_undo:
  assumes "collectCommittedSteps evs def = (committed, sbn, f)" and "definition_ok def"
  shows "pending_undo def evs = undo_list sbn (rev committed)"
proof -
  have d: "distinct (map step_Name (def_Steps def))" using assms(2) by (simp add: definition_ok_def)
  have u: "has_outcome es n \<longleftrightarrow> n \<in> set (fst (compensated_names es))" for es n
    by (induction es) (auto simp: has_outcome_def Let_def case_prod_beta)
  have sbn: "sbn n = find (\<lambda>s. step_Name s = n) (def_Steps def)" for n
    using assms(1) stepByName_find [OF d] by (auto simp: collectCommittedSteps_def Let_def case_prod_beta)
  have c: "committed = map (\<lambda>ev. \<lparr>cs_name = ev_StepName ev, cs_payload = ev_Payload ev\<rparr>)
      (filter (\<lambda>ev. \<not> has_outcome evs (ev_StepName ev)) (filter (\<lambda>ev. ev_Kind ev = KindStepCompleted) evs))"
    using assms(1) by (auto simp: collectCommittedSteps_def Let_def case_prod_beta u)
  define g where "g ev = (case sbn (ev_StepName ev) of
      None \<Rightarrow> [] | Some s \<Rightarrow> if step_Compensate s = None then [] else [(s, ev_Payload ev)])" for ev :: saga_event
  have filt: "concat (map (\<lambda>ev. if ev_Kind ev = KindStepCompleted then if \<not> Q (ev_StepName ev) then g ev else [] else []) es) =
      concat (map g (filter (\<lambda>ev. \<not> Q (ev_StepName ev)) (filter (\<lambda>ev. ev_Kind ev = KindStepCompleted) es)))" for Q es
    by (induction es) auto
  have "pending_undo def evs = concat (map (\<lambda>ev. if ev_Kind ev = KindStepCompleted
      then if \<not> has_outcome evs (ev_StepName ev) then g ev else [] else []) (rev evs))"
    by (simp only: pending_undo_def g_def sbn steps_with_name [OF d])
  also have "\<dots> = concat (map g (rev (filter (\<lambda>ev. \<not> has_outcome evs (ev_StepName ev))
      (filter (\<lambda>ev. ev_Kind ev = KindStepCompleted) evs))))"
    by (simp only: filt rev_filter [symmetric])
  also have "\<dots> = undo_list sbn (rev committed)"
    unfolding undo_list_def c rev_map map_map
    by (intro arg_cong [where f = concat] map_cong refl) (simp add: g_def split: option.split)
  finally show ?thesis .
qed

lemma undo_failures:
  "List.map_filter (\<lambda>sp. Compensate inst (fst sp) (snd sp)) us = [] \<longleftrightarrow>
   filter (\<lambda>x. fst x = KindStepCompensationFailed) (map (undo_sig inst) us) = []"
  by (induction us) (auto simp: map_filter_simps undo_sig_def split: option.splits)

lemma run_finish:
  assumes "held m i l now inst" and "inst_Status inst = StatusCompensating" and "inst_ID inst = i"
  shows "\<exists>m' row. drive_run (finish_compensation \<lparr>ci_Instance = inst, ci_LeaseID = l\<rparr> errs None Ret) now d m = (m', Inr (), []) \<and>
    find_row m' i = Some row \<and>
    inst_Status (row_inst row) = (if errs = [] then StatusCompensated else StatusCompensationFailed) \<and>
    log_view m' = (log_view m)(i := log_view m i @
      [(if errs = [] then KindSagaCompensated else KindSagaCompensationFailed, [])])"
  using held_mark [OF assms(1), of "if errs = [] then KindSagaCompensated else KindSagaCompensationFailed"
      "if errs = [] then StatusCompensated else StatusCompensationFailed"] assms(2,3)
  by (auto simp: finish_compensation_def IsLeaseLost_def markTerminal_def split: if_splits)

lemma run_rollback:
  assumes h: "held m i l now inst" and st: "inst_Status inst = StatusCompensating" and i: "inst_ID inst = i"
    and ok: "definition_ok def" and d: "0 < d"
    and T: "T = pending_undo def (j_events m i)" and L: "L = log_view m i @ map (undo_sig inst) T"
  shows "\<exists>m' row. drive_run (walk_and_finish redact d \<lparr>ci_Instance = inst, ci_LeaseID = l\<rparr> def (j_events m i) Ret) now d m =
      (m', Inr (), map (step_Name \<circ> fst) T) \<and> find_row m' i = Some row \<and>
    (let clean = (\<forall>x \<in> set L. fst x \<noteq> KindStepCompensationFailed) in
     inst_Status (row_inst row) = (if clean then StatusCompensated else StatusCompensationFailed) \<and>
     log_view m' i = L @ [(if clean then KindSagaCompensated else KindSagaCompensationFailed, [])])"
proof -
  let ?ci = "\<lparr>ci_Instance = inst, ci_LeaseID = l\<rparr>"
  obtain committed sbn f where c: "collectCommittedSteps (j_events m i) def = (committed, sbn, f)"
    by (metis prod_cases3)
  then have T': "T = undo_list sbn (rev committed)" and f: "f = snd (compensated_names (j_events m i))"
    using collect_pending_undo [OF c ok] by (auto simp: T collectCommittedSteps_def Let_def case_prod_beta)
  define errs0 where "errs0 = replicate f (ErrorsNew ''prior compensation failure (not retried)'')"
  let ?errs = "errs0 @ List.map_filter (\<lambda>sp. Compensate inst (fst sp) (snd sp)) T"
  let ?k = "\<lambda>errs. CCtxErr (\<lambda>e. CCause (\<lambda>cause. finish_compensation ?ci errs (heartbeat_verdict e cause) Ret))"
  obtain m0 where hb: "Heartbeat m now i l d = Inr (m0, True)" "held m0 i l now inst" "log_view m0 = log_view m"
    using held_beat [OF h d] by blast
  obtain m1 where m1: "held m1 i l now inst"
      "log_view m1 = (log_view m0)(i := log_view m0 i @ map (undo_sig inst) T)"
      "drive_run (walk_reversed redact ?ci sbn (rev committed) errs0 ?k) now d m0 =
        (let out = drive_run (?k ?errs) now d m1 in (fst out, fst (snd out), map (step_Name \<circ> fst) T @ snd (snd out)))"
    using run_walk [where sbn = sbn and cs = "rev committed" and redact = redact and errs = errs0 and k = ?k and d = d,
        OF st i collect_step_names [OF c ok] hb(2)]
    unfolding T' by blast
  have empty: "?errs = [] \<longleftrightarrow> (\<forall>x \<in> set L. fst x \<noteq> KindStepCompensationFailed)"
    using undo_failures [of inst T] compensated_names_failures [of "j_events m i"]
    by (auto simp: L errs0_def f log_view_def filter_empty_conv)
  obtain m2 row where fin: "drive_run (finish_compensation ?ci ?errs None Ret) now d m1 = (m2, Inr (), [])"
      "find_row m2 i = Some row"
      "inst_Status (row_inst row) = (if ?errs = [] then StatusCompensated else StatusCompensationFailed)"
      "log_view m2 = (log_view m1)(i := log_view m1 i @
        [(if ?errs = [] then KindSagaCompensated else KindSagaCompensationFailed, [])])"
    using run_finish [OF m1(1) st i, of ?errs d] by blast
  have "drive_run (walk_and_finish redact d ?ci def (j_events m i) Ret) now d m = (m2, Inr (), map (step_Name \<circ> fst) T)"
    using hb(1) i m1(3) fin(1)
    by (simp add: walk_and_finish_def c run_with_heartbeat_def reverseWalkCompensate_def errs0_def [symmetric] Let_def
        heartbeat_verdict_def IsLeaseLost_def)
  moreover have "log_view m1 i = L" using m1(2) hb(3) by (simp add: L)
  ultimately show ?thesis using fin(2-4) unfolding empty by (simp add: Let_def)
qed

subsection \<open>Properties of one drive\<close>

text \<open>
  C10. A coordinator that claims a saga in rollback and is not interrupted finishes it in that drive: it
  calls \<^verbatim>\<open>Compensate\<close> once for each committed step that can be undone and has no outcome yet, last
  committed first, with the state the step committed; it logs every outcome; a failing compensation
  does not stop the walk; the saga ends \<^verbatim>\<open>compensated\<close> if the whole log has no failed compensation and
  \<^verbatim>\<open>compensation_failed\<close> otherwise.
\<close>

theorem rollback_runs_to_the_end:
  assumes "NewInMemoryRegistry defs = Inr reg" and "reg (inst_DefinitionID inst) = Some def"
    and "held m i l now inst" and "inst_ID inst = i" and "inst_Status inst = StatusCompensating"
    and "0 < d" and "def_Timeout def = 0 \<or> time_Sub now (inst_StartedAt inst) \<le> def_Timeout def"
    and "T = pending_undo def (j_events m i)" and "L = log_view m i @ map (undo_sig inst) T"
  shows "\<exists>m' row. drive_run (driveOne redact reg d \<lparr>ci_Instance = inst, ci_LeaseID = l\<rparr>) now d m =
      (m', Inr (), map (step_Name \<circ> fst) T) \<and> find_row m' i = Some row \<and>
    (let clean = (\<forall>x \<in> set L. fst x \<noteq> KindStepCompensationFailed) in
     inst_Status (row_inst row) = (if clean then StatusCompensated else StatusCompensationFailed) \<and>
     log_view m' i = L @ [(if clean then KindSagaCompensated else KindSagaCompensationFailed, [])])"
proof -
  have "definition_ok def" using registry_distinct [OF assms(1,2)] by blast
  moreover have "Load m i = Inr (j_events m i)" using assms(3) by (auto simp: held_def Load_def)
  ultimately show ?thesis
    using run_rollback [OF assms(3,5,4) _ assms(6,8,9), of redact] assms(2,4,5,7)
    by (auto simp: driveOne_def drive_live_def drive_loaded_def runCompensation_def Registry_Lookup_def)
qed

text \<open>
  C11. A saga in rollback whose definition is no longer registered is stuck: the drive asks for the
  terminal status \<^verbatim>\<open>failed\<close>, which is not reachable from \<^verbatim>\<open>compensating\<close>, so the drive returns an
  error, the journal is unchanged, and the next claim does the same.
\<close>

theorem unregistered_rollback_is_stuck:
  assumes "held m i l now inst" and "inst_ID inst = i" and "inst_Status inst = StatusCompensating"
    and "reg (inst_DefinitionID inst) = None"
  shows "\<exists>err. drive_run (driveOne redact reg d \<lparr>ci_Instance = inst, ci_LeaseID = l\<rparr>) now d m = (m, Inl err, [])"
proof -
  from assms(1) obtain row where row: "find_row m i = Some row" "fenced row l now" "row_inst row = inst"
    by (auto simp: held_def)
  then have "\<exists>err. MarkTerminal m now i l StatusFailed = Inl err"
    using assms(3)
    by (auto simp: MarkTerminal_def AdvanceSaga_def saga_Transition_def saga_CanTransitionTo_def
        CanTransition_def res_simps)
  with assms(2,4) show ?thesis
    by (auto simp: driveOne_def markTerminal_def Registry_Lookup_def)
qed

subsection \<open>A sample rollback\<close>

lemma rollback_journal_row:
  "map_option row_inst (find_row rollback_journal ''s1'') = Some rollback_instance"
  "map_option (\<lambda>r. fenced r ''L3'' 61) (find_row rollback_journal ''s1'') = Some True"
  "map sig_of (j_events rollback_journal ''s1'') = [(KindStepCompleted, ''reserve''), (KindCompensationStarted, [])]"
  by code_simp+

lemma rollback_held: "held rollback_journal ''s1'' ''L3'' 61 rollback_instance"
proof -
  have "jinv rollback_journal" unfolding rollback_journal_def by (rule jinv_jexec [OF jinv_new])
  then show ?thesis
    using rollback_journal_row(1,2) by (auto simp: held_def rollback_instance_def NewInstance_def)
qed

lemma undo_registry_built: "NewInMemoryRegistry [Some undo_definition] = Inr undo_registry"
proof -
  have "definition_ok undo_definition"
    by (simp add: definition_ok_def undo_definition_def step_ok_def retry_policy_ok_def safe_id_def safe_char_def
        MaxMetadataIDLen_def char_between_def)
  then have "Definition_Validate undo_definition = Inr ()" by (simp add: Definition_Validate_ok)
  moreover have "def_ID undo_definition = ''order''" by (simp add: undo_definition_def)
  ultimately show ?thesis by (simp add: NewInMemoryRegistry_def undo_registry_def)
qed

lemma rollback_pending:
  "map (step_Name \<circ> fst) (pending_undo undo_definition (j_events rollback_journal ''s1'')) = [''reserve'']"
  "map (undo_sig inst) (pending_undo undo_definition (j_events rollback_journal ''s1'')) =
     [(KindStepCompensationFailed, ''reserve'')]"
  using rollback_journal_row(3)
  by (auto simp: map_eq_Cons_conv sig_of_def pending_undo_def has_outcome_def undo_definition_def
      undo_sig_def Compensate_def safeRunCompensate_def)

theorem rollback_runs_to_the_end_witness:
  "\<exists>m' row. drive_run (driveOne (\<lambda>s. s) undo_registry 20
        \<lparr>ci_Instance = rollback_instance, ci_LeaseID = ''L3''\<rparr>) 61 20 rollback_journal = (m', Inr (), [''reserve'']) \<and>
     find_row m' ''s1'' = Some row \<and> inst_Status (row_inst row) = StatusCompensationFailed"
proof -
  have r: "undo_registry (inst_DefinitionID rollback_instance) = Some undo_definition"
      "inst_ID rollback_instance = ''s1''" "inst_Status rollback_instance = StatusCompensating"
    by (simp_all add: rollback_instance_def NewInstance_def undo_registry_def)
  have "time_Sub 61 (inst_StartedAt rollback_instance) \<le> def_Timeout undo_definition"
    by (simp add: rollback_instance_def NewInstance_def undo_definition_def time_Sub_def min_i64_def max_i64_def)
  from rollback_runs_to_the_end [OF undo_registry_built r(1) rollback_held r(2,3) _ disjI2 [OF this] refl refl,
      where d = 20 and redact = "\<lambda>s. s"]
  show ?thesis by (simp add: rollback_pending Let_def) blast
qed

theorem unregistered_rollback_is_stuck_witness:
  "\<exists>err. drive_run (driveOne (\<lambda>s. s) Map.empty 20 \<lparr>ci_Instance = rollback_instance, ci_LeaseID = ''L3''\<rparr>)
     61 20 rollback_journal = (rollback_journal, Inl err, [])"
  by (rule unregistered_rollback_is_stuck [OF rollback_held])
    (simp_all add: rollback_instance_def NewInstance_def)

end
