(* ===== verification/Metadata_Limits.thy ===== *)
theory Metadata_Limits
  imports Gocell_Prelude "HOL-Library.Multiset"
begin

text \<open>
  The metadata size limits of \<^verbatim>\<open>framework/kernel/metautil/limits.go\<close>, shared by the command queue
  and the outbox. A Go map that is ranged over is an association list with distinct keys: the list
  order is the (unspecified) iteration order of one run. \<^verbatim>\<open>len\<close> counts bytes.
\<close>

section \<open>Definitions\<close>

type_synonym metadata = "(string \<times> string) list"

definition MaxMetadataKeys :: int where "MaxMetadataKeys = 64"
definition MaxMetadataKeyLen :: int where "MaxMetadataKeyLen = 256"
definition MaxMetadataValueLen :: int where "MaxMetadataValueLen = 4096"
definition MaxMetadataTotalSize :: int where "MaxMetadataTotalSize = 65536"

definition DomainOutbox :: string where "DomainOutbox = ''outbox''"
definition DomainCommand :: string where "DomainCommand = ''command''"

definition assertion :: "string \<Rightarrow> goerr" where
  "assertion m = Errcode KindInternal ErrInternal m"

text \<open>The helpers pick the constant message of the owning transport.\<close>

definition limit_err :: "string \<Rightarrow> string \<Rightarrow> goerr" where
  "limit_err prefix what =
     (if prefix = DomainOutbox \<or> prefix = DomainCommand
      then invalid (prefix @ '': metadata '' @ what @ '' exceeds max'')
      else assertion ''metautil: unknown prefix'')"

definition newKeyCountErr :: "string \<Rightarrow> goerr" where "newKeyCountErr prefix = limit_err prefix ''key count''"
definition newKeyLenErr :: "string \<Rightarrow> goerr" where "newKeyLenErr prefix = limit_err prefix ''key length''"
definition newValueLenErr :: "string \<Rightarrow> goerr" where "newValueLenErr prefix = limit_err prefix ''value length''"
definition newTotalSizeErr :: "string \<Rightarrow> goerr" where "newTotalSizeErr prefix = limit_err prefix ''total size''"

fun limit_loop :: "string \<Rightarrow> int \<Rightarrow> metadata \<Rightarrow> int res" where
  "limit_loop prefix tot [] = Inr tot"
| "limit_loop prefix tot ((k, v) # m) =
     (if int (length k) > MaxMetadataKeyLen then Inl (newKeyLenErr prefix)
      else if int (length v) > MaxMetadataValueLen then Inl (newValueLenErr prefix)
      else limit_loop prefix (tot + (int (length k) + int (length v))) m)"

definition ValidateLimits :: "metadata \<Rightarrow> string \<Rightarrow> unit res" where
  "ValidateLimits m domainPrefix =
     (if domainPrefix \<noteq> DomainOutbox \<and> domainPrefix \<noteq> DomainCommand
        then Inl (assertion ''metautil: unknown domain prefix'')
      else if length m = 0 then Inr ()
      else if int (length m) > MaxMetadataKeys then Inl (newKeyCountErr domainPrefix)
      else and_then (limit_loop domainPrefix 0 m) (\<lambda>tot.
        if tot > MaxMetadataTotalSize then Inl (newTotalSizeErr domainPrefix) else Inr ()))"

text \<open>What an accepted map satisfies.\<close>

definition pair_size :: "string \<times> string \<Rightarrow> int" where
  "pair_size p = int (length (fst p)) + int (length (snd p))"

definition limits_ok :: "metadata \<Rightarrow> bool" where
  "limits_ok m \<longleftrightarrow>
     int (length m) \<le> MaxMetadataKeys \<and>
     (\<forall>p \<in> set m. int (length (fst p)) \<le> MaxMetadataKeyLen \<and> int (length (snd p)) \<le> MaxMetadataValueLen) \<and>
     sum_list (map pair_size m) \<le> MaxMetadataTotalSize"

section \<open>Lemmas\<close>

lemma limit_loop_ok:
  "limit_loop prefix tot m = Inr t \<longleftrightarrow>
     (\<forall>p \<in> set m. int (length (fst p)) \<le> MaxMetadataKeyLen \<and> int (length (snd p)) \<le> MaxMetadataValueLen) \<and>
     t = tot + sum_list (map pair_size m)"
  by (induction prefix tot m rule: limit_loop.induct) (auto simp: pair_size_def)

lemma ValidateLimits_ok:
  "ValidateLimits m d = Inr u \<longleftrightarrow> (d = DomainOutbox \<or> d = DomainCommand) \<and> limits_ok m"
proof (cases "m = []")
  case True
  then show ?thesis by (auto simp: ValidateLimits_def limits_ok_def MaxMetadataKeys_def MaxMetadataTotalSize_def)
next
  case False
  then show ?thesis by (auto simp: ValidateLimits_def limits_ok_def and_then_Inr limit_loop_ok)
qed

lemma ValidateLimits_command: "ValidateLimits m DomainCommand = Inr u \<longleftrightarrow> limits_ok m"
  by (simp add: ValidateLimits_ok)

text \<open>
  C31. Whether a metadata map is accepted does not depend on the order in which Go ranges over it (which
  of several violations is reported may), and an accepted map is bounded in entries, in the size of
  every key and value and in total.
\<close>

theorem metadata_limits_order_independent:
  assumes "set m = set m'" and "distinct (map fst m)" and "distinct (map fst m')"
  shows "(ValidateLimits m d = Inr () \<longleftrightarrow> ValidateLimits m' d = Inr ()) \<and>
    (ValidateLimits m d = Inr () \<longrightarrow> limits_ok m)"
proof -
  from assms have "mset m = mset m'" by (metis distinct_map set_eq_iff_mset_eq_distinct)
  then have "length m = length m'" "sum_list (map pair_size m) = sum_list (map pair_size m')"
    by (metis mset_eq_length, metis mset_map sum_mset_sum_list)
  with assms(1) show ?thesis by (simp add: ValidateLimits_ok limits_ok_def)
qed

theorem metadata_limits_order_independent_witness:
  "ValidateLimits [(''trace'', ''1''), (''tenant'', ''a'')] ''command'' = Inr () \<longleftrightarrow>
   ValidateLimits [(''tenant'', ''a''), (''trace'', ''1'')] ''command'' = Inr ()"
  using metadata_limits_order_independent
    [of "[(''trace'', ''1''), (''tenant'', ''a'')]" "[(''tenant'', ''a''), (''trace'', ''1'')]" "''command''"]
  by (simp add: insert_commute)

end
