(* ===== verification/Command_Core.thy ===== *)
theory Command_Core
  imports Fsm Metadata_Limits
begin

text \<open>
  The device-command kernel of \<^verbatim>\<open>framework/kernel/command\<close>: statuses (\<^verbatim>\<open>status.go\<close>), entries
  (\<^verbatim>\<open>entry.go\<close>), the operations that advance an entry (\<^verbatim>\<open>advance.go\<close>), acknowledgement reasons
  (\<^verbatim>\<open>queue.go\<close>) and the pure expiry computation of \<^verbatim>\<open>sweeper.go\<close>.

  An operation that mutates \<^verbatim>\<open>*Entry\<close> returns the new entry; an operation that fails has not
  written to it. A nil \<^verbatim>\<open>*Entry\<close> is \<open>None\<close>. Optional timestamps (\<^verbatim>\<open>*time.Time\<close>) are options.
\<close>

section \<open>Definitions\<close>

subsection \<open>Status (status.go)\<close>

datatype command_status =
    StatusPending | StatusSent | StatusDelivered | StatusSucceeded | StatusFailed
  | StatusExpired | StatusCanceled | StatusOther nat

definition command_status_Valid :: "command_status \<Rightarrow> bool" where
  "command_status_Valid s = (case s of StatusOther _ \<Rightarrow> False | _ \<Rightarrow> True)"

fun command_status_String :: "command_status \<Rightarrow> string" where
  "command_status_String StatusPending = ''pending''"
| "command_status_String StatusSent = ''sent''"
| "command_status_String StatusDelivered = ''delivered''"
| "command_status_String StatusSucceeded = ''succeeded''"
| "command_status_String StatusFailed = ''failed''"
| "command_status_String StatusExpired = ''expired''"
| "command_status_String StatusCanceled = ''canceled''"
| "command_status_String (StatusOther n) =
     (if n = 0 then ''invalid'' else ''status('' @ show_nat n @ '')'')"

definition command_IsTerminal :: "command_status \<Rightarrow> bool" where
  "command_IsTerminal s \<longleftrightarrow>
     s = StatusSucceeded \<or> s = StatusFailed \<or> s = StatusExpired \<or> s = StatusCanceled"

fun command_statusTransitions :: "command_status \<Rightarrow> command_status list" where
  "command_statusTransitions StatusPending = [StatusSent, StatusFailed, StatusExpired, StatusCanceled]"
| "command_statusTransitions StatusSent =
     [StatusDelivered, StatusSucceeded, StatusFailed, StatusExpired, StatusCanceled]"
| "command_statusTransitions StatusDelivered =
     [StatusSucceeded, StatusFailed, StatusExpired, StatusCanceled]"
| "command_statusTransitions _ = []"

definition command_CanTransitionTo :: "command_status \<Rightarrow> command_status \<Rightarrow> bool" where
  "command_CanTransitionTo s target = CanTransition command_statusTransitions s target"

definition command_ValidTransitions :: "command_status \<Rightarrow> command_status list option" where
  "command_ValidTransitions s = AllowedTargets command_statusTransitions s"

definition command_Transition :: "command_status \<Rightarrow> command_status \<Rightarrow> unit res" where
  "command_Transition from to =
     (if command_CanTransitionTo from to then Inr ()
      else Inl (invalid ''command: invalid status transition''))"

subsection \<open>Entries (entry.go)\<close>

datatype timeout_phase = PhaseScheduleToSend | PhaseSendToComplete | PhaseOverall | PhaseOther nat

record timeouts =
  to_ScheduleToSend :: duration
  to_SendToComplete :: duration
  to_OverallDeadline :: duration

record entry =
  en_ID :: string
  en_DeviceID :: string
  en_CommandType :: string
  en_Payload :: bytes
  en_Status :: command_status
  en_Metadata :: metadata
  en_Timeouts :: timeouts
  en_Attempt :: int
  en_CreatedAt :: instant
  en_SentAt :: "instant option"
  en_DeliveredAt :: "instant option"
  en_CompletedAt :: "instant option"

fun DeadlineFor :: "entry \<Rightarrow> timeout_phase \<Rightarrow> instant" where
  "DeadlineFor e PhaseScheduleToSend =
     (if to_ScheduleToSend (en_Timeouts e) \<le> 0 then 0
      else en_CreatedAt e + to_ScheduleToSend (en_Timeouts e))"
| "DeadlineFor e PhaseSendToComplete =
     (if to_SendToComplete (en_Timeouts e) \<le> 0 then 0
      else case en_SentAt e of
        None \<Rightarrow> 0
      | Some t \<Rightarrow> t + to_SendToComplete (en_Timeouts e))"
| "DeadlineFor e PhaseOverall =
     (if to_OverallDeadline (en_Timeouts e) \<le> 0 then 0
      else en_CreatedAt e + to_OverallDeadline (en_Timeouts e))"
| "DeadlineFor e (PhaseOther _) = 0"

definition validateBaseFields :: "entry \<Rightarrow> unit res" where
  "validateBaseFields e =
     (if en_ID e = [] then Inl (invalid ''command: entry missing ID'')
      else if en_DeviceID e = [] then Inl (invalid ''command: entry missing DeviceID'')
      else if en_CommandType e = [] then Inl (invalid ''command: entry missing CommandType'')
      else if length (en_Payload e) = 0 then Inl (invalid ''command: entry missing Payload'')
      else Inr ())"

definition validateStatus :: "entry \<Rightarrow> unit res" where
  "validateStatus e =
     (if \<not> command_status_Valid (en_Status e) then Inl (invalid ''command: entry has invalid Status'')
      else if en_Status e \<noteq> StatusPending
        then Inl (invalid ''command: new entry must have Pending status'')
      else Inr ())"

definition validateTimestamps :: "entry \<Rightarrow> unit res" where
  "validateTimestamps e =
     (if en_CreatedAt e = 0 then Inl (invalid ''command: entry missing CreatedAt'')
      else if en_SentAt e \<noteq> None \<or> en_DeliveredAt e \<noteq> None \<or> en_CompletedAt e \<noteq> None
        then Inl (invalid ''command: new entry must not have phase timestamps (SentAt/DeliveredAt/CompletedAt)'')
      else if en_Attempt e \<noteq> 0 then Inl (invalid ''command: new entry must have Attempt=0'')
      else Inr ())"

definition validateTimeouts :: "entry \<Rightarrow> unit res" where
  "validateTimeouts e =
     (if to_ScheduleToSend (en_Timeouts e) < 0
        then Inl (invalid ''command: ScheduleToSend timeout must be non-negative'')
      else if to_SendToComplete (en_Timeouts e) < 0
        then Inl (invalid ''command: SendToComplete timeout must be non-negative'')
      else if to_OverallDeadline (en_Timeouts e) < 0
        then Inl (invalid ''command: OverallDeadline timeout must be non-negative'')
      else Inr ())"

definition command_validateMetadata :: "metadata \<Rightarrow> unit res" where
  "command_validateMetadata m = ValidateLimits m DomainCommand"

definition command_ValidateNew :: "entry \<Rightarrow> unit res" where
  "command_ValidateNew e =
     and_then (validateBaseFields e) (\<lambda>_.
     and_then (validateStatus e) (\<lambda>_.
     and_then (validateTimestamps e) (\<lambda>_.
     and_then (validateTimeouts e) (\<lambda>_.
       command_validateMetadata (en_Metadata e)))))"

definition NewEntry ::
  "string \<Rightarrow> string \<Rightarrow> string \<Rightarrow> bytes \<Rightarrow> timeouts \<Rightarrow> instant \<Rightarrow> entry" where
  "NewEntry i deviceID commandType payload tos now =
     \<lparr>en_ID = i, en_DeviceID = deviceID, en_CommandType = commandType, en_Payload = payload,
      en_Status = StatusPending, en_Metadata = [], en_Timeouts = tos, en_Attempt = 0,
      en_CreatedAt = now, en_SentAt = None, en_DeliveredAt = None, en_CompletedAt = None\<rparr>"

subsection \<open>Advancing an entry (advance.go)\<close>

definition AdvanceCommand :: "entry option \<Rightarrow> command_status \<Rightarrow> instant \<Rightarrow> entry res" where
  "AdvanceCommand eopt to now =
     (case eopt of
        None \<Rightarrow> Inl (invalid ''command: nil Entry'')
      | Some e \<Rightarrow>
        if to = StatusPending
          then Inl (invalid ''command: AdvanceCommand does not support transitions to Pending; use ResetForRetry'')
        else and_then (command_Transition (en_Status e) to) (\<lambda>_.
          and_then
            (case to of
               StatusSent \<Rightarrow>
                 (if (case en_SentAt e of Some t \<Rightarrow> now < t | None \<Rightarrow> False)
                    then Inl (invalid ''command: advance now precedes previous SentAt (clock skew?)'')
                  else Inr (e\<lparr>en_SentAt := Some now, en_Attempt := i64 (en_Attempt e + 1)\<rparr>))
             | StatusDelivered \<Rightarrow>
                 (if en_SentAt e = None
                    then Inl (invalid ''command: cannot transition to Delivered without SentAt'')
                  else Inr (e\<lparr>en_DeliveredAt := Some now\<rparr>))
             | StatusSucceeded \<Rightarrow> Inr (e\<lparr>en_CompletedAt := Some now\<rparr>)
             | StatusFailed \<Rightarrow> Inr (e\<lparr>en_CompletedAt := Some now\<rparr>)
             | StatusExpired \<Rightarrow> Inr (e\<lparr>en_CompletedAt := Some now\<rparr>)
             | StatusCanceled \<Rightarrow> Inr (e\<lparr>en_CompletedAt := Some now\<rparr>)
             | _ \<Rightarrow> Inr e)
            (\<lambda>e. Inr (e\<lparr>en_Status := to\<rparr>))))"

definition ResetForRetry :: "entry option \<Rightarrow> entry res" where
  "ResetForRetry eopt =
     (case eopt of
        None \<Rightarrow> Inl (invalid ''command: nil Entry'')
      | Some e \<Rightarrow>
        if en_Status e = StatusSent \<or> en_Status e = StatusFailed
        then Inr (e\<lparr>en_Status := StatusPending, en_SentAt := None, en_DeliveredAt := None, en_CompletedAt := None\<rparr>)
        else Inl (invalid ''command: cannot reset for retry from current status (allowed: sent, failed)''))"

subsection \<open>Acknowledgements (queue.go)\<close>

datatype ack_reason = AckSuccess | AckFailed | AckTimeout | AckRejected | AckOther nat

definition AckReason_Valid :: "ack_reason \<Rightarrow> bool" where
  "AckReason_Valid r = (case r of AckOther _ \<Rightarrow> False | _ \<Rightarrow> True)"

fun AckReason_String :: "ack_reason \<Rightarrow> string" where
  "AckReason_String AckSuccess = ''success''"
| "AckReason_String AckFailed = ''failed''"
| "AckReason_String AckTimeout = ''timeout''"
| "AckReason_String AckRejected = ''rejected''"
| "AckReason_String (AckOther n) =
     (if n = 0 then ''invalid'' else ''ack_reason('' @ show_nat n @ '')'')"

fun TargetStatus :: "ack_reason \<Rightarrow> command_status" where
  "TargetStatus AckSuccess = StatusSucceeded"
| "TargetStatus AckFailed = StatusFailed"
| "TargetStatus AckTimeout = StatusExpired"
| "TargetStatus AckRejected = StatusCanceled"
| "TargetStatus (AckOther _) = StatusOther 0"

subsection \<open>Expiry (sweeper.go)\<close>

record expiry_transition =
  ex_CommandID :: string
  ex_From :: command_status
  ex_To :: command_status
  ex_Reason :: string

definition phase_elapsed :: "entry \<Rightarrow> timeout_phase \<Rightarrow> instant \<Rightarrow> bool" where
  "phase_elapsed e phase now = (let dl = DeadlineFor e phase in dl \<noteq> 0 \<and> dl < now)"

definition checkExpiry :: "entry \<Rightarrow> instant \<Rightarrow> expiry_transition option" where
  "checkExpiry e now =
     (let t = (\<lambda>reason. \<lparr>ex_CommandID = en_ID e, ex_From = en_Status e, ex_To = StatusExpired, ex_Reason = reason\<rparr>)
      in if phase_elapsed e PhaseOverall now then Some (t ''phase_overall_deadline'')
         else if phase_elapsed e PhaseSendToComplete now then Some (t ''phase_send_to_complete'')
         else if phase_elapsed e PhaseScheduleToSend now then Some (t ''phase_schedule_to_send'')
         else None)"

fun SweepOnce :: "entry list \<Rightarrow> instant \<Rightarrow> expiry_transition list" where
  "SweepOnce [] now = []"
| "SweepOnce (e # entries) now =
     (if command_IsTerminal (en_Status e) then SweepOnce entries now
      else case checkExpiry e now of
        Some t \<Rightarrow> t # SweepOnce entries now
      | None \<Rightarrow> SweepOnce entries now)"

subsection \<open>Vocabulary of the properties\<close>

text \<open>The invariant of an entry that only the kernel has touched: status and timestamps agree.\<close>

definition entry_wf :: "entry \<Rightarrow> bool" where
  "entry_wf e \<longleftrightarrow>
     command_status_Valid (en_Status e) \<and>
     (command_IsTerminal (en_Status e) \<longleftrightarrow> en_CompletedAt e \<noteq> None) \<and>
     (en_Status e = StatusPending \<longrightarrow> en_SentAt e = None) \<and>
     (en_Status e \<in> {StatusSent, StatusDelivered, StatusSucceeded} \<longrightarrow> en_SentAt e \<noteq> None) \<and>
     (en_Status e = StatusDelivered \<longrightarrow> en_DeliveredAt e \<noteq> None) \<and>
     (en_Status e \<in> {StatusPending, StatusSent} \<longrightarrow> en_DeliveredAt e = None) \<and>
     (en_SentAt e = None \<longrightarrow> en_DeliveredAt e = None)"

fun command_rank :: "command_status \<Rightarrow> nat" where
  "command_rank StatusPending = 3"
| "command_rank StatusSent = 2"
| "command_rank StatusDelivered = 1"
| "command_rank _ = 0"

text \<open>Kernel calls on one entry, failed calls leaving it unchanged.\<close>

datatype kernel_call = CallAdvance command_status instant | CallReset

fun apply_call :: "entry \<Rightarrow> kernel_call \<Rightarrow> entry" where
  "apply_call e (CallAdvance to now) = (case AdvanceCommand (Some e) to now of Inr e' \<Rightarrow> e' | Inl _ \<Rightarrow> e)"
| "apply_call e CallReset = (case ResetForRetry (Some e) of Inr e' \<Rightarrow> e' | Inl _ \<Rightarrow> e)"

section \<open>Lemmas\<close>

interpretation command_fsm: fsm_ranked command_statusTransitions command_IsTerminal command_rank
proof unfold_locales
  fix s :: command_status
  show "command_IsTerminal s \<Longrightarrow> command_statusTransitions s = []"
    by (cases s) (simp_all add: command_IsTerminal_def)
next
  fix s t
  show "t \<in> set (command_statusTransitions s) \<Longrightarrow> command_rank t < command_rank s"
    by (cases s) auto
qed

lemma command_Transition_ok: "command_Transition s t = Inr u \<longleftrightarrow> t \<in> set (command_statusTransitions s)"
  by (simp add: command_Transition_def command_CanTransitionTo_def)

lemma not_terminal_edge: "t \<in> set (command_statusTransitions s) \<Longrightarrow> \<not> command_IsTerminal s"
  using command_fsm.terminal_no_edge by fastforce

lemma AdvanceCommand_ok:
  "AdvanceCommand (Some e) to now = Inr e' \<longleftrightarrow>
     to \<in> set (command_statusTransitions (en_Status e)) \<and>
     (to = StatusSent \<longrightarrow> (\<forall>t. en_SentAt e = Some t \<longrightarrow> t \<le> now)) \<and>
     (to = StatusDelivered \<longrightarrow> en_SentAt e \<noteq> None) \<and>
     e' = e\<lparr>en_Status := to,
       en_SentAt := (if to = StatusSent then Some now else en_SentAt e),
       en_Attempt := (if to = StatusSent then i64 (en_Attempt e + 1) else en_Attempt e),
       en_DeliveredAt := (if to = StatusDelivered then Some now else en_DeliveredAt e),
       en_CompletedAt := (if command_IsTerminal to then Some now else en_CompletedAt e)\<rparr>"
  by (cases "en_Status e"; cases to)
    (auto simp: AdvanceCommand_def and_then_Inr command_Transition_ok command_IsTerminal_def
      split: option.splits if_splits)

lemma ResetForRetry_ok:
  "ResetForRetry (Some e) = Inr e' \<longleftrightarrow>
     en_Status e \<in> {StatusSent, StatusFailed} \<and>
     e' = e\<lparr>en_Status := StatusPending, en_SentAt := None, en_DeliveredAt := None, en_CompletedAt := None\<rparr>"
  by (auto simp: ResetForRetry_def)

lemma ValidateNew_ok:
  "command_ValidateNew e = Inr u \<longleftrightarrow>
     en_ID e \<noteq> [] \<and> en_DeviceID e \<noteq> [] \<and> en_CommandType e \<noteq> [] \<and> en_Payload e \<noteq> [] \<and>
     en_Status e = StatusPending \<and> en_CreatedAt e \<noteq> 0 \<and>
     en_SentAt e = None \<and> en_DeliveredAt e = None \<and> en_CompletedAt e = None \<and> en_Attempt e = 0 \<and>
     0 \<le> to_ScheduleToSend (en_Timeouts e) \<and> 0 \<le> to_SendToComplete (en_Timeouts e) \<and>
     0 \<le> to_OverallDeadline (en_Timeouts e) \<and> limits_ok (en_Metadata e)"
  by (auto simp: command_ValidateNew_def and_then_Inr validateBaseFields_def validateStatus_def
      validateTimestamps_def validateTimeouts_def command_validateMetadata_def ValidateLimits_command
      command_status_Valid_def)

lemma entry_wf_new: "command_ValidateNew e = Inr u \<Longrightarrow> entry_wf e"
  by (simp add: ValidateNew_ok entry_wf_def command_status_Valid_def command_IsTerminal_def)

lemma entry_wf_advance:
  assumes wf: "entry_wf e" and adv: "AdvanceCommand (Some e) to now = Inr e'"
  shows "entry_wf e'"
proof -
  from adv have to: "to \<in> set (command_statusTransitions (en_Status e))" and e': "en_Status e' = to"
    by (auto simp: AdvanceCommand_ok)
  from not_terminal_edge [OF to] wf have "en_CompletedAt e = None" by (simp add: entry_wf_def)
  with wf adv to show ?thesis
    by (cases "en_Status e"; cases to)
      (auto simp: AdvanceCommand_ok entry_wf_def command_status_Valid_def command_IsTerminal_def)
qed

lemma entry_wf_reset:
  "entry_wf e \<Longrightarrow> ResetForRetry (Some e) = Inr e' \<Longrightarrow> entry_wf e'"
  by (auto simp: ResetForRetry_ok entry_wf_def command_status_Valid_def command_IsTerminal_def)

end
