(* ===== verification/Command_Queue.thy ===== *)
theory Command_Queue
  imports Command_Core
begin

text \<open>
  The in-memory command queue of \<^verbatim>\<open>framework/kernel/command/commandtest/inmem.go\<close> and the sweeper of
  \<^verbatim>\<open>framework/kernel/command/sweeper.go\<close>.

  The map of entries is an association list from identifiers to entries: its order is the order in
  which Go ranges over it in one run, and the theorems hold for every order. Every method holds the
  queue's mutex while it touches the queue, so it is one step of an interleaving. A method returns the new
  queue together with its result, because \<^verbatim>\<open>Ack\<close> drops the lease before it can fail. The clock
  reading and the random identifier are arguments. \<^verbatim>\<open>sort.Slice\<close> is not stable: since the order of
  the map is arbitrary, a stable sort of the list covers every outcome.

  A Go map is a reference. \<^verbatim>\<open>Enqueue\<close> writes the idempotency key into the metadata map that the caller passed
  and stores the entry with that same map, so the caller, and every other command that was enqueued with
  the map, sees later writes to it. \<open>q_maps\<close> is the memory of the maps that callers hold, by address, and
  \<open>q_ref\<close> the address of the map of a stored command; the \<open>en_Metadata\<close> of a stored command is the content
  of its map. A map that only the queue refers to has no address. The writes of a caller to its own map
  are steps of the schedules (\<open>QWriteMap\<close>). (Reading a command copies its map, except an empty one.)

  The sweeper calls the queue through the interfaces \<^verbatim>\<open>ActiveScanner\<close> and \<^verbatim>\<open>Queue\<close>; these two calls
  are arguments of \<open>SweepTick\<close>, and what the sweeper needs of them is the locale \<open>sweep_target\<close>. Each of
  its calls is a critical section of its own: \<open>QSweep\<close> is a tick that nothing interrupts, and a tick that
  is interrupted is a sequence of \<open>QAck\<close> steps with \<open>AckTimeout\<close> among the other steps (lemma \<open>sweep_is_acks\<close>).
\<close>

section \<open>Definitions\<close>

subsection \<open>State and options\<close>

record inmem_queue =
  q_entries :: "(string \<times> entry) list"
  q_leases :: "string \<rightharpoonup> instant"
  q_ref :: "string \<rightharpoonup> nat"
  q_maps :: "nat \<Rightarrow> metadata"

record enqueue_options =
  eo_IdempotencyKey :: string
  eo_Authz :: "unit res option"
  eo_MaxPendingPerDevice :: int

record scan_filter =
  sf_DeviceID :: string
  sf_Statuses :: "command_status list"

definition NewInMemQueue :: inmem_queue where
  "NewInMemQueue = \<lparr>q_entries = [], q_leases = Map.empty, q_ref = Map.empty, q_maps = (\<lambda>_. [])\<rparr>"

definition command_DefaultLeaseDuration :: duration where
  "command_DefaultLeaseDuration = 5 * minute"

definition idempotency_meta_key :: string where
  "idempotency_meta_key = ''_idempotency_key''"

definition errCommandNotFound :: goerr where
  "errCommandNotFound = Errcode KindNotFound ErrCommandNotFound ''commandtest: command not found''"

definition find_entry :: "inmem_queue \<Rightarrow> string \<Rightarrow> entry option" where
  "find_entry q k = map_of (q_entries q) k"

definition put_entry :: "inmem_queue \<Rightarrow> string \<Rightarrow> entry \<Rightarrow> inmem_queue" where
  "put_entry q k e = q\<lparr>q_entries := AList.update k e (q_entries q)\<rparr>"

definition set_ref :: "inmem_queue \<Rightarrow> string \<Rightarrow> nat option \<Rightarrow> inmem_queue" where
  "set_ref q k r = q\<lparr>q_ref := (q_ref q)(k := r)\<rparr>"

text \<open>A write to the map at an address is seen through every command that refers to it.\<close>

definition write_map :: "inmem_queue \<Rightarrow> nat \<Rightarrow> metadata \<Rightarrow> inmem_queue" where
  "write_map q a m =
     q\<lparr>q_maps := (q_maps q)(a := m),
       q_entries := map (\<lambda>(k, e). (k, if q_ref q k = Some a then e\<lparr>en_Metadata := m\<rparr> else e)) (q_entries q)\<rparr>"

text \<open>The content of the map that a caller passes: by address, or a map that nobody else keeps.\<close>

definition passed_map :: "inmem_queue \<Rightarrow> entry \<Rightarrow> nat option \<Rightarrow> metadata" where
  "passed_map q e r = (case r of Some a \<Rightarrow> q_maps q a | None \<Rightarrow> en_Metadata e)"

subsection \<open>Enqueue\<close>

definition countPendingForDevice :: "inmem_queue \<Rightarrow> string \<Rightarrow> int" where
  "countPendingForDevice q deviceID =
     int (length (filter (\<lambda>(k, e). en_Status e = StatusPending \<and> en_DeviceID e = deviceID) (q_entries q)))"

definition hasActiveKey :: "inmem_queue \<Rightarrow> string \<Rightarrow> bool" where
  "hasActiveKey q key =
     list_ex (\<lambda>(k, e). \<not> command_IsTerminal (en_Status e) \<and>
        map_of (en_Metadata e) idempotency_meta_key = Some key) (q_entries q)"

definition storeIfNotDup :: "inmem_queue \<Rightarrow> entry \<Rightarrow> nat option \<Rightarrow> string \<Rightarrow> int \<Rightarrow> inmem_queue \<times> unit res" where
  "storeIfNotDup q e r idempotencyKey maxPending =
     (if idempotencyKey \<noteq> [] \<and> hasActiveKey q idempotencyKey then (q, Inr ())
      else if find_entry q (en_ID e) \<noteq> None
        then (q, Inl (Errcode KindConflict ErrConflict ''commandtest: command already exists''))
      else if maxPending > 0 \<and> countPendingForDevice q (en_DeviceID e) \<ge> maxPending
        then (q, Inl (Errcode KindRateLimited ErrRateLimited ''per-device pending command limit exceeded''))
      else (set_ref (put_entry q (en_ID e) e) (en_ID e) r, Inr ()))"

definition command_Enqueue ::
  "inmem_queue \<Rightarrow> entry \<Rightarrow> nat option \<Rightarrow> enqueue_options \<Rightarrow> string res \<Rightarrow> inmem_queue \<times> unit res" where
  "command_Enqueue q e r opts newID =
     (case eo_Authz opts of
        Some (Inl err) \<Rightarrow> (q, Inl (Wrap ''commandtest: authz rejected'' err))
      | _ \<Rightarrow>
        (case (if en_ID e = [] then newID else Inr (en_ID e)) of
           Inl err \<Rightarrow> (q, Inl err)
         | Inr i \<Rightarrow>
           let m = passed_map q e r;
               m = (if eo_IdempotencyKey opts \<noteq> [] then AList.update idempotency_meta_key (eo_IdempotencyKey opts) m else m);
               q = (case r of Some a \<Rightarrow> if eo_IdempotencyKey opts \<noteq> [] then write_map q a m else q | None \<Rightarrow> q);
               e = e\<lparr>en_ID := i, en_Metadata := m\<rparr>
           in (case command_ValidateNew e of
                 Inl err \<Rightarrow> (q, Inl err)
               | Inr _ \<Rightarrow> storeIfNotDup q e r (eo_IdempotencyKey opts) (eo_MaxPendingPerDevice opts))))"

subsection \<open>Dequeue\<close>

definition stripInternalMetaKeys :: "entry \<Rightarrow> entry" where
  "stripInternalMetaKeys e =
     (if length (en_Metadata e) = 0 then e
      else e\<lparr>en_Metadata := filter (\<lambda>(k, v). k = [] \<or> hd k \<noteq> CHR ''_'') (en_Metadata e)\<rparr>)"

fun dequeue_loop ::
  "instant \<Rightarrow> duration \<Rightarrow> inmem_queue \<Rightarrow> (string \<times> entry) list \<Rightarrow> inmem_queue \<times> entry list" where
  "dequeue_loop now leaseDuration q [] = (q, [])"
| "dequeue_loop now leaseDuration q ((k, e) # pending) =
     (case AdvanceCommand (Some e) StatusSent now of
        Inl _ \<Rightarrow> dequeue_loop now leaseDuration q pending
      | Inr e' \<Rightarrow>
          let (q, result) = dequeue_loop now leaseDuration
                ((put_entry q k e')\<lparr>q_leases := (q_leases q)(en_ID e \<mapsto> now + leaseDuration)\<rparr>) pending
          in (q, stripInternalMetaKeys e' # result))"

definition pending_for :: "inmem_queue \<Rightarrow> string \<Rightarrow> (string \<times> entry) list" where
  "pending_for q targetID =
     sort_key (\<lambda>(k, e). en_CreatedAt e)
       (filter (\<lambda>(k, e). en_DeviceID e = targetID \<and> en_Status e = StatusPending) (q_entries q))"

text \<open>A negative \<open>n\<close> panics when the slice is cut, before anything is written.\<close>

definition command_Dequeue ::
  "inmem_queue \<Rightarrow> instant \<Rightarrow> string \<Rightarrow> int \<Rightarrow> duration \<Rightarrow> inmem_queue \<times> entry list res" where
  "command_Dequeue q now targetID n leaseDuration =
     (let leaseDuration = (if leaseDuration \<le> 0 then command_DefaultLeaseDuration else leaseDuration);
          pending = pending_for q targetID;
          n = (if n > int (length pending) then int (length pending) else n)
      in if n < 0 then (q, Inl (ErrorsNew ''runtime error: slice bounds out of range''))
         else let (q, result) = dequeue_loop now leaseDuration q (take (nat n) pending)
              in (q, Inr result))"

subsection \<open>Report, Ack, ExtendLease, Cancel\<close>

definition command_Report :: "inmem_queue \<Rightarrow> string \<Rightarrow> instant \<Rightarrow> inmem_queue \<times> unit res" where
  "command_Report q commandID now =
     (case find_entry q commandID of
        None \<Rightarrow> (q, Inl errCommandNotFound)
      | Some e \<Rightarrow>
          if en_Status e = StatusDelivered then (q, Inr ())
          else (case AdvanceCommand (Some e) StatusDelivered now of
            Inl err \<Rightarrow> (q, Inl (Wrap ''commandtest: report'' err))
          | Inr e' \<Rightarrow> (put_entry q commandID e', Inr ())))"

definition command_Ack :: "inmem_queue \<Rightarrow> string \<Rightarrow> ack_reason \<Rightarrow> instant \<Rightarrow> inmem_queue \<times> unit res" where
  "command_Ack q commandID reason now =
     (if \<not> AckReason_Valid reason then (q, Inl (invalid ''commandtest: invalid AckReason''))
      else case find_entry q commandID of
        None \<Rightarrow> (q, Inl errCommandNotFound)
      | Some e \<Rightarrow>
          let target = TargetStatus reason in
          if command_IsTerminal (en_Status e) then
            (if en_Status e = target then (q, Inr ())
             else (q, Inl (invalid (''commandtest: command already terminal with status '' @
               command_status_String (en_Status e) @ ''; cannot ack as '' @ command_status_String target))))
          else
            let q = q\<lparr>q_leases := (q_leases q)(commandID := None)\<rparr> in
            (case AdvanceCommand (Some e) target now of
               Inl err \<Rightarrow> (q, Inl (Wrap (''commandtest: advance to '' @ command_status_String target) err))
             | Inr e' \<Rightarrow> (put_entry q commandID e', Inr ())))"

definition ExtendLease ::
  "inmem_queue \<Rightarrow> string \<Rightarrow> duration \<Rightarrow> instant \<Rightarrow> inmem_queue \<times> unit res" where
  "ExtendLease q commandID extension now =
     (case find_entry q commandID of
        None \<Rightarrow> (q, Inl errCommandNotFound)
      | Some _ \<Rightarrow>
          (case q_leases q commandID of
             None \<Rightarrow> (q, Inl (invalid (''commandtest: lease expired or not acquired for command: '' @ commandID)))
           | Some expiry \<Rightarrow>
               if now > expiry
               then (q, Inl (invalid (''commandtest: lease expired or not acquired for command: '' @ commandID)))
               else (q\<lparr>q_leases := (q_leases q)(commandID \<mapsto> now + extension)\<rparr>, Inr ())))"

definition command_Cancel :: "inmem_queue \<Rightarrow> string \<Rightarrow> instant \<Rightarrow> inmem_queue \<times> unit res" where
  "command_Cancel q commandID now =
     (case find_entry q commandID of
        None \<Rightarrow> (q, Inl errCommandNotFound)
      | Some e \<Rightarrow>
          (case AdvanceCommand (Some e) StatusCanceled now of
             Inl err \<Rightarrow> (q, Inl (Wrap ''commandtest: cancel'' err))
           | Inr e' \<Rightarrow>
               ((put_entry q commandID e')\<lparr>q_leases := (q_leases q)(commandID := None)\<rparr>, Inr ())))"

subsection \<open>Scanning and reading\<close>

definition buildStatusAllowlist :: "command_status list \<Rightarrow> command_status list option" where
  "buildStatusAllowlist ins =
     (if length ins = 0 then None
      else let out = filter (\<lambda>s. \<not> command_IsTerminal s) ins in
           if length out = 0 then Some [] else Some out)"

definition scan_wants :: "scan_filter \<Rightarrow> entry \<Rightarrow> bool" where
  "scan_wants flt e =
     (if command_IsTerminal (en_Status e) then False
      else if sf_DeviceID flt \<noteq> [] \<and> en_DeviceID e \<noteq> sf_DeviceID flt then False
      else case buildStatusAllowlist (sf_Statuses flt) of
        None \<Rightarrow> True
      | Some wantStatus \<Rightarrow> List.member wantStatus (en_Status e))"

definition ScanActive :: "inmem_queue \<Rightarrow> scan_filter \<Rightarrow> entry list res" where
  "ScanActive q flt =
     Inr (sort_key en_CreatedAt (map stripInternalMetaKeys (filter (scan_wants flt) (map snd (q_entries q)))))"

definition GetCommand :: "inmem_queue \<Rightarrow> string \<Rightarrow> entry res" where
  "GetCommand q k =
     (case find_entry q k of
        None \<Rightarrow> Inl errCommandNotFound
      | Some e \<Rightarrow> Inr (stripInternalMetaKeys e))"

definition WriteCommand :: "inmem_queue \<Rightarrow> entry \<Rightarrow> nat option \<Rightarrow> inmem_queue \<times> unit res" where
  "WriteCommand q e r = (set_ref (put_entry q (en_ID e) (e\<lparr>en_Metadata := passed_map q e r\<rparr>)) (en_ID e) r, Inr ())"

subsection \<open>The sweeper (sweeper.go)\<close>

record sweeper =
  sw_filter :: scan_filter
  sw_built :: bool

text \<open>\<^verbatim>\<open>errors.Join\<close> of the acknowledgement errors is their list; the empty list is the nil error.\<close>

fun sweep_acks ::
  "('s \<Rightarrow> string \<Rightarrow> ack_reason \<Rightarrow> instant \<Rightarrow> 's \<times> unit res) \<Rightarrow> instant \<Rightarrow> 's \<Rightarrow>
   expiry_transition list \<Rightarrow> 's \<times> goerr list" where
  "sweep_acks ack now q [] = (q, [])"
| "sweep_acks ack now q (t # transitions) =
     (let (q, r) = ack q (ex_CommandID t) AckTimeout now;
          (q, errs) = sweep_acks ack now q transitions
      in (q, case r of Inl err \<Rightarrow> err # errs | Inr _ \<Rightarrow> errs))"

definition SweepTick ::
  "('s \<Rightarrow> scan_filter \<Rightarrow> entry list res) \<Rightarrow>
   ('s \<Rightarrow> string \<Rightarrow> ack_reason \<Rightarrow> instant \<Rightarrow> 's \<times> unit res) \<Rightarrow>
   sweeper option \<Rightarrow> 's \<Rightarrow> instant \<Rightarrow> 's \<times> goerr list" where
  "SweepTick scan ack sopt q now =
     (case sopt of
        None \<Rightarrow> (q, [invalid ''command.Sweeper: nil receiver; use NewSweeper to construct''])
      | Some s \<Rightarrow>
          if \<not> sw_built s then (q, [invalid ''command.Sweeper must be constructed via NewSweeper''])
          else (case scan q (sw_filter s) of
                  Inl scanErr \<Rightarrow> (q, [scanErr])
                | Inr entries \<Rightarrow> sweep_acks ack now q (SweepOnce entries now)))"

subsection \<open>Interleavings\<close>

datatype qop =
    QEnqueue entry "nat option" enqueue_options "string res"
  | QDequeue string int duration
  | QReport string
  | QAck string ack_reason
  | QExtend string duration
  | QCancel string
  | QSweep scan_filter
  | QWriteMap nat metadata

fun qstep :: "inmem_queue \<Rightarrow> instant \<Rightarrow> qop \<Rightarrow> inmem_queue" where
  "qstep q now (QEnqueue e r opts newID) = fst (command_Enqueue q e r opts newID)"
| "qstep q now (QDequeue targetID n d) = fst (command_Dequeue q now targetID n d)"
| "qstep q now (QReport k) = fst (command_Report q k now)"
| "qstep q now (QAck k r) = fst (command_Ack q k r now)"
| "qstep q now (QExtend k d) = fst (ExtendLease q k d now)"
| "qstep q now (QCancel k) = fst (command_Cancel q k now)"
| "qstep q now (QSweep flt) = fst (SweepTick ScanActive command_Ack (Some \<lparr>sw_filter = flt, sw_built = True\<rparr>) q now)"
| "qstep q now (QWriteMap a m) = write_map q a m"

fun qexec :: "inmem_queue \<Rightarrow> (instant \<times> qop) list \<Rightarrow> inmem_queue" where
  "qexec q [] = q"
| "qexec q ((now, op) # ops) = qexec (qstep q now op) ops"

abbreviation queue_after :: "(instant \<times> qop) list \<Rightarrow> inmem_queue" where
  "queue_after ops \<equiv> qexec NewInMemQueue ops"

subsection \<open>Vocabulary of the properties\<close>

text \<open>Entries in flight are exactly those with a lease; every entry is well formed and handed out at most once.\<close>

definition row_inv :: "(string \<rightharpoonup> instant) \<Rightarrow> string \<Rightarrow> entry \<Rightarrow> bool" where
  "row_inv leases k e \<longleftrightarrow>
     en_ID e = k \<and> entry_wf e \<and>
     (leases k \<noteq> None \<longleftrightarrow> en_Status e \<in> {StatusSent, StatusDelivered}) \<and>
     en_Attempt e = (if en_SentAt e = None then 0 else 1)"

definition qinv :: "inmem_queue \<Rightarrow> bool" where
  "qinv q \<longleftrightarrow>
     distinct (map fst (q_entries q)) \<and>
     (\<forall>k e. find_entry q k = Some e \<longrightarrow> row_inv (q_leases q) k e) \<and>
     (\<forall>k. find_entry q k = None \<longrightarrow> q_leases q k = None)"

text \<open>
  The effects a step can have on the store. The first argument says what an enqueue has checked of the
  queue it inserts into, the second what is known of a write to a map.
\<close>

inductive queue_step ::
  "(inmem_queue \<Rightarrow> entry \<Rightarrow> bool) \<Rightarrow> (inmem_queue \<Rightarrow> nat \<Rightarrow> bool) \<Rightarrow> inmem_queue \<Rightarrow> inmem_queue \<Rightarrow> bool"
  for P :: "inmem_queue \<Rightarrow> entry \<Rightarrow> bool" and W :: "inmem_queue \<Rightarrow> nat \<Rightarrow> bool" where
  step_insert:
    "find_entry q (en_ID e) = None \<Longrightarrow> command_ValidateNew e = Inr () \<Longrightarrow> P q e \<Longrightarrow>
     queue_step P W q (set_ref (put_entry q (en_ID e) e) (en_ID e) r)"
| step_advance:
    "find_entry q k = Some e \<Longrightarrow> AdvanceCommand (Some e) to now = Inr e' \<Longrightarrow>
     (L \<noteq> None \<longleftrightarrow> to \<in> {StatusSent, StatusDelivered}) \<Longrightarrow>
     queue_step P W q ((put_entry q k e')\<lparr>q_leases := (q_leases q)(k := L)\<rparr>)"
| step_extend:
    "q_leases q k = Some t \<Longrightarrow> queue_step P W q (q\<lparr>q_leases := (q_leases q)(k \<mapsto> t')\<rparr>)"
| step_write:
    "W q a \<Longrightarrow> queue_step P W q (write_map q a m)"

text \<open>What \<^verbatim>\<open>Enqueue\<close> writes and stores, and what it has checked.\<close>

definition stamped_map :: "inmem_queue \<Rightarrow> entry \<Rightarrow> nat option \<Rightarrow> enqueue_options \<Rightarrow> metadata" where
  "stamped_map q e r opts =
     (if eo_IdempotencyKey opts \<noteq> [] then AList.update idempotency_meta_key (eo_IdempotencyKey opts) (passed_map q e r)
      else passed_map q e r)"

definition stamped_queue :: "inmem_queue \<Rightarrow> entry \<Rightarrow> nat option \<Rightarrow> enqueue_options \<Rightarrow> inmem_queue" where
  "stamped_queue q e r opts =
     (case r of Some a \<Rightarrow> if eo_IdempotencyKey opts \<noteq> [] then write_map q a (stamped_map q e r opts) else q | None \<Rightarrow> q)"

definition stamped :: "inmem_queue \<Rightarrow> entry \<Rightarrow> nat option \<Rightarrow> enqueue_options \<Rightarrow> string \<Rightarrow> entry" where
  "stamped q e r opts i = e\<lparr>en_ID := i, en_Metadata := stamped_map q e r opts\<rparr>"

definition admitted :: "inmem_queue \<Rightarrow> entry \<Rightarrow> enqueue_options \<Rightarrow> bool" where
  "admitted q e opts \<longleftrightarrow>
     (eo_IdempotencyKey opts \<noteq> [] \<longrightarrow> \<not> hasActiveKey q (eo_IdempotencyKey opts)) \<and>
     (eo_MaxPendingPerDevice opts > 0 \<longrightarrow> countPendingForDevice q (en_DeviceID e) < eo_MaxPendingPerDevice opts)"

text \<open>Some stored command refers to the map at an address.\<close>

definition refers :: "inmem_queue \<Rightarrow> nat \<Rightarrow> bool" where
  "refers q a \<longleftrightarrow> (\<exists>(k, e) \<in> set (q_entries q). q_ref q k = Some a)"

text \<open>
  A caller hands over its maps: it enqueues no map that a stored command refers to and none that has
  the queue's internal key, and it does not write to a map after it has enqueued it.
\<close>

fun hands_over :: "inmem_queue \<Rightarrow> qop \<Rightarrow> bool" where
  "hands_over q (QEnqueue e r opts newID) \<longleftrightarrow>
     map_of (passed_map q e r) idempotency_meta_key = None \<and> (case r of Some a \<Rightarrow> \<not> refers q a | None \<Rightarrow> True)"
| "hands_over q (QWriteMap a m) \<longleftrightarrow> \<not> refers q a"
| "hands_over q op \<longleftrightarrow> True"

fun all_handed_over :: "inmem_queue \<Rightarrow> (instant \<times> qop) list \<Rightarrow> bool" where
  "all_handed_over q [] \<longleftrightarrow> True"
| "all_handed_over q ((now, op) # ops) \<longleftrightarrow> hands_over q op \<and> all_handed_over (qstep q now op) ops"

text \<open>The addresses of the maps that a step may write to.\<close>

fun writes :: "qop \<Rightarrow> nat set" where
  "writes (QEnqueue e r opts newID) = set_option r"
| "writes (QWriteMap a m) = {a}"
| "writes op = {}"

text \<open>Taking a pending entry never fails.\<close>

definition sent :: "instant \<Rightarrow> entry \<Rightarrow> entry" where
  "sent now e = e\<lparr>en_Status := StatusSent, en_SentAt := Some now, en_Attempt := 1\<rparr>"

definition taken :: "inmem_queue \<Rightarrow> (string \<times> entry) list \<Rightarrow> bool" where
  "taken q ps \<longleftrightarrow> qinv q \<and> distinct (map fst ps) \<and>
     (\<forall>(k, e) \<in> set ps. find_entry q k = Some e \<and> en_Status e = StatusPending)"


definition expired_at :: "instant \<Rightarrow> entry \<Rightarrow> entry" where
  "expired_at now e = e\<lparr>en_Status := StatusExpired, en_CompletedAt := Some now\<rparr>"

definition active_key :: "entry \<Rightarrow> string \<Rightarrow> bool" where
  "active_key e key \<longleftrightarrow> \<not> command_IsTerminal (en_Status e) \<and> map_of (en_Metadata e) idempotency_meta_key = Some key"

definition keys_unique :: "inmem_queue \<Rightarrow> bool" where
  "keys_unique q \<longleftrightarrow> (\<forall>k k' e e' key. find_entry q k = Some e \<longrightarrow> find_entry q k' = Some e' \<longrightarrow>
     active_key e key \<longrightarrow> active_key e' key \<longrightarrow> k = k')"

definition sample_timeouts :: timeouts where
  "sample_timeouts = \<lparr>to_ScheduleToSend = 30, to_SendToComplete = 0, to_OverallDeadline = 0\<rparr>"

definition sample_entry :: "string \<Rightarrow> instant \<Rightarrow> entry" where
  "sample_entry i created = NewEntry i ''dev'' ''reboot'' ''{}'' sample_timeouts created"

definition sample_opts :: enqueue_options where
  "sample_opts = \<lparr>eo_IdempotencyKey = ''renew'', eo_Authz = None, eo_MaxPendingPerDevice = 2\<rparr>"

definition sample_qops :: "(instant \<times> qop) list" where
  "sample_qops =
     [(6, QEnqueue (sample_entry ''c1'' 5) (Some 0) sample_opts (Inr [])),
      (7, QEnqueue (sample_entry ''c2'' 6) (Some 1) sample_opts (Inr [])),
      (8, QEnqueue (sample_entry ''c3'' 7) None (sample_opts\<lparr>eo_IdempotencyKey := []\<rparr>) (Inr [])),
      (9, QDequeue ''dev'' 1 60), (10, QReport ''c1'')]"

definition sample_delivered :: entry where
  "sample_delivered = (sample_entry ''c1'' 5)\<lparr>en_Metadata := [(idempotency_meta_key, ''renew'')],
     en_Status := StatusDelivered, en_Attempt := 1, en_SentAt := Some 9, en_DeliveredAt := Some 10\<rparr>"

section \<open>Lemmas\<close>

subsection \<open>The store\<close>

lemma find_put_entry [simp]: "find_entry (put_entry q k e) j = (if j = k then Some e else find_entry q j)"
  by (simp add: find_entry_def put_entry_def update_conv')

lemma find_leases [simp]: "find_entry (q\<lparr>q_leases := l\<rparr>) = find_entry q"
  by (simp add: fun_eq_iff find_entry_def)

lemma put_fields [simp]: "q_leases (put_entry q k e) = q_leases q"
  by (simp add: put_entry_def)

lemma distinct_put [simp]: "distinct (map fst (q_entries (put_entry q k e))) \<longleftrightarrow> distinct (map fst (q_entries q))"
  by (simp add: put_entry_def)

lemma find_set_ref [simp]: "find_entry (set_ref q k r) = find_entry q"
  by (simp add: fun_eq_iff find_entry_def set_ref_def)

lemma set_ref_fields [simp]:
  "q_leases (set_ref q k r) = q_leases q" "q_entries (set_ref q k r) = q_entries q" "q_ref (set_ref q k r) = (q_ref q)(k := r)"
  "q_ref (put_entry q k e) = q_ref q"
  by (simp_all add: set_ref_def put_entry_def)

lemma find_write_map:
  "find_entry (write_map q a m) k =
     map_option (\<lambda>e. if q_ref q k = Some a then e\<lparr>en_Metadata := m\<rparr> else e) (find_entry q k)"
proof -
  have "map_of (map (\<lambda>(k, e). (k, if q_ref q k = Some a then e\<lparr>en_Metadata := m\<rparr> else e)) es) k =
      map_option (\<lambda>e. if q_ref q k = Some a then e\<lparr>en_Metadata := m\<rparr> else e) (map_of es k)" for es
    by (induction es) auto
  then show ?thesis by (simp add: find_entry_def write_map_def)
qed

lemma write_map_fields [simp]:
  "q_leases (write_map q a m) = q_leases q" "q_ref (write_map q a m) = q_ref q"
  "map fst (q_entries (write_map q a m)) = map fst (q_entries q)"
  by (simp_all add: write_map_def comp_def case_prod_beta)

lemma find_write_other: "\<not> refers q a \<Longrightarrow> find_entry (write_map q a m) k = find_entry q k"
proof (cases "find_entry q k")
  case (Some e)
  assume "\<not> refers q a"
  with Some have "q_ref q k \<noteq> Some a" by (auto simp: refers_def find_entry_def dest!: map_of_SomeD)
  with Some show ?thesis by (simp add: find_write_map)
qed (simp add: find_write_map)

lemma count_write_map [simp]: "countPendingForDevice (write_map q a m) d = countPendingForDevice q d"
proof -
  have "length (filter (\<lambda>(k, e). en_Status e = StatusPending \<and> en_DeviceID e = d)
      (map (\<lambda>(k, e). (k, if q_ref q k = Some a then e\<lparr>en_Metadata := m\<rparr> else e)) es)) =
    length (filter (\<lambda>(k, e). en_Status e = StatusPending \<and> en_DeviceID e = d) es)" for es
    by (induction es) (auto split: if_splits)
  then show ?thesis by (simp add: countPendingForDevice_def write_map_def)
qed

lemma row_inv_metadata [simp]: "row_inv l k (e\<lparr>en_Metadata := m\<rparr>) \<longleftrightarrow> row_inv l k e"
  by (simp add: row_inv_def entry_wf_def)

lemma qinv_distinct: "qinv q \<Longrightarrow> distinct (map fst (q_entries q))"
  by (simp add: qinv_def)

lemma qinv_row: "qinv q \<Longrightarrow> find_entry q k = Some e \<Longrightarrow> row_inv (q_leases q) k e"
  by (simp add: qinv_def)

lemma mem_entries: "qinv q \<Longrightarrow> (k, e) \<in> set (q_entries q) \<longleftrightarrow> find_entry q k = Some e"
  by (simp add: find_entry_def qinv_def)

lemma qinv_new: "qinv NewInMemQueue"
  by (simp add: qinv_def NewInMemQueue_def find_entry_def)

lemma advance_fields:
  assumes "AdvanceCommand (Some e) to now = Inr e'"
  shows "en_ID e' = en_ID e" "en_DeviceID e' = en_DeviceID e" "en_Metadata e' = en_Metadata e"
    "en_CreatedAt e' = en_CreatedAt e" "en_Timeouts e' = en_Timeouts e" "en_Status e' = to" "to \<noteq> StatusPending"
    "\<not> command_IsTerminal (en_Status e)"
proof -
  from assms have to: "to \<in> set (command_statusTransitions (en_Status e))" by (simp add: AdvanceCommand_ok)
  then show "to \<noteq> StatusPending" by (cases "en_Status e") auto
  show "\<not> command_IsTerminal (en_Status e)" by (rule not_terminal_edge [OF to])
qed (use assms in \<open>auto simp: AdvanceCommand_ok\<close>)

lemma row_inv_advance:
  assumes "row_inv l k e" and "AdvanceCommand (Some e) to now = Inr e'"
    and "L \<noteq> None \<longleftrightarrow> to \<in> {StatusSent, StatusDelivered}"
  shows "row_inv (l(k := L)) k e'"
proof -
  have "en_Attempt e' = (if en_SentAt e' = None then 0 else 1)"
  proof (cases "to = StatusSent")
    case True
    with assms have "en_Status e = StatusPending" by (cases "en_Status e") (auto simp: AdvanceCommand_ok)
    with assms(1) have "en_Attempt e = 0" by (simp add: row_inv_def entry_wf_def)
    with assms(2) True show ?thesis by (simp add: AdvanceCommand_ok in_i64_def min_i64_def max_i64_def)
  next
    case False
    with assms(1,2) show ?thesis by (simp add: AdvanceCommand_ok row_inv_def)
  qed
  with assms advance_fields [OF assms(2)] entry_wf_advance [OF _ assms(2)] show ?thesis
    by (simp add: row_inv_def)
qed

lemma row_inv_leases: "l k = l' k \<Longrightarrow> row_inv l k e \<longleftrightarrow> row_inv l' k e"
  by (simp add: row_inv_def)

lemma qinv_step: "queue_step P W q q' \<Longrightarrow> qinv q \<Longrightarrow> qinv q'"
proof (induction rule: queue_step.induct)
  case (step_insert q e r)
  then have "row_inv (q_leases q) (en_ID e) e"
    using entry_wf_new [of e] by (simp add: row_inv_def qinv_def ValidateNew_ok)
  with step_insert show ?case by (auto simp: qinv_def)
next
  case (step_advance q k e to now e' L)
  have "row_inv ((q_leases q)(k := L)) k e'"
    by (rule row_inv_advance [OF qinv_row [OF step_advance.prems step_advance.hyps(1)] step_advance.hyps(2,3)])
  with step_advance show ?case
    using row_inv_leases [of "(q_leases q)(k := L)" _ "q_leases q"] by (auto simp: qinv_def)
next
  case (step_extend q k t t')
  then have "find_entry q k \<noteq> None" by (auto simp: qinv_def)
  with step_extend show ?case by (auto simp: qinv_def row_inv_def)
next
  case (step_write q a m)
  then show ?case by (auto simp: qinv_def find_write_map)
qed

lemma qinv_steps: "(queue_step P W)\<^sup>*\<^sup>* q q' \<Longrightarrow> qinv q \<Longrightarrow> qinv q'"
  by (induction rule: rtranclp_induct) (auto intro: qinv_step)

subsection \<open>Every call is a sequence of effects\<close>

lemma Enqueue_stamped:
  "command_Enqueue q e r opts newID =
     (case eo_Authz opts of
        Some (Inl err) \<Rightarrow> (q, Inl (Wrap ''commandtest: authz rejected'' err))
      | _ \<Rightarrow>
        (case (if en_ID e = [] then newID else Inr (en_ID e)) of
           Inl err \<Rightarrow> (q, Inl err)
         | Inr i \<Rightarrow>
             (case command_ValidateNew (stamped q e r opts i) of
                Inl err \<Rightarrow> (stamped_queue q e r opts, Inl err)
              | Inr _ \<Rightarrow> storeIfNotDup (stamped_queue q e r opts) (stamped q e r opts i) r
                  (eo_IdempotencyKey opts) (eo_MaxPendingPerDevice opts))))"
  unfolding command_Enqueue_def stamped_def stamped_map_def stamped_queue_def Let_def ..

lemma stamp_steps:
  assumes "\<And>a. r = Some a \<Longrightarrow> W q a"
  shows "(queue_step P W)\<^sup>*\<^sup>* q (stamped_queue q e r opts)"
  using assms step_write [of W q _ P "stamped_map q e r opts"] by (auto simp: stamped_queue_def split: option.split)

lemma Enqueue_steps:
  assumes W: "\<And>a. r = Some a \<Longrightarrow> W q a"
    and P: "\<And>i. admitted (stamped_queue q e r opts) (stamped q e r opts i) opts \<Longrightarrow> P (stamped_queue q e r opts) (stamped q e r opts i)"
  shows "(queue_step P W)\<^sup>*\<^sup>* q (fst (command_Enqueue q e r opts newID))"
proof -
  let ?q = "stamped_queue q e r opts"
  have q: "(queue_step P W)\<^sup>*\<^sup>* q ?q" by (rule stamp_steps) (rule W)
  have "(queue_step P W)\<^sup>*\<^sup>* ?q (fst (storeIfNotDup ?q (stamped q e r opts i) r (eo_IdempotencyKey opts) (eo_MaxPendingPerDevice opts)))"
    if "command_ValidateNew (stamped q e r opts i) = Inr ()" for i
    using that P [of i] step_insert [of ?q "stamped q e r opts i" P W r]
    by (auto simp: storeIfNotDup_def admitted_def not_le)
  then show ?thesis
    using q by (auto simp: Enqueue_stamped split: option.split sum.split intro: rtranclp_trans)
qed

lemma steps_one: "queue_step P W q q' \<Longrightarrow> (queue_step P W)\<^sup>*\<^sup>* q q'"
  by blast

lemma Report_steps: "qinv q \<Longrightarrow> (queue_step P W)\<^sup>*\<^sup>* q (fst (command_Report q k now))"
proof (cases "find_entry q k")
  case (Some e)
  assume inv: "qinv q"
  show ?thesis
  proof (cases "en_Status e = StatusDelivered \<or> (\<exists>err. AdvanceCommand (Some e) StatusDelivered now = Inl err)")
    case False
    then obtain e' where e': "AdvanceCommand (Some e) StatusDelivered now = Inr e'"
      by (cases "AdvanceCommand (Some e) StatusDelivered now") auto
    then have "en_Status e = StatusSent" by (cases "en_Status e") (auto simp: AdvanceCommand_ok)
    with qinv_row [OF inv Some] have "q_leases q k \<noteq> None" by (simp add: row_inv_def)
    then have "queue_step P W q ((put_entry q k e')\<lparr>q_leases := (q_leases q)(k := q_leases q k)\<rparr>)"
      by (intro step_advance [OF Some e']) simp
    with Some False e' show ?thesis by (auto simp: command_Report_def put_entry_def)
  qed (use Some in \<open>auto simp: command_Report_def\<close>)
qed (simp add: command_Report_def)

lemma Ack_cases:
  assumes inv: "qinv q" and e: "find_entry q k = Some e" and r: "AckReason_Valid r"
    and e': "AdvanceCommand (Some e) (TargetStatus r) now = Inr e'"
  shows "command_Ack q k r now = ((put_entry q k e')\<lparr>q_leases := (q_leases q)(k := None)\<rparr>, Inr ())"
  using assms advance_fields [OF e'] by (simp add: command_Ack_def Let_def put_entry_def)

lemma target_terminal: "AckReason_Valid r \<Longrightarrow> command_IsTerminal (TargetStatus r)"
  by (cases r) (simp_all add: AckReason_Valid_def command_IsTerminal_def)

lemma not_in_flight: "command_IsTerminal s \<Longrightarrow> s \<notin> {StatusSent, StatusDelivered}"
  by (auto simp: command_IsTerminal_def)

lemma ack_fails_pending:
  assumes "entry_wf e" and "AckReason_Valid r" and "\<not> command_IsTerminal (en_Status e)"
    and err: "AdvanceCommand (Some e) (TargetStatus r) now = Inl err"
  shows "en_Status e = StatusPending"
proof (rule ccontr)
  assume "en_Status e \<noteq> StatusPending"
  with assms(1,3) have "en_Status e = StatusSent \<or> en_Status e = StatusDelivered"
    by (cases "en_Status e") (simp_all add: entry_wf_def command_status_Valid_def command_IsTerminal_def)
  with assms(2) have "TargetStatus r \<in> set (command_statusTransitions (en_Status e))"
    by (cases r) (auto simp: AckReason_Valid_def)
  moreover have "TargetStatus r \<noteq> StatusSent" "TargetStatus r \<noteq> StatusDelivered" by (cases r; simp)+
  ultimately have "\<exists>e'. AdvanceCommand (Some e) (TargetStatus r) now = Inr e'" by (simp add: AdvanceCommand_ok)
  with err show False by simp
qed

lemma Ack_steps: "qinv q \<Longrightarrow> (queue_step P W)\<^sup>*\<^sup>* q (fst (command_Ack q k r now))"
proof (cases "find_entry q k")
  case (Some e)
  assume inv: "qinv q"
  consider "\<not> AckReason_Valid r" | "AckReason_Valid r" "command_IsTerminal (en_Status e)"
    | err where "AckReason_Valid r" "\<not> command_IsTerminal (en_Status e)" "AdvanceCommand (Some e) (TargetStatus r) now = Inl err"
    | e' where "AckReason_Valid r" "AdvanceCommand (Some e) (TargetStatus r) now = Inr e'"
    by (cases "AdvanceCommand (Some e) (TargetStatus r) now") blast+
  then show ?thesis
  proof cases
    case 3
    then have "en_Status e = StatusPending"
      using qinv_row [OF inv Some] ack_fails_pending by (auto simp: row_inv_def)
    with qinv_row [OF inv Some] have "q_leases q k = None" by (simp add: row_inv_def)
    then have "(q_leases q)(k := None) = q_leases q" by auto
    with 3 Some show ?thesis by (simp add: command_Ack_def Let_def)
  next
    case (4 e')
    have "queue_step P W q ((put_entry q k e')\<lparr>q_leases := (q_leases q)(k := None)\<rparr>)"
      using not_in_flight [OF target_terminal [OF 4(1)]] by (intro step_advance [OF Some 4(2)]) simp
    with Ack_cases [OF inv Some 4] show ?thesis by auto
  qed (use Some in \<open>auto simp: command_Ack_def Let_def\<close>)
qed (simp add: command_Ack_def)


lemma Cancel_steps: "(queue_step P W)\<^sup>*\<^sup>* q (fst (command_Cancel q k now))"
proof (cases "\<exists>e e'. find_entry q k = Some e \<and> AdvanceCommand (Some e) StatusCanceled now = Inr e'")
  case True
  then obtain e e' where e: "find_entry q k = Some e" "AdvanceCommand (Some e) StatusCanceled now = Inr e'" by blast
  have "queue_step P W q ((put_entry q k e')\<lparr>q_leases := (q_leases q)(k := None)\<rparr>)"
    by (rule step_advance [OF e]) simp
  with e show ?thesis by (auto simp: command_Cancel_def)
qed (auto simp: command_Cancel_def split: option.split sum.split)

lemma Extend_steps: "(queue_step P W)\<^sup>*\<^sup>* q (fst (ExtendLease q k d now))"
  by (auto simp: ExtendLease_def intro: step_extend split: option.split)

lemma advance_pending:
  assumes "row_inv l k e" and "en_Status e = StatusPending"
  shows "AdvanceCommand (Some e) StatusSent now = Inr (sent now e)"
  using assms
  by (simp add: AdvanceCommand_ok sent_def row_inv_def entry_wf_def command_IsTerminal_def in_i64_def min_i64_def max_i64_def)

lemma taken_Cons:
  assumes t: "taken q ((k, e) # ps)"
  shows "find_entry q k = Some e" "en_ID e = k" "AdvanceCommand (Some e) StatusSent now = Inr (sent now e)"
    "queue_step P W q ((put_entry q k (sent now e))\<lparr>q_leases := (q_leases q)(k \<mapsto> u)\<rparr>)"
    "taken ((put_entry q k (sent now e))\<lparr>q_leases := (q_leases q)(k \<mapsto> u)\<rparr>) ps"
proof -
  from t have inv: "qinv q" and st: "en_Status e = StatusPending" by (simp_all add: taken_def)
  from t show e: "find_entry q k = Some e" by (simp add: taken_def)
  from qinv_row [OF inv e] show "en_ID e = k" by (simp add: row_inv_def)
  show adv: "AdvanceCommand (Some e) StatusSent now = Inr (sent now e)"
    by (rule advance_pending [OF qinv_row [OF inv e] st])
  show step: "queue_step P W q ((put_entry q k (sent now e))\<lparr>q_leases := (q_leases q)(k \<mapsto> u)\<rparr>)" for P W
    by (rule step_advance [OF e adv]) simp
  have "k \<notin> fst ` set ps" using t by (simp add: taken_def)
  then show "taken ((put_entry q k (sent now e))\<lparr>q_leases := (q_leases q)(k \<mapsto> u)\<rparr>) ps"
    using t qinv_step [OF step inv] by (force simp: taken_def)
qed

lemma dequeue_loop_result:
  "taken q ps \<Longrightarrow> \<exists>q'. dequeue_loop now d q ps = (q', map (\<lambda>p. stripInternalMetaKeys (sent now (snd p))) ps) \<and>
     (queue_step P W)\<^sup>*\<^sup>* q q' \<and>
     find_entry q' = (\<lambda>k. case map_of ps k of Some e \<Rightarrow> Some (sent now e) | None \<Rightarrow> find_entry q k) \<and>
     q_leases q' = (\<lambda>k. if k \<in> fst ` set ps then Some (now + d) else q_leases q k)"
proof (induction ps arbitrary: q)
  case (Cons p ps)
  obtain k e where p: "p = (k, e)" by (cases p)
  let ?q = "(put_entry q k (sent now e))\<lparr>q_leases := (q_leases q)(k \<mapsto> now + d)\<rparr>"
  note t = taken_Cons [OF Cons.prems [unfolded p]]
  from Cons.IH [OF t(5)] obtain q' where q': "dequeue_loop now d ?q ps = (q', map (\<lambda>p. stripInternalMetaKeys (sent now (snd p))) ps)"
      "(queue_step P W)\<^sup>*\<^sup>* ?q q'"
      "find_entry q' = (\<lambda>k. case map_of ps k of Some e \<Rightarrow> Some (sent now e) | None \<Rightarrow> find_entry ?q k)"
      "q_leases q' = (\<lambda>k. if k \<in> fst ` set ps then Some (now + d) else q_leases ?q k)" by blast
  from Cons.prems have "map_of ps k = None" by (simp add: taken_def p map_of_eq_None_iff)
  then have "find_entry q' = (\<lambda>j. case map_of (p # ps) j of Some e \<Rightarrow> Some (sent now e) | None \<Rightarrow> find_entry q j)"
    by (auto simp: q'(3) p fun_eq_iff split: option.split)
  moreover have "dequeue_loop now d q (p # ps) = (q', map (\<lambda>p. stripInternalMetaKeys (sent now (snd p))) (p # ps))"
    using t(2,3) q'(1) by (simp add: p)
  moreover have "(queue_step P W)\<^sup>*\<^sup>* q q'"
    by (rule converse_rtranclp_into_rtranclp [OF t(4) q'(2)])
  moreover have "q_leases q' = (\<lambda>j. if j \<in> fst ` set (p # ps) then Some (now + d) else q_leases q j)"
    by (auto simp: q'(4) p)
  ultimately show ?case by blast
qed auto

lemma distinct_map_sort_key: "distinct (map g (sort_key f xs)) \<longleftrightarrow> distinct (map g xs)"
  by (simp add: distinct_map)

lemma pending_for_taken:
  assumes inv: "qinv q"
  shows "taken q (take n (pending_for q dev))"
proof -
  have "distinct (map fst (pending_for q dev))"
    unfolding pending_for_def distinct_map_sort_key using qinv_distinct [OF inv] by (rule distinct_map_filter)
  then have "distinct (map fst (take n (pending_for q dev)))" by (metis distinct_take take_map)
  moreover have "find_entry q k = Some e \<and> en_Status e = StatusPending" if "(k, e) \<in> set (take n (pending_for q dev))" for k e
    using in_set_takeD [OF that] inv by (simp add: pending_for_def mem_entries)
  ultimately show ?thesis using inv by (auto simp: taken_def)
qed

lemma Dequeue_steps: "qinv q \<Longrightarrow> (queue_step P W)\<^sup>*\<^sup>* q (fst (command_Dequeue q now dev n d))"
proof -
  assume inv: "qinv q"
  have "(queue_step P W)\<^sup>*\<^sup>* q (fst (dequeue_loop now l q (take m (pending_for q dev))))" for l m
    using dequeue_loop_result [OF pending_for_taken [OF inv], where n1 = m and dev1 = dev and d = l and now = now and P = P and W = W] by auto
  then show ?thesis by (simp add: command_Dequeue_def Let_def case_prod_beta)
qed

subsection \<open>The sweeper's contract\<close>

lemma expired_at_idem [simp]: "expired_at now (expired_at now e) = expired_at now e"
  by (simp add: expired_at_def)






lemma qinv_ID: "qinv q \<Longrightarrow> find_entry q k = Some e \<Longrightarrow> en_ID e = k"
  using qinv_row [of q k e] by (simp add: row_inv_def)





lemma sweep_acks_steps: "qinv q \<Longrightarrow> (queue_step P W)\<^sup>*\<^sup>* q (fst (sweep_acks command_Ack now q ts))"
proof (induction ts arbitrary: q)
  case (Cons t ts)
  obtain q1 r where a: "command_Ack q (ex_CommandID t) AckTimeout now = (q1, r)" by fastforce
  have s: "(queue_step P W)\<^sup>*\<^sup>* q q1" using Ack_steps [OF Cons.prems, of P W "ex_CommandID t" AckTimeout now] a by simp
  have "(queue_step P W)\<^sup>*\<^sup>* q1 (fst (sweep_acks command_Ack now q1 ts))"
    by (rule Cons.IH [OF qinv_steps [OF s Cons.prems]])
  with s a show ?case by (simp add: Let_def case_prod_beta)
qed simp

lemma Sweep_steps: "qinv q \<Longrightarrow> (queue_step P W)\<^sup>*\<^sup>* q (fst (SweepTick ScanActive command_Ack sw q now))"
  by (simp add: SweepTick_def sweep_acks_steps split: option.split sum.split)

text \<open>A tick of the sweeper is its acknowledgements, one after the other.\<close>

lemma sweep_is_acks:
  assumes "ScanActive q flt = Inr es"
  shows "qstep q now (QSweep flt) = qexec q (map (\<lambda>t. (now, QAck (ex_CommandID t) AckTimeout)) (SweepOnce es now))"
proof -
  have "fst (sweep_acks command_Ack now q ts) = qexec q (map (\<lambda>t. (now, QAck (ex_CommandID t) AckTimeout)) ts)" for ts
    by (induction ts arbitrary: q) (simp_all add: Let_def case_prod_beta)
  with assms show ?thesis by (simp add: SweepTick_def)
qed

lemma qstep_steps:
  assumes "qinv q" and "\<And>a. a \<in> writes op \<Longrightarrow> W q a"
    and "\<And>e r opts newID i. op = QEnqueue e r opts newID \<Longrightarrow>
      admitted (stamped_queue q e r opts) (stamped q e r opts i) opts \<Longrightarrow> P (stamped_queue q e r opts) (stamped q e r opts i)"
  shows "(queue_step P W)\<^sup>*\<^sup>* q (qstep q now op)"
  using assms
  by (cases op) (simp_all add: Enqueue_steps Dequeue_steps Report_steps Ack_steps Extend_steps Cancel_steps Sweep_steps
      steps_one [OF step_write])

text \<open>An invariant of the effects is an invariant of every interleaving of calls.\<close>

lemma steps_invariant:
  assumes "(queue_step P W)\<^sup>*\<^sup>* q q'" and "qinv q" and "I q"
    and "\<And>q q'. qinv q \<Longrightarrow> I q \<Longrightarrow> queue_step P W q q' \<Longrightarrow> I q'"
  shows "I q'"
  using assms(1-3)
proof (induction rule: rtranclp_induct)
  case (step y z)
  then show ?case using assms(4) [OF qinv_steps [OF step.hyps(1) step.prems(1)]] by blast
qed

lemma qexec_invariant:
  assumes step: "\<And>q q'. qinv q \<Longrightarrow> I q \<Longrightarrow> queue_step P W q q' \<Longrightarrow> I q'"
    and wr: "\<And>q t op a. (t, op) \<in> set ops \<Longrightarrow> a \<in> writes op \<Longrightarrow> I q \<Longrightarrow> W q a"
    and enq: "\<And>q t e r opts newID p i. (t, QEnqueue e r opts newID) \<in> set ops \<Longrightarrow> qinv q \<Longrightarrow> I q \<Longrightarrow>
      admitted q (stamped p e r opts i) opts \<Longrightarrow> P q (stamped p e r opts i)"
  shows "qinv q \<Longrightarrow> I q \<Longrightarrow> qinv (qexec q ops) \<and> I (qexec q ops)"
  using wr enq
proof (induction ops arbitrary: q)
  case (Cons top ops)
  obtain t op where top: "top = (t, op)" by (cases top)
  have mem: "(t, op) \<in> set (top # ops)" by (simp add: top)
  have W: "W q a" if "a \<in> writes op" for a by (rule Cons.prems(3) [OF mem that Cons.prems(2)])
  have s: "(queue_step P W)\<^sup>*\<^sup>* q (qstep q t op)"
  proof (rule qstep_steps [where W = W, OF Cons.prems(1) W])
    fix e r opts newID i
    assume op: "op = QEnqueue e r opts newID" and adm: "admitted (stamped_queue q e r opts) (stamped q e r opts i) opts"
    have st: "(queue_step P W)\<^sup>*\<^sup>* q (stamped_queue q e r opts)" by (rule stamp_steps) (use W op in auto)
    show "P (stamped_queue q e r opts) (stamped q e r opts i)"
      by (rule Cons.prems(4) [OF mem [unfolded op] qinv_steps [OF st Cons.prems(1)]
            steps_invariant [where I = I, OF st Cons.prems(1,2) step] adm])
  qed
  have "qinv (qexec (qstep q t op) ops) \<and> I (qexec (qstep q t op) ops)"
  proof (rule Cons.IH)
    show "qinv (qstep q t op)" by (rule qinv_steps [OF s Cons.prems(1)])
    show "I (qstep q t op)" by (rule steps_invariant [where I = I, OF s Cons.prems(1,2) step])
    show "W q a" if "(t, op) \<in> set ops" "a \<in> writes op" "I q" for q t op a
      by (rule Cons.prems(3) [of t, OF _ that(2,3)]) (use that(1) in simp)
    show "P q (stamped p e r opts i)" if "(t, QEnqueue e r opts newID) \<in> set ops" "qinv q" "I q"
      "admitted q (stamped p e r opts i) opts" for q t e r opts newID p i
      by (rule Cons.prems(4) [of t _ _ _ newID, OF _ that(2-4)]) (use that(1) in simp)
  qed
  then show ?case by (simp add: top)
qed simp

lemma qinv_qexec: "qinv q \<Longrightarrow> qinv (qexec q ops)"
  using qexec_invariant [where I = "\<lambda>_. True" and P = "\<lambda>_ _. True" and W = "\<lambda>_ _. True"] by simp

lemma qinv_queue_after: "qinv (queue_after ops)"
  by (rule qinv_qexec [OF qinv_new])

subsection \<open>Active keys and pending counts\<close>

lemma hasActiveKey_iff: "qinv q \<Longrightarrow> hasActiveKey q key \<longleftrightarrow> (\<exists>k e. find_entry q k = Some e \<and> active_key e key)"
  by (simp add: hasActiveKey_def active_key_def list_ex_iff Bex_def mem_entries split_paired_Ex)

lemma active_key_advance: "AdvanceCommand (Some e) to now = Inr e' \<Longrightarrow> active_key e' key \<Longrightarrow> active_key e key"
  using advance_fields [of e to now e'] by (simp add: active_key_def)

lemma keys_unique_step:
  assumes "qinv q" and u: "keys_unique q"
    and "queue_step (\<lambda>q e. \<forall>key. active_key e key \<longrightarrow> \<not> hasActiveKey q key) (\<lambda>q a. \<not> refers q a) q q'"
  shows "keys_unique q'"
  using assms(3)
proof cases
  case (step_insert e r)
  then have fresh: "\<not> active_key e' key" if "active_key e key" "find_entry q k = Some e'" for k e' key
    using that hasActiveKey_iff [OF assms(1)] by blast
  show ?thesis
    unfolding keys_unique_def
  proof (intro allI impI)
    fix k k' f f' key
    assume "find_entry q' k = Some f" "find_entry q' k' = Some f'" "active_key f key" "active_key f' key"
    with u fresh step_insert(1) show "k = k'" unfolding keys_unique_def by (auto split: if_splits)
  qed
next
  case (step_advance k e to now e' L)
  with u active_key_advance [OF step_advance(3)] show ?thesis
    unfolding keys_unique_def by (auto split: if_splits)
next
  case (step_extend k t t')
  with u show ?thesis by (simp add: keys_unique_def)
next
  case (step_write a m)
  with u show ?thesis by (simp add: keys_unique_def find_write_other)
qed

lemma keys_unique_exec:
  "qinv q \<Longrightarrow> keys_unique q \<Longrightarrow> all_handed_over q ops \<Longrightarrow> keys_unique (qexec q ops)"
proof (induction ops arbitrary: q)
  case (Cons top ops)
  obtain t op where top: "top = (t, op)" by (cases top)
  let ?P = "\<lambda>q e. \<forall>key. active_key e key \<longrightarrow> \<not> hasActiveKey q key" and ?W = "\<lambda>q a. \<not> refers q a"
  from Cons.prems(3) have over: "hands_over q op" "all_handed_over (qstep q t op) ops" by (simp_all add: top)
  have s: "(queue_step ?P ?W)\<^sup>*\<^sup>* q (qstep q t op)"
  proof (rule qstep_steps [OF Cons.prems(1)])
    show "\<not> refers q a" if "a \<in> writes op" for a using over(1) that by (cases op) auto
    fix e r opts newID i
    assume "op = QEnqueue e r opts newID" and "admitted (stamped_queue q e r opts) (stamped q e r opts i) opts"
    then show "\<forall>key. active_key (stamped q e r opts i) key \<longrightarrow> \<not> hasActiveKey (stamped_queue q e r opts) key"
      using over(1) by (auto simp: stamped_def stamped_map_def active_key_def admitted_def update_conv')
  qed
  have "keys_unique (qstep q t op)"
    by (rule steps_invariant [where I = keys_unique, OF s Cons.prems(1,2)]) (rule keys_unique_step)
  from Cons.IH [OF qinv_steps [OF s Cons.prems(1)] this over(2)] show ?case by (simp add: top)
qed simp

lemma count_card:
  assumes "qinv q"
  shows "countPendingForDevice q d =
    int (card {k. \<exists>e. find_entry q k = Some e \<and> en_Status e = StatusPending \<and> en_DeviceID e = d})"
proof -
  let ?xs = "filter (\<lambda>(k, e). en_Status e = StatusPending \<and> en_DeviceID e = d) (q_entries q)"
  have "distinct (map fst ?xs)" using qinv_distinct [OF assms] by (rule distinct_map_filter)
  from distinct_card [OF this] have "length ?xs = card (set (map fst ?xs))" by simp
  moreover have "set (map fst ?xs) = {k. \<exists>e. find_entry q k = Some e \<and> en_Status e = StatusPending \<and> en_DeviceID e = d}"
    by (auto simp: mem_entries [OF assms, symmetric] intro: rev_image_eqI)
  ultimately show ?thesis by (simp add: countPendingForDevice_def)
qed

lemma finite_entries: "finite {k. \<exists>e. find_entry q k = Some e \<and> Q e}"
proof (rule finite_subset)
  show "{k. \<exists>e. find_entry q k = Some e \<and> Q e} \<subseteq> fst ` set (q_entries q)"
    by (auto simp: find_entry_def dest!: map_of_SomeD intro: rev_image_eqI)
qed simp

lemma pending_cap_step:
  assumes inv: "qinv q" and c: "countPendingForDevice q d \<le> cap"
    and s: "queue_step (\<lambda>q e. en_DeviceID e = d \<longrightarrow> countPendingForDevice q d < cap) W q q'"
  shows "countPendingForDevice q' d \<le> cap"
proof -
  let ?S = "\<lambda>q. {k. \<exists>e. find_entry q k = Some e \<and> en_Status e = StatusPending \<and> en_DeviceID e = d}"
  have inv': "qinv q'" by (rule qinv_step [OF s inv])
  from s show ?thesis
  proof cases
    case (step_insert e r)
    show ?thesis
    proof (cases "en_DeviceID e = d")
      case True
      have "?S q' \<subseteq> insert (en_ID e) (?S q)" by (auto simp: step_insert(1) split: if_splits)
      then have "card (?S q') \<le> card (insert (en_ID e) (?S q))"
        by (rule card_mono [OF finite_insert [THEN iffD2, OF finite_entries]])
      also have "\<dots> \<le> card (?S q) + 1" by (simp add: card_insert_if finite_entries)
      finally have "card (?S q') \<le> card (?S q) + 1" .
      with True step_insert(4) show ?thesis by (simp add: count_card [OF inv] count_card [OF inv'])
    next
      case False
      then have "?S q' \<subseteq> ?S q" by (auto simp: step_insert(1) split: if_splits)
      then have "card (?S q') \<le> card (?S q)" by (rule card_mono [OF finite_entries])
      with c show ?thesis by (simp add: count_card [OF inv] count_card [OF inv'])
    qed
  next
    case (step_advance k e to now e' L)
    then have "?S q' \<subseteq> ?S q" using advance_fields [OF step_advance(3)] by (auto split: if_splits)
    then have "card (?S q') \<le> card (?S q)" by (rule card_mono [OF finite_entries])
    with c show ?thesis by (simp add: count_card [OF inv] count_card [OF inv'])
  next
    case (step_extend k t t')
    with c show ?thesis by (simp add: countPendingForDevice_def)
  next
    case (step_write a m)
    with c show ?thesis by simp
  qed
qed

subsection \<open>A sample history\<close>

lemma sample_q_find:
  "find_entry (queue_after sample_qops) ''c1'' = Some sample_delivered"
  "find_entry (queue_after sample_qops) ''c2'' = None"
  "find_entry (queue_after sample_qops) ''c3'' = Some (sample_entry ''c3'' 7)"
  by code_simp+

lemma sample_q_handed: "all_handed_over NewInMemQueue sample_qops"
  by code_simp

text \<open>What a step can do to a finished command.\<close>

lemma finished_step:
  assumes "queue_step P W q q'" and e: "find_entry q k = Some e" and fin: "command_IsTerminal (en_Status e)"
  shows "q_ref q' k = q_ref q k \<and> (\<exists>m. find_entry q' k = Some (e\<lparr>en_Metadata := m\<rparr>)) \<and>
    ((\<forall>a. W q a \<longrightarrow> q_ref q k \<noteq> Some a) \<longrightarrow> find_entry q' k = Some e)"
  using assms(1)
proof cases
  case (step_advance j f to now f' L)
  with e fin advance_fields [OF step_advance(3)] show ?thesis by (cases "j = k") (auto intro: exI [of _ "en_Metadata e"])
qed (use e in \<open>auto simp: find_write_map intro: exI [of _ "en_Metadata e"]\<close>)

lemma keys_unique_new: "keys_unique NewInMemQueue"
  by (simp add: keys_unique_def NewInMemQueue_def find_entry_def)

lemma count_new: "countPendingForDevice NewInMemQueue d = 0"
  by (simp add: countPendingForDevice_def NewInMemQueue_def)

lemma pending_for_mem:
  "qinv q \<Longrightarrow> (k, e) \<in> set (pending_for q dev) \<longleftrightarrow> find_entry q k = Some e \<and> en_DeviceID e = dev \<and> en_Status e = StatusPending"
  by (simp add: pending_for_def mem_entries)

lemma pending_for_length: "int (length (pending_for q dev)) = countPendingForDevice q dev"
proof -
  have "filter (\<lambda>(k, e). en_DeviceID e = dev \<and> en_Status e = StatusPending) (q_entries q) =
      filter (\<lambda>(k, e). en_Status e = StatusPending \<and> en_DeviceID e = dev) (q_entries q)"
    by (rule filter_cong) auto
  then show ?thesis by (simp add: pending_for_def countPendingForDevice_def)
qed

lemma pending_for_sorted: "sorted (map (\<lambda>p. en_CreatedAt (snd p)) (pending_for q dev))"
  using sorted_sort_key [of "\<lambda>p. en_CreatedAt (snd p)"] by (simp add: pending_for_def case_prod_beta')

lemma Dequeue_loop:
  assumes "0 \<le> n"
  shows "command_Dequeue q now dev n d =
    (let r = dequeue_loop now (if d \<le> 0 then command_DefaultLeaseDuration else d) q (take (nat n) (pending_for q dev))
     in (fst r, Inr (snd r)))"
  using assms by (cases "n > int (length (pending_for q dev))") (simp_all add: command_Dequeue_def Let_def case_prod_beta)

lemma not_picked:
  assumes inv: "qinv q" and "find_entry q k = Some e" and "e \<notin> snd ` set (take n (pending_for q dev))"
  shows "k \<notin> fst ` set (take n (pending_for q dev))"
proof
  assume "k \<in> fst ` set (take n (pending_for q dev))"
  then obtain f where f: "(k, f) \<in> set (take n (pending_for q dev))" by auto
  then have "find_entry q k = Some f" using in_set_takeD [OF f] inv by (simp add: pending_for_mem)
  with assms(2) have "(k, e) \<in> set (take n (pending_for q dev))" using f by simp
  with assms(3) show False by (auto intro: rev_image_eqI)
qed

subsection \<open>Properties\<close>

text \<open>
  C24. After any interleaving of queue calls every command is well formed (its status and its timestamps
  agree), it has a lease exactly while it is in flight, and it has been handed to its device at most
  once.
\<close>

theorem command_queue_consistent:
  assumes "find_entry (queue_after ops) k = Some e"
  shows "en_ID e = k \<and> entry_wf e \<and>
    (q_leases (queue_after ops) k \<noteq> None \<longleftrightarrow> en_Status e \<in> {StatusSent, StatusDelivered}) \<and>
    en_Attempt e = (if en_SentAt e = None then 0 else 1)"
  using qinv_row [OF qinv_queue_after assms] by (simp add: row_inv_def)

theorem command_queue_consistent_witness:
  "entry_wf sample_delivered \<and> q_leases (queue_after sample_qops) ''c1'' \<noteq> None"
  using command_queue_consistent [OF sample_q_find(1)] by (simp add: sample_delivered_def)

text \<open>
  C25. At most one command per idempotency key is active at any moment, whatever the interleaving, as long
  as callers hand over their metadata maps: no enqueue passes a map that a stored command still refers
  to, or one that carries the queue's internal key, and no caller writes to a map it has enqueued. (The
  queue itself puts its internal key into the map that was passed, so a caller that uses a map for two
  enqueues breaks this rule without ever writing to the map.)
\<close>

theorem active_key_is_unique:
  assumes "all_handed_over NewInMemQueue ops"
    and "find_entry (queue_after ops) k = Some e" and "find_entry (queue_after ops) k' = Some e'"
    and "active_key e key" and "active_key e' key"
  shows "k = k'"
  using keys_unique_exec [OF qinv_new keys_unique_new assms(1)] assms(2-5) unfolding keys_unique_def by blast

theorem active_key_is_unique_witness:
  "{k. \<exists>e. find_entry (queue_after sample_qops) k = Some e \<and> active_key e ''renew''} = {''c1''}"
proof -
  have key: "active_key sample_delivered ''renew''"
    by (simp add: active_key_def sample_delivered_def command_IsTerminal_def)
  have "k = ''c1''" if "find_entry (queue_after sample_qops) k = Some e" "active_key e ''renew''" for k e
    by (rule active_key_is_unique [OF sample_q_handed that(1) sample_q_find(1) that(2) key])
  then show ?thesis using sample_q_find(1) key by blast
qed

text \<open>
  C26. A caller that uses one metadata map for two commands loses the second one: when the map of an
  active command is passed again with an idempotency key, \<^verbatim>\<open>Enqueue\<close> writes the key into the map, finds
  the earlier command as the holder of that key, and reports success without storing anything. The
  earlier command now carries the new key in place of its own.
\<close>

theorem reused_map_drops_command:
  assumes "q = queue_after ops" and "find_entry q k = Some e0" and "q_ref q k = Some a" and "\<not> command_IsTerminal (en_Status e0)"
    and "eo_Authz opts = None" and "eo_IdempotencyKey opts \<noteq> []" and "en_ID e \<noteq> []"
    and "command_ValidateNew (e\<lparr>en_Metadata := AList.update idempotency_meta_key (eo_IdempotencyKey opts) (q_maps q a)\<rparr>) = Inr ()"
  shows "\<exists>q'. command_Enqueue q e (Some a) opts newID = (q', Inr ()) \<and>
    dom (find_entry q') = dom (find_entry q) \<and>
    (\<exists>e1. find_entry q' k = Some e1 \<and> (\<forall>key. active_key e1 key \<longleftrightarrow> key = eo_IdempotencyKey opts))"
proof -
  let ?q = "stamped_queue q e (Some a) opts"
  let ?e1 = "e0\<lparr>en_Metadata := stamped_map q e (Some a) opts\<rparr>"
  have inv: "qinv q" unfolding assms(1) by (rule qinv_queue_after)
  then have inv': "qinv ?q" using qinv_steps [OF stamp_steps [where P = "\<lambda>_ _. True" and W = "\<lambda>_ _. True"]] by blast
  have e1: "find_entry ?q k = Some ?e1" using assms(2,3,6) by (simp add: stamped_queue_def find_write_map)
  have act: "active_key ?e1 key \<longleftrightarrow> key = eo_IdempotencyKey opts" for key
    using assms(4,6) by (auto simp: active_key_def stamped_map_def update_conv')
  then have "hasActiveKey ?q (eo_IdempotencyKey opts)" using e1 hasActiveKey_iff [OF inv'] by blast
  then have "command_Enqueue q e (Some a) opts newID = (?q, Inr ())"
    using assms(5-8) by (simp add: Enqueue_stamped storeIfNotDup_def stamped_def stamped_map_def passed_map_def)
  moreover have "dom (find_entry ?q) = dom (find_entry q)"
    using assms(6) by (auto simp: stamped_queue_def find_write_map dom_def)
  ultimately show ?thesis using e1 act by blast
qed

theorem reused_map_drops_command_witness:
  "\<exists>q'. command_Enqueue (queue_after sample_qops) (sample_entry ''c4'' 11) (Some 0)
        (sample_opts\<lparr>eo_IdempotencyKey := ''rotate''\<rparr>) (Inr []) = (q', Inr ()) \<and>
     find_entry q' ''c4'' = None \<and> (\<exists>e1. find_entry q' ''c1'' = Some e1 \<and> active_key e1 ''rotate'')"
proof -
  have ref: "q_ref (queue_after sample_qops) ''c1'' = Some 0" "find_entry (queue_after sample_qops) ''c4'' = None"
    "q_maps (queue_after sample_qops) 0 = [(idempotency_meta_key, ''renew'')]" by code_simp+
  have valid: "command_ValidateNew ((sample_entry ''c4'' 11)\<lparr>en_Metadata := AList.update idempotency_meta_key
      (eo_IdempotencyKey (sample_opts\<lparr>eo_IdempotencyKey := ''rotate''\<rparr>)) (q_maps (queue_after sample_qops) 0)\<rparr>) = Inr ()"
    unfolding ref(3) by code_simp
  have act: "\<not> command_IsTerminal (en_Status sample_delivered)" by (simp add: sample_delivered_def command_IsTerminal_def)
  obtain q' e1 where
    "command_Enqueue (queue_after sample_qops) (sample_entry ''c4'' 11) (Some 0) (sample_opts\<lparr>eo_IdempotencyKey := ''rotate''\<rparr>)
      (Inr []) = (q', Inr ())" "dom (find_entry q') = dom (find_entry (queue_after sample_qops))"
    "find_entry q' ''c1'' = Some e1" "active_key e1 ''rotate''"
    using reused_map_drops_command [OF refl sample_q_find(1) ref(1) act _ _ _ valid, of "Inr []"]
    by (fastforce simp: sample_opts_def sample_entry_def NewEntry_def)
  then show ?thesis using ref(2) by (intro exI [of _ q']) (auto simp: domIff [symmetric])
qed

text \<open>
  C27. The cap on pending commands is hard: when every enqueue for a device asks for a cap of at most
  \<open>cap\<close>, no interleaving of calls ever leaves more than \<open>cap\<close> commands of that device pending.
\<close>

theorem pending_cap_is_hard:
  assumes "\<And>t e r opts newID. (t, QEnqueue e r opts newID) \<in> set ops \<Longrightarrow> en_DeviceID e = d \<Longrightarrow>
      0 < eo_MaxPendingPerDevice opts \<and> eo_MaxPendingPerDevice opts \<le> cap"
    and "0 \<le> cap"
  shows "countPendingForDevice (queue_after ops) d \<le> cap"
proof -
  have "qinv (queue_after ops) \<and> countPendingForDevice (queue_after ops) d \<le> cap"
  proof (rule qexec_invariant [where P = "\<lambda>q e. en_DeviceID e = d \<longrightarrow> countPendingForDevice q d < cap" and W = "\<lambda>_ _. True"])
    fix q t e r opts newID p i
    assume "(t, QEnqueue e r opts newID) \<in> set ops" and "admitted q (stamped p e r opts i) opts"
    then show "en_DeviceID (stamped p e r opts i) = d \<longrightarrow> countPendingForDevice q d < cap"
      using assms(1) [of t e r opts newID] by (auto simp: stamped_def admitted_def)
  qed (use assms(2) in \<open>auto intro: pending_cap_step simp: qinv_new count_new\<close>)
  then show ?thesis by blast
qed

theorem pending_cap_is_hard_witness: "countPendingForDevice (queue_after sample_qops) ''dev'' \<le> 2"
  by (rule pending_cap_is_hard) (auto simp: sample_qops_def sample_opts_def)

text \<open>
  C28. A finished command is final: no later interleaving of calls changes it, except that its metadata
  follow the map it shares with its caller, so they change only if a later step writes to that map; and
  a second acknowledgement succeeds only when it asks for the status the command already has.
\<close>

theorem finished_command_is_final:
  assumes "find_entry (queue_after ops) k = Some e" and "command_IsTerminal (en_Status e)"
  shows "(\<exists>m. find_entry (qexec (queue_after ops) later) k = Some (e\<lparr>en_Metadata := m\<rparr>)) \<and>
    ((\<forall>(t, op) \<in> set later. q_ref (queue_after ops) k \<notin> Some ` writes op) \<longrightarrow>
      find_entry (qexec (queue_after ops) later) k = Some e) \<and>
    (AckReason_Valid r \<longrightarrow> (snd (command_Ack (qexec (queue_after ops) later) k r now) = Inr () \<longleftrightarrow> TargetStatus r = en_Status e))"
proof -
  have any: "qinv (qexec (queue_after ops) later) \<and> (\<exists>m. find_entry (qexec (queue_after ops) later) k = Some (e\<lparr>en_Metadata := m\<rparr>))"
  proof (rule qexec_invariant [where P = "\<lambda>_ _. True" and W = "\<lambda>_ _. True"])
    fix q q'
    assume "\<exists>m. find_entry q k = Some (e\<lparr>en_Metadata := m\<rparr>)" and s: "queue_step (\<lambda>_ _. True) (\<lambda>_ _. True) q q'"
    then obtain m where "find_entry q k = Some (e\<lparr>en_Metadata := m\<rparr>)" by blast
    from finished_step [OF s this] assms(2) show "\<exists>m. find_entry q' k = Some (e\<lparr>en_Metadata := m\<rparr>)" by auto
  qed (use assms(1) in \<open>auto simp: qinv_queue_after intro: exI [of _ "en_Metadata e"]\<close>)
  have same: "find_entry (qexec (queue_after ops) later) k = Some e"
    if own: "\<forall>(t, op) \<in> set later. q_ref (queue_after ops) k \<notin> Some ` writes op"
  proof -
    let ?I = "\<lambda>q. find_entry q k = Some e \<and> q_ref q k = q_ref (queue_after ops) k"
    have "qinv (qexec (queue_after ops) later) \<and> ?I (qexec (queue_after ops) later)"
    proof (rule qexec_invariant [where P = "\<lambda>_ _. True" and W = "\<lambda>q a. q_ref q k \<noteq> Some a"])
      show "?I q'" if "?I q" and "queue_step (\<lambda>_ _. True) (\<lambda>q a. q_ref q k \<noteq> Some a) q q'" for q q'
        using finished_step [OF that(2) conjunct1 [OF that(1)] assms(2)] that(1) by auto
    qed (use own assms(1) in \<open>auto simp: qinv_queue_after\<close>)
    then show ?thesis by blast
  qed
  obtain m where m: "find_entry (qexec (queue_after ops) later) k = Some (e\<lparr>en_Metadata := m\<rparr>)" using any by blast
  moreover have "AckReason_Valid r \<Longrightarrow> snd (command_Ack (qexec (queue_after ops) later) k r now) = Inr () \<longleftrightarrow> TargetStatus r = en_Status e"
    using m assms(2) by (auto simp: command_Ack_def Let_def)
  ultimately show ?thesis using same by blast
qed

theorem finished_command_is_final_witness:
  "snd (command_Ack (queue_after (sample_qops @ [(11, QAck ''c1'' AckSuccess), (12, QCancel ''c1'')])) ''c1'' AckFailed 13) \<noteq> Inr ()"
proof -
  have fin: "find_entry (queue_after (sample_qops @ [(11, QAck ''c1'' AckSuccess)])) ''c1'' =
      Some (sample_delivered\<lparr>en_Status := StatusSucceeded, en_CompletedAt := Some 11\<rparr>)" by code_simp
  have app: "qexec (queue_after (sample_qops @ [(11, QAck ''c1'' AckSuccess)])) [(12, QCancel ''c1'')] =
      queue_after (sample_qops @ [(11, QAck ''c1'' AckSuccess), (12, QCancel ''c1'')])"
    by (simp add: sample_qops_def)
  show ?thesis
    using finished_command_is_final [OF fin, of "[(12, QCancel ''c1'')]" AckFailed 13] unfolding app
    by (simp add: command_IsTerminal_def AckReason_Valid_def)
qed

text \<open>
  \<^verbatim>\<open>Dequeue\<close> hands out the oldest pending commands of the device: as many as there are up to \<open>n\<close>,
  in order of creation, each marked sent at \<open>now\<close> under a new lease; no pending command left behind is
  older, no other command changes, and internal metadata is not shown.
\<close>

lemma dequeue_takes_oldest:
  assumes "0 \<le> n" and "q = queue_after ops"
  shows "\<exists>q' picked. command_Dequeue q now dev n d = (q', Inr (map (\<lambda>e. stripInternalMetaKeys (sent now e)) picked)) \<and>
    sorted (map en_CreatedAt picked) \<and>
    length picked = min (nat n) (nat (countPendingForDevice q dev)) \<and>
    (\<forall>e \<in> set picked. find_entry q (en_ID e) = Some e \<and> en_DeviceID e = dev \<and> en_Status e = StatusPending \<and>
       find_entry q' (en_ID e) = Some (sent now e) \<and>
       q_leases q' (en_ID e) = Some (now + (if d \<le> 0 then command_DefaultLeaseDuration else d))) \<and>
    (\<forall>k e. find_entry q k = Some e \<longrightarrow> e \<notin> set picked \<longrightarrow>
       find_entry q' k = Some e \<and> q_leases q' k = q_leases q k \<and>
       (en_DeviceID e = dev \<longrightarrow> en_Status e = StatusPending \<longrightarrow> (\<forall>f \<in> set picked. en_CreatedAt f \<le> en_CreatedAt e)))"
proof -
  have inv: "qinv q" unfolding assms(2) by (rule qinv_queue_after)
  define l where "l = (if d \<le> 0 then command_DefaultLeaseDuration else d)"
  define ps where "ps = take (nat n) (pending_for q dev)"
  define picked where "picked = map snd ps"
  have t: "taken q ps" unfolding ps_def by (rule pending_for_taken [OF inv])
  obtain q' where run: "dequeue_loop now l q ps = (q', map (\<lambda>p. stripInternalMetaKeys (sent now (snd p))) ps)"
    and find: "find_entry q' = (\<lambda>k. case map_of ps k of Some e \<Rightarrow> Some (sent now e) | None \<Rightarrow> find_entry q k)"
    and lease: "q_leases q' = (\<lambda>k. if k \<in> fst ` set ps then Some (now + l) else q_leases q k)"
    using dequeue_loop_result [OF t, of now l "\<lambda>_ _. True" "\<lambda>_ _. True"] by blast
  have "command_Dequeue q now dev n d = (q', Inr (map (\<lambda>e. stripInternalMetaKeys (sent now e)) picked))"
    using Dequeue_loop [OF assms(1), of q now dev d] run by (simp add: l_def [symmetric] ps_def [symmetric] picked_def Let_def o_def)
  moreover have "sorted (map en_CreatedAt picked)"
    using sorted_wrt_take [OF pending_for_sorted, of "nat n" q dev] by (simp add: picked_def ps_def take_map o_def)
  moreover have "length picked = min (nat n) (nat (countPendingForDevice q dev))"
    by (simp add: picked_def ps_def pending_for_length [symmetric])
  moreover have "find_entry q (en_ID e) = Some e \<and> en_DeviceID e = dev \<and> en_Status e = StatusPending \<and>
      find_entry q' (en_ID e) = Some (sent now e) \<and> q_leases q' (en_ID e) = Some (now + l)" if "e \<in> set picked" for e
  proof -
    from that obtain k where k: "(k, e) \<in> set ps" by (auto simp: picked_def)
    with inv have e: "find_entry q k = Some e" "en_DeviceID e = dev" "en_Status e = StatusPending"
      using in_set_takeD [OF k [unfolded ps_def]] by (simp_all add: pending_for_mem)
    moreover have "map_of ps k = Some e" using k t by (simp add: taken_def)
    moreover have "k \<in> fst ` set ps" using k by (auto intro: rev_image_eqI)
    ultimately show ?thesis using qinv_ID [OF inv e(1)] by (simp add: find lease)
  qed
  moreover have "find_entry q' k = Some e \<and> q_leases q' k = q_leases q k \<and>
      (en_DeviceID e = dev \<longrightarrow> en_Status e = StatusPending \<longrightarrow> (\<forall>f \<in> set picked. en_CreatedAt f \<le> en_CreatedAt e))"
    if e: "find_entry q k = Some e" "e \<notin> set picked" for k e
  proof -
    have k: "k \<notin> fst ` set ps" using not_picked [OF inv e(1)] e(2) by (simp add: picked_def ps_def)
    then have "map_of ps k = None" by (simp add: map_of_eq_None_iff)
    moreover have "en_CreatedAt f \<le> en_CreatedAt e" if "en_DeviceID e = dev" "en_Status e = StatusPending" "f \<in> set picked" for f
    proof -
      from that(3) obtain j where "(j, f) \<in> set (take (nat n) (pending_for q dev))" by (auto simp: picked_def ps_def)
      moreover have "(k, e) \<in> set (pending_for q dev)" using that(1,2) e(1) by (simp add: pending_for_mem [OF inv])
      moreover have "(k, e) \<notin> set (take (nat n) (pending_for q dev))" using k by (auto simp: ps_def intro: rev_image_eqI)
      ultimately show ?thesis using sorted_take_drop [OF pending_for_sorted] by fastforce
    qed
    ultimately show ?thesis using e(1) k by (simp add: find lease)
  qed
  ultimately show ?thesis unfolding l_def [symmetric] by blast
qed


text \<open>
  C30. The schedule-to-send deadline is applied to commands that were sent in time: a command with only
  that timeout, already in flight, is expired once the deadline for sending it has passed.
\<close>

theorem schedule_deadline_hits_sent_command:
  assumes "en_Status e \<in> {StatusSent, StatusDelivered}" and "en_SentAt e = Some t"
    and "0 < en_CreatedAt e" and "0 < to_ScheduleToSend (en_Timeouts e)"
    and "t \<le> en_CreatedAt e + to_ScheduleToSend (en_Timeouts e)"
    and "en_CreatedAt e + to_ScheduleToSend (en_Timeouts e) < now"
    and "to_SendToComplete (en_Timeouts e) = 0" and "to_OverallDeadline (en_Timeouts e) = 0"
  shows "checkExpiry e now = Some \<lparr>ex_CommandID = en_ID e, ex_From = en_Status e, ex_To = StatusExpired,
    ex_Reason = ''phase_schedule_to_send''\<rparr>"
  using assms by (simp add: checkExpiry_def phase_elapsed_def Let_def)

theorem schedule_deadline_hits_sent_command_witness:
  "checkExpiry sample_delivered 36 = Some \<lparr>ex_CommandID = ''c1'', ex_From = StatusDelivered, ex_To = StatusExpired,
    ex_Reason = ''phase_schedule_to_send''\<rparr>"
  using schedule_deadline_hits_sent_command [of sample_delivered 9 36]
  by (simp add: sample_delivered_def sample_entry_def sample_timeouts_def NewEntry_def)

end
