(* ===== verification/Circuit_Breaker.thy ===== *)
theory Circuit_Breaker
  imports Gocell_Prelude "HOL-Library.Word"
begin

text \<open>
  The in-process circuit breaker of \<^verbatim>\<open>framework/kernel/circuitbreaker/breaker.go\<close>.

  Counters are 32-bit and generations 64-bit machine words, with Go's wrap-around. A method of the
  breaker takes its mutex once per critical section; \<^verbatim>\<open>beforeRequest\<close> has two of them, with the state
  callbacks in between, so it is two steps here and anything may happen between them. The clock
  reading of a step is an argument. A state callback is user code: what it does to the breaker is
  further steps of the same interleaving. Logging is left out.
\<close>

section \<open>Definitions\<close>

datatype cb_state = StateClosed | StateHalfOpen | StateOpen | StateOther int

fun cb_state_String :: "cb_state \<Rightarrow> string" where
  "cb_state_String StateClosed = ''closed''"
| "cb_state_String StateHalfOpen = ''half-open''"
| "cb_state_String StateOpen = ''open''"
| "cb_state_String (StateOther _) = ''unknown''"

record counts =
  ct_Requests :: "32 word"
  ct_TotalSuccesses :: "32 word"
  ct_TotalFailures :: "32 word"
  ct_ConsecutiveSuccesses :: "32 word"
  ct_ConsecutiveFailures :: "32 word"

definition zero_counts :: counts where
  "zero_counts = \<lparr>ct_Requests = 0, ct_TotalSuccesses = 0, ct_TotalFailures = 0,
     ct_ConsecutiveSuccesses = 0, ct_ConsecutiveFailures = 0\<rparr>"

record breaker_config =
  bc_Name :: string
  bc_MaxRequests :: "32 word"
  bc_Interval :: duration
  bc_Timeout :: duration
  bc_ReadyToTrip :: "(counts \<Rightarrow> bool) option"
  bc_IsSuccessful :: "(goerr option \<Rightarrow> bool) option"

record breaker =
  b_state :: cb_state
  b_generation :: "64 word"
  b_counts :: counts
  b_expiry :: instant
  b_name :: string
  b_maxRequests :: "32 word"
  b_interval :: duration
  b_timeout :: duration
  b_readyToTrip :: "counts \<Rightarrow> bool"
  b_isSuccessful :: "goerr option \<Rightarrow> bool"

record state_transition =
  st_name :: string
  st_prev :: cb_state
  st_next :: cb_state

definition defaultCircuitBreakerTimeout :: duration where
  "defaultCircuitBreakerTimeout = 60 * second"

definition errOpenState :: goerr where
  "errOpenState = ErrorsNew ''circuitbreaker: open''"

definition errTooManyRequests :: goerr where
  "errTooManyRequests = ErrorsNew ''circuitbreaker: too many requests in half-open''"

definition toNewGeneration :: "breaker \<Rightarrow> instant \<Rightarrow> breaker" where
  "toNewGeneration b now =
     (let b = b\<lparr>b_generation := b_generation b + 1, b_counts := zero_counts\<rparr> in
      case b_state b of
        StateClosed \<Rightarrow> if b_interval b > 0 then b\<lparr>b_expiry := now + b_interval b\<rparr> else b\<lparr>b_expiry := 0\<rparr>
      | StateOpen \<Rightarrow> b\<lparr>b_expiry := now + b_timeout b\<rparr>
      | StateHalfOpen \<Rightarrow> b\<lparr>b_expiry := 0\<rparr>
      | StateOther _ \<Rightarrow> b)"

definition setState ::
  "breaker \<Rightarrow> cb_state \<Rightarrow> instant \<Rightarrow> state_transition list \<Rightarrow> breaker \<times> state_transition list" where
  "setState b target now ts =
     (if b_state b = target then (b, ts)
      else let prev = b_state b; b = toNewGeneration (b\<lparr>b_state := target\<rparr>) now
           in (b, ts @ [\<lparr>st_name = b_name b, st_prev = prev, st_next = target\<rparr>]))"

definition currentState ::
  "breaker \<Rightarrow> instant \<Rightarrow> state_transition list \<Rightarrow> breaker \<times> state_transition list" where
  "currentState b now ts =
     (case b_state b of
        StateClosed \<Rightarrow> if b_expiry b \<noteq> 0 \<and> b_expiry b < now then (toNewGeneration b now, ts) else (b, ts)
      | StateOpen \<Rightarrow> if b_expiry b \<noteq> 0 \<and> b_expiry b < now then setState b StateHalfOpen now ts else (b, ts)
      | _ \<Rightarrow> (b, ts))"

text \<open>
  The first critical section of \<^verbatim>\<open>beforeRequest\<close> yields the state and generation it saw, the second one
  decides.
\<close>

definition before_phase1 :: "breaker \<Rightarrow> instant \<Rightarrow> breaker \<times> (cb_state \<times> 64 word) \<times> state_transition list" where
  "before_phase1 b now =
     (let (b, ts) = currentState b now [] in (b, (b_state b, b_generation b), ts))"

definition before_phase3 :: "breaker \<Rightarrow> cb_state \<times> 64 word \<Rightarrow> breaker \<times> 64 word res" where
  "before_phase3 b seen =
     (if b_generation b \<noteq> snd seen then (b, Inl errOpenState)
      else if fst seen = StateOpen then (b, Inl errOpenState)
      else if fst seen = StateHalfOpen \<and> ct_Requests (b_counts b) \<ge> b_maxRequests b
        then (b, Inl errTooManyRequests)
      else (b\<lparr>b_counts := (b_counts b)\<lparr>ct_Requests := ct_Requests (b_counts b) + 1\<rparr>\<rparr>, Inr (snd seen)))"

definition onSuccess ::
  "breaker \<Rightarrow> cb_state \<Rightarrow> instant \<Rightarrow> state_transition list \<Rightarrow> breaker \<times> state_transition list" where
  "onSuccess b state now ts =
     (let c = b_counts b;
          b = b\<lparr>b_counts := c\<lparr>ct_TotalSuccesses := ct_TotalSuccesses c + 1,
                  ct_ConsecutiveSuccesses := ct_ConsecutiveSuccesses c + 1, ct_ConsecutiveFailures := 0\<rparr>\<rparr>
      in if state = StateHalfOpen \<and> ct_ConsecutiveSuccesses (b_counts b) \<ge> b_maxRequests b
         then setState b StateClosed now ts else (b, ts))"

definition onFailure ::
  "breaker \<Rightarrow> cb_state \<Rightarrow> instant \<Rightarrow> state_transition list \<Rightarrow> breaker \<times> state_transition list" where
  "onFailure b state now ts =
     (let c = b_counts b;
          b = b\<lparr>b_counts := c\<lparr>ct_TotalFailures := ct_TotalFailures c + 1,
                  ct_ConsecutiveFailures := ct_ConsecutiveFailures c + 1, ct_ConsecutiveSuccesses := 0\<rparr>\<rparr>
      in case state of
           StateClosed \<Rightarrow> if b_readyToTrip b (b_counts b) then setState b StateOpen now ts else (b, ts)
         | StateHalfOpen \<Rightarrow> setState b StateOpen now ts
         | _ \<Rightarrow> (b, ts))"

definition afterRequest :: "breaker \<Rightarrow> instant \<Rightarrow> 64 word \<Rightarrow> bool \<Rightarrow> breaker \<times> state_transition list" where
  "afterRequest b now before success =
     (let (b, ts) = currentState b now [] in
      if b_generation b = before
      then (if success then onSuccess b (b_state b) now ts else onFailure b (b_state b) now ts)
      else (b, ts))"

definition NewBreaker :: "breaker_config \<Rightarrow> instant \<Rightarrow> breaker res" where
  "NewBreaker cfg now =
     (if bc_Name cfg = [] then Inl (Errcode KindInvalid ErrCircuitBreakerConfig ''circuitbreaker: Name required'')
      else Inr (toNewGeneration
        \<lparr>b_state = StateClosed, b_generation = 0, b_counts = zero_counts, b_expiry = 0, b_name = bc_Name cfg,
         b_maxRequests = (if bc_MaxRequests cfg = 0 then 1 else bc_MaxRequests cfg),
         b_interval = bc_Interval cfg,
         b_timeout = (if bc_Timeout cfg \<le> 0 then defaultCircuitBreakerTimeout else bc_Timeout cfg),
         b_readyToTrip = (case bc_ReadyToTrip cfg of Some f \<Rightarrow> f | None \<Rightarrow> (\<lambda>c. ct_ConsecutiveFailures c > 5)),
         b_isSuccessful = (case bc_IsSuccessful cfg of Some f \<Rightarrow> f | None \<Rightarrow> (\<lambda>err. err = None))\<rparr> now))"

definition RetryAfter :: "breaker \<Rightarrow> duration" where
  "RetryAfter b = b_timeout b"

definition Breaker_State :: "breaker \<Rightarrow> instant \<Rightarrow> breaker \<times> cb_state" where
  "Breaker_State b now = (let (b, ts) = currentState b now [] in (b, b_state b))"

subsection \<open>Interleavings\<close>

text \<open>
  The goroutines between the two sections of \<^verbatim>\<open>Allow\<close>, and the generations of the requests that were
  allowed and whose done callback has not run yet (it runs at most once).
\<close>

record cb_system =
  cs_breaker :: breaker
  cs_pending :: "(cb_state \<times> 64 word) list"
  cs_inflight :: "64 word list"

datatype cb_op = OpAllowBegin | OpAllowEnd nat | OpDone nat "goerr option" | OpState

definition remove_nth :: "nat \<Rightarrow> 'a list \<Rightarrow> 'a list" where
  "remove_nth n xs = take n xs @ drop (Suc n) xs"

fun cb_step :: "cb_system \<Rightarrow> instant \<Rightarrow> cb_op \<Rightarrow> cb_system" where
  "cb_step s now OpAllowBegin =
     (let (b, seen, ts) = before_phase1 (cs_breaker s) now
      in s\<lparr>cs_breaker := b, cs_pending := cs_pending s @ [seen]\<rparr>)"
| "cb_step s now (OpAllowEnd i) =
     (if i < length (cs_pending s) then
        (case before_phase3 (cs_breaker s) (cs_pending s ! i) of
           (b, Inl err) \<Rightarrow> s\<lparr>cs_breaker := b, cs_pending := remove_nth i (cs_pending s)\<rparr>
         | (b, Inr gen) \<Rightarrow> s\<lparr>cs_breaker := b, cs_pending := remove_nth i (cs_pending s),
                             cs_inflight := cs_inflight s @ [gen]\<rparr>)
      else s)"
| "cb_step s now (OpDone i err) =
     (if i < length (cs_inflight s) then
        let (b, ts) = afterRequest (cs_breaker s) now (cs_inflight s ! i) (b_isSuccessful (cs_breaker s) err)
        in s\<lparr>cs_breaker := b, cs_inflight := remove_nth i (cs_inflight s)\<rparr>
      else s)"
| "cb_step s now OpState = s\<lparr>cs_breaker := fst (Breaker_State (cs_breaker s) now)\<rparr>"

fun cb_exec :: "cb_system \<Rightarrow> (instant \<times> cb_op) list \<Rightarrow> cb_system" where
  "cb_exec s [] = s"
| "cb_exec s ((now, op) # ops) = cb_exec (cb_step s now op) ops"

definition cb_start :: "breaker \<Rightarrow> cb_system" where
  "cb_start b = \<lparr>cs_breaker = b, cs_pending = [], cs_inflight = []\<rparr>"

subsection \<open>Vocabulary of the properties\<close>

definition outstanding :: "64 word \<Rightarrow> 64 word list \<Rightarrow> nat" where
  "outstanding g gs = length (filter (\<lambda>h. h = g) gs)"

text \<open>
  No generation is newer than the breaker's; a goroutine that saw the current generation saw the
  current state; in the half-open state the requests counted are those that succeeded or are still in
  flight, within the limit; nothing is in flight in an open generation.
\<close>

definition cb_inv :: "breaker \<Rightarrow> (cb_state \<times> 64 word) list \<Rightarrow> 64 word list \<Rightarrow> bool" where
  "cb_inv b ps gs \<longleftrightarrow>
     b_maxRequests b \<noteq> 0 \<and> b_state b \<in> {StateClosed, StateHalfOpen, StateOpen} \<and>
     (\<forall>(st, g) \<in> set ps. g \<le> b_generation b \<and> (g = b_generation b \<longrightarrow> st = b_state b)) \<and>
     (\<forall>g \<in> set gs. g \<le> b_generation b) \<and>
     (b_state b = StateHalfOpen \<longrightarrow>
        ct_Requests (b_counts b) \<le> b_maxRequests b \<and>
        ct_ConsecutiveSuccesses (b_counts b) < b_maxRequests b \<and>
        unat (ct_Requests (b_counts b)) =
          unat (ct_ConsecutiveSuccesses (b_counts b)) + outstanding (b_generation b) gs) \<and>
     (b_state b = StateOpen \<longrightarrow> b_generation b \<notin> set gs)"

definition sys_ok :: "cb_system \<Rightarrow> bool" where
  "sys_ok s = cb_inv (cs_breaker s) (cs_pending s) (cs_inflight s)"

text \<open>A section keeps the invariant and moves the generation by at most one.\<close>

definition moves :: "breaker \<Rightarrow> breaker \<Rightarrow> bool" where
  "moves b b' \<longleftrightarrow> b_generation b \<le> b_generation b' \<and> unat (b_generation b') \<le> unat (b_generation b) + 1 \<and>
     b_isSuccessful b' = b_isSuccessful b \<and> b_timeout b' = b_timeout b"

definition sample_config :: breaker_config where
  "sample_config = \<lparr>bc_Name = ''db'', bc_MaxRequests = 0, bc_Interval = 0, bc_Timeout = 100,
     bc_ReadyToTrip = Some (\<lambda>c. ct_TotalFailures c > 0), bc_IsSuccessful = None\<rparr>"

definition sample_breaker :: breaker where
  "sample_breaker = \<lparr>b_state = StateClosed, b_generation = 1, b_counts = zero_counts, b_expiry = 0, b_name = ''db'',
     b_maxRequests = 1, b_interval = 0, b_timeout = 100, b_readyToTrip = (\<lambda>c. ct_TotalFailures c > 0),
     b_isSuccessful = (\<lambda>err. err = None)\<rparr>"

definition sample_trip :: "(instant \<times> cb_op) list" where
  "sample_trip = [(10, OpAllowBegin), (10, OpAllowEnd 0)]"

definition sample_probe :: "(instant \<times> cb_op) list" where
  "sample_probe = sample_trip @ [(11, OpDone 0 (Some (ErrorsNew ''down''))), (112, OpState)]"

section \<open>Lemmas\<close>

subsection \<open>Vocabulary of the properties\<close>

subsection \<open>Lists\<close>

lemma remove_nth_split: "i < length xs \<Longrightarrow> xs = take i xs @ xs ! i # drop (Suc i) xs"
  by (rule id_take_nth_drop)

lemma set_remove_nth: "set (remove_nth i xs) \<subseteq> set xs"
  by (auto simp: remove_nth_def dest: in_set_takeD in_set_dropD)

lemma outstanding_remove:
  assumes "i < length gs"
  shows "outstanding g gs = outstanding g (remove_nth i gs) + (if gs ! i = g then 1 else 0)"
  by (subst remove_nth_split [OF assms]) (simp add: outstanding_def remove_nth_def)

lemma outstanding_append [simp]: "outstanding g (gs @ [h]) = outstanding g gs + (if h = g then 1 else 0)"
  by (simp add: outstanding_def)

lemma outstanding_none: "g \<notin> set gs \<Longrightarrow> outstanding g gs = 0"
  by (auto simp: outstanding_def filter_empty_conv)

subsection \<open>Words\<close>

lemma next_greater: "g \<le> h \<Longrightarrow> unat (h :: 64 word) + 1 < 2 ^ 64 \<Longrightarrow> g < h + 1"
  by (simp add: word_less_nat_alt word_le_nat_alt unat_word_ariths)

lemma unat_next: "unat (h :: 'a::len word) + 1 < 2 ^ LENGTH('a) \<Longrightarrow> unat (h + 1) = unat h + 1"
  by (simp add: unat_word_ariths)

lemma unat_next_less: "(x :: 'a::len word) < y \<Longrightarrow> unat (x + 1) = unat x + 1"
proof (rule unat_next)
  assume "x < y"
  then have "unat x + 1 \<le> unat y" by (simp add: word_less_nat_alt)
  also have "unat y < 2 ^ LENGTH('a)" by simp
  finally show "unat x + 1 < 2 ^ LENGTH('a)" .
qed

lemma next_le: "(x :: 'a::len word) < y \<Longrightarrow> x + 1 \<le> y"
  using unat_next_less [of x y] by (simp add: word_less_nat_alt word_le_nat_alt)

subsection \<open>The invariant\<close>

lemma newGeneration_fields [simp]:
  "b_state (toNewGeneration b now) = b_state b"
  "b_generation (toNewGeneration b now) = b_generation b + 1"
  "b_counts (toNewGeneration b now) = zero_counts"
  "b_maxRequests (toNewGeneration b now) = b_maxRequests b"
  "b_timeout (toNewGeneration b now) = b_timeout b"
  "b_isSuccessful (toNewGeneration b now) = b_isSuccessful b"
  "b_readyToTrip (toNewGeneration b now) = b_readyToTrip b"
  by (simp_all add: toNewGeneration_def Let_def split: cb_state.split)

lemma inv_newGeneration:
  assumes inv: "cb_inv b ps gs" and wrap: "unat (b_generation b) + 1 < 2 ^ 64"
    and st: "b_state b' \<in> {StateClosed, StateHalfOpen, StateOpen}"
    and b': "b_generation b' = b_generation b" "b_maxRequests b' = b_maxRequests b"
  shows "cb_inv (toNewGeneration b' now) ps gs"
proof -
  have old: "g < b_generation b + 1" if "g \<le> b_generation b" for g
    by (rule next_greater [OF that wrap])
  have "\<forall>(s, g) \<in> set ps. g \<le> b_generation b + 1 \<and> (g = b_generation b + 1 \<longrightarrow> s = b_state b')"
    using inv old by (fastforce simp: cb_inv_def)
  moreover have gs: "\<forall>g \<in> set gs. g < b_generation b + 1" using inv old by (simp add: cb_inv_def)
  moreover have "outstanding (b_generation b + 1) gs = 0"
    using gs by (intro outstanding_none) auto
  moreover have "b_maxRequests b \<noteq> 0" using inv by (simp add: cb_inv_def)
  ultimately show ?thesis
    using st b' by (auto simp: cb_inv_def zero_counts_def word_neq_0_conv less_imp_le)
qed

lemma moves_refl: "moves b b"
  by (simp add: moves_def)

lemma moves_newGeneration:
  "unat (b_generation b) + 1 < 2 ^ 64 \<Longrightarrow> b_generation b' = b_generation b \<Longrightarrow>
   b_isSuccessful b' = b_isSuccessful b \<Longrightarrow> b_timeout b' = b_timeout b \<Longrightarrow> moves b (toNewGeneration b' now)"
  using unat_next [of "b_generation b"] next_greater [of "b_generation b" "b_generation b"] by (simp add: moves_def)

lemma inv_currentState:
  assumes inv: "cb_inv b ps gs" and wrap: "unat (b_generation b) + 1 < 2 ^ 64"
    and cur: "currentState b now ts = (b', ts')"
  shows "cb_inv b' ps gs \<and> moves b b' \<and> (b' = b \<or> b_generation b' \<notin> set gs)"
proof (cases "b' = b")
  case True
  with inv show ?thesis by (simp add: moves_refl)
next
  case False
  with cur obtain c where c: "b' = toNewGeneration c now" "b_state c \<in> {StateClosed, StateHalfOpen}"
    "b_generation c = b_generation b" "b_maxRequests c = b_maxRequests b"
    "b_isSuccessful c = b_isSuccessful b" "b_timeout c = b_timeout b"
    by (auto simp: currentState_def setState_def Let_def split: cb_state.splits if_splits)
  have "b_generation b + 1 \<notin> set gs"
    using inv next_greater [OF _ wrap] by (fastforce simp: cb_inv_def)
  with c inv_newGeneration [OF inv wrap _ c(3,4)] moves_newGeneration [OF wrap c(3,5,6)] show ?thesis by auto
qed

lemma inv_phase3:
  assumes inv: "cb_inv b ps gs" and seen: "seen \<in> set ps" and ph: "before_phase3 b seen = (b', r)"
  shows "cb_inv b' ps (gs @ (case r of Inr g \<Rightarrow> [g] | Inl _ \<Rightarrow> [])) \<and> moves b b'"
proof (cases r)
  case (Inl err)
  with ph have "b' = b" by (auto simp: before_phase3_def split: if_splits)
  with Inl inv show ?thesis by (simp add: moves_refl)
next
  case (Inr g)
  with ph have g: "b_generation b = snd seen" "g = snd seen" "fst seen \<noteq> StateOpen"
    and room: "fst seen = StateHalfOpen \<longrightarrow> ct_Requests (b_counts b) < b_maxRequests b"
    and b': "b' = b\<lparr>b_counts := (b_counts b)\<lparr>ct_Requests := ct_Requests (b_counts b) + 1\<rparr>\<rparr>"
    by (auto simp: before_phase3_def not_le split: if_splits)
  have st: "fst seen = b_state b" using inv seen g(1) by (auto simp: cb_inv_def)
  have half: "b_state b = StateHalfOpen \<longrightarrow> ct_Requests (b_counts b) + 1 \<le> b_maxRequests b \<and>
      unat (ct_Requests (b_counts b) + 1) = unat (ct_Requests (b_counts b)) + 1"
    using room st next_le unat_next_less by metis
  show ?thesis
    using inv half g st by (auto simp: cb_inv_def b' Inr moves_def)
qed

lemma inv_drop:
  assumes "cb_inv b ps gs" and "set ps' \<subseteq> set ps"
  shows "cb_inv b ps' gs"
  using assms by (auto simp: cb_inv_def)

lemma inv_remove_stale:
  assumes inv: "cb_inv b ps gs" and i: "i < length gs" and stale: "gs ! i \<noteq> b_generation b"
  shows "cb_inv b ps (remove_nth i gs)"
  using assms set_remove_nth [of i gs] outstanding_remove [OF i, of "b_generation b"]
  by (auto simp: cb_inv_def)

lemma inv_onSuccess:
  assumes inv: "cb_inv b ps gs" and i: "i < length gs" and cur: "gs ! i = b_generation b"
    and wrap: "unat (b_generation b) + 1 < 2 ^ 64"
    and r: "onSuccess b (b_state b) now ts = (b', ts')"
  shows "cb_inv b' ps (remove_nth i gs) \<and> moves b b'"
proof -
  define c where "c = b\<lparr>b_counts := (b_counts b)\<lparr>ct_TotalSuccesses := ct_TotalSuccesses (b_counts b) + 1,
    ct_ConsecutiveSuccesses := ct_ConsecutiveSuccesses (b_counts b) + 1, ct_ConsecutiveFailures := 0\<rparr>\<rparr>"
  note out = outstanding_remove [OF i, of "b_generation b"]
  have notopen: "b_state b \<noteq> StateOpen" using inv i cur by (metis cb_inv_def nth_mem)
  show ?thesis
  proof (cases "b_state b = StateHalfOpen \<and> ct_ConsecutiveSuccesses (b_counts b) + 1 \<ge> b_maxRequests b")
    case True
    then have b': "b' = toNewGeneration (c\<lparr>b_state := StateClosed\<rparr>) now"
      using r by (auto simp: onSuccess_def setState_def c_def Let_def)
    have "cb_inv b' ps gs"
      unfolding b' by (rule inv_newGeneration [OF inv wrap]) (simp_all add: c_def)
    then have "cb_inv b' ps (remove_nth i gs)"
    proof (rule inv_remove_stale [OF _ i])
      show "gs ! i \<noteq> b_generation b'" using next_greater [of "b_generation b" "b_generation b"] wrap by (simp add: b' c_def cur)
    qed
    moreover have "moves b b'" unfolding b' by (rule moves_newGeneration [OF wrap]) (simp_all add: c_def)
    ultimately show ?thesis by simp
  next
    case False
    then have b': "b' = c" using r by (auto simp: onSuccess_def c_def Let_def)
    have "ct_ConsecutiveSuccesses (b_counts b) < b_maxRequests b \<Longrightarrow>
        unat (ct_ConsecutiveSuccesses (b_counts b) + 1) = unat (ct_ConsecutiveSuccesses (b_counts b)) + 1"
      by (rule unat_next_less)
    with inv False out cur notopen set_remove_nth [of i gs] show ?thesis
      by (auto simp: cb_inv_def b' c_def moves_def not_le)
  qed
qed

lemma inv_onFailure:
  assumes inv: "cb_inv b ps gs" and i: "i < length gs" and cur: "gs ! i = b_generation b"
    and wrap: "unat (b_generation b) + 1 < 2 ^ 64"
    and r: "onFailure b (b_state b) now ts = (b', ts')"
  shows "cb_inv b' ps (remove_nth i gs) \<and> moves b b'"
proof -
  define c where "c = b\<lparr>b_counts := (b_counts b)\<lparr>ct_TotalFailures := ct_TotalFailures (b_counts b) + 1,
    ct_ConsecutiveFailures := ct_ConsecutiveFailures (b_counts b) + 1, ct_ConsecutiveSuccesses := 0\<rparr>\<rparr>"
  have notopen: "b_state b \<noteq> StateOpen" using inv i cur by (metis cb_inv_def nth_mem)
  show ?thesis
  proof (cases "b_state b = StateHalfOpen \<or> (b_state b = StateClosed \<and> b_readyToTrip b (b_counts c))")
    case True
    then have b': "b' = toNewGeneration (c\<lparr>b_state := StateOpen\<rparr>) now"
      using r by (auto simp: onFailure_def setState_def c_def Let_def)
    have "cb_inv b' ps gs"
      unfolding b' by (rule inv_newGeneration [OF inv wrap]) (simp_all add: c_def)
    then have "cb_inv b' ps (remove_nth i gs)"
    proof (rule inv_remove_stale [OF _ i])
      show "gs ! i \<noteq> b_generation b'" using next_greater [of "b_generation b" "b_generation b"] wrap by (simp add: b' c_def cur)
    qed
    moreover have "moves b b'" unfolding b' by (rule moves_newGeneration [OF wrap]) (simp_all add: c_def)
    ultimately show ?thesis by simp
  next
    case False
    with inv notopen have closed: "b_state b = StateClosed" by (auto simp: cb_inv_def)
    with False have b': "b' = c" using r by (simp add: onFailure_def c_def Let_def)
    with inv closed set_remove_nth [of i gs] show ?thesis by (auto simp: cb_inv_def c_def moves_def)
  qed
qed

lemma inv_afterRequest:
  assumes inv: "cb_inv b ps gs" and i: "i < length gs" and wrap: "unat (b_generation b) + 2 < 2 ^ 64"
    and r: "afterRequest b now (gs ! i) success = (b', ts')"
  shows "cb_inv b' ps (remove_nth i gs) \<and> unat (b_generation b') \<le> unat (b_generation b) + 2 \<and>
    b_timeout b' = b_timeout b"
proof -
  obtain c ts where c: "currentState b now [] = (c, ts)" by fastforce
  have cur: "cb_inv c ps gs" "moves b c"
    using inv_currentState [OF inv _ c] wrap by auto
  then have wrap': "unat (b_generation c) + 1 < 2 ^ 64" using wrap by (simp add: moves_def)
  show ?thesis
  proof (cases "b_generation c = gs ! i")
    case True
    then have "cb_inv b' ps (remove_nth i gs) \<and> moves c b'"
      using r c inv_onSuccess [OF cur(1) i _ wrap', of now ts b' ts'] inv_onFailure [OF cur(1) i _ wrap', of now ts b' ts']
      by (auto simp: afterRequest_def split: if_splits)
    with cur(2) show ?thesis by (auto simp: moves_def)
  next
    case False
    with r c have "b' = c" by (auto simp: afterRequest_def)
    with inv_remove_stale [OF cur(1) i] False cur(2) show ?thesis by (auto simp: moves_def)
  qed
qed

lemma sys_ok_step:
  assumes ok: "sys_ok s" and wrap: "unat (b_generation (cs_breaker s)) + 2 < 2 ^ 64"
  shows "sys_ok (cb_step s now op) \<and>
    unat (b_generation (cs_breaker (cb_step s now op))) \<le> unat (b_generation (cs_breaker s)) + 2 \<and>
    b_timeout (cs_breaker (cb_step s now op)) = b_timeout (cs_breaker s)"
proof (cases op)
  case OpAllowBegin
  obtain c ts where c: "currentState (cs_breaker s) now [] = (c, ts)" by fastforce
  have "cb_inv c (cs_pending s) (cs_inflight s) \<and> moves (cs_breaker s) c"
    using inv_currentState [OF ok [unfolded sys_ok_def] _ c] wrap by auto
  then show ?thesis by (auto simp: OpAllowBegin before_phase1_def c sys_ok_def cb_inv_def moves_def)
next
  case (OpAllowEnd i)
  show ?thesis
  proof (cases "i < length (cs_pending s)")
    case True
    obtain b' r where r: "before_phase3 (cs_breaker s) (cs_pending s ! i) = (b', r)" by fastforce
    have "cb_inv b' (cs_pending s) (cs_inflight s @ (case r of Inr g \<Rightarrow> [g] | Inl _ \<Rightarrow> [])) \<and> moves (cs_breaker s) b'"
      by (rule inv_phase3 [OF ok [unfolded sys_ok_def] nth_mem [OF True] r])
    with True r inv_drop [OF _ set_remove_nth] show ?thesis
      by (auto simp: OpAllowEnd sys_ok_def moves_def split: sum.splits)
  qed (use ok in \<open>simp add: OpAllowEnd\<close>)
next
  case (OpDone i err)
  show ?thesis
  proof (cases "i < length (cs_inflight s)")
    case True
    obtain b' ts where r: "afterRequest (cs_breaker s) now (cs_inflight s ! i) (b_isSuccessful (cs_breaker s) err) = (b', ts)"
      by fastforce
    from inv_afterRequest [OF ok [unfolded sys_ok_def] True wrap r] True r show ?thesis
      by (simp add: OpDone sys_ok_def)
  qed (use ok in \<open>simp add: OpDone\<close>)
next
  case OpState
  obtain c ts where c: "currentState (cs_breaker s) now [] = (c, ts)" by fastforce
  have "cb_inv c (cs_pending s) (cs_inflight s) \<and> moves (cs_breaker s) c"
    using inv_currentState [OF ok [unfolded sys_ok_def] _ c] wrap by auto
  then show ?thesis by (auto simp: OpState Breaker_State_def c sys_ok_def moves_def)
qed

lemma sys_ok_exec:
  assumes "sys_ok s" and "unat (b_generation (cs_breaker s)) + 2 * length ops + 2 < 2 ^ 64"
  shows "sys_ok (cb_exec s ops) \<and>
    unat (b_generation (cs_breaker (cb_exec s ops))) \<le> unat (b_generation (cs_breaker s)) + 2 * length ops \<and>
    b_timeout (cs_breaker (cb_exec s ops)) = b_timeout (cs_breaker s)"
  using assms
proof (induction ops arbitrary: s)
  case (Cons top ops)
  obtain t op where top: "top = (t, op)" by (cases top)
  have step: "sys_ok (cb_step s t op) \<and>
    unat (b_generation (cs_breaker (cb_step s t op))) \<le> unat (b_generation (cs_breaker s)) + 2 \<and>
    b_timeout (cs_breaker (cb_step s t op)) = b_timeout (cs_breaker s)"
    by (rule sys_ok_step) (use Cons.prems in auto)
  with Cons.IH [of "cb_step s t op"] Cons.prems(2) show ?case by (auto simp: top)
qed simp

lemma new_breaker:
  assumes "NewBreaker cfg now = Inr b"
  shows "sys_ok (cb_start b) \<and> unat (b_generation b) = 1"
  using assms
  by (auto simp: NewBreaker_def sys_ok_def cb_start_def cb_inv_def split: if_splits)

text \<open>Every state a breaker can reach in fewer than \<open>2 ^ 62\<close> steps.\<close>

lemma reachable_ok:
  assumes "NewBreaker cfg t0 = Inr b" and "length ops < 2 ^ 62"
  shows "sys_ok (cb_exec (cb_start b) ops) \<and>
    unat (b_generation (cs_breaker (cb_exec (cb_start b) ops))) + 2 < 2 ^ 64 - 2 ^ 62"
  using new_breaker [OF assms(1)] sys_ok_exec [of "cb_start b" ops] assms(2) by (simp add: cb_start_def)

subsection \<open>Open circuits\<close>

lemma open_currentState: "b_state b = StateOpen \<Longrightarrow> now \<le> b_expiry b \<Longrightarrow> currentState b now ts = (b, ts)"
  by (simp add: currentState_def)

lemma open_step:
  assumes ok: "sys_ok s" and st: "b_state (cs_breaker s) = StateOpen" and now: "now \<le> b_expiry (cs_breaker s)"
  shows "cs_breaker (cb_step s now op) = cs_breaker s \<and> set (cs_inflight (cb_step s now op)) \<subseteq> set (cs_inflight s)"
proof (cases op)
  case (OpAllowEnd i)
  show ?thesis
  proof (cases "i < length (cs_pending s)")
    case True
    from nth_mem [OF this] ok have "snd (cs_pending s ! i) = b_generation (cs_breaker s) \<longrightarrow> fst (cs_pending s ! i) = StateOpen"
      using st by (fastforce simp: sys_ok_def cb_inv_def)
    then have "before_phase3 (cs_breaker s) (cs_pending s ! i) = (cs_breaker s, Inl errOpenState)"
      by (auto simp: before_phase3_def)
    with True show ?thesis by (simp add: OpAllowEnd)
  qed (simp add: OpAllowEnd)
next
  case (OpDone i err)
  show ?thesis
  proof (cases "i < length (cs_inflight s)")
    case True
    from nth_mem [OF this] ok st have "cs_inflight s ! i \<noteq> b_generation (cs_breaker s)"
      by (auto simp: sys_ok_def cb_inv_def)
    with True st now set_remove_nth show ?thesis
      by (simp add: OpDone afterRequest_def open_currentState)
  qed (simp add: OpDone)
qed (use st now in \<open>simp_all add: before_phase1_def Breaker_State_def open_currentState\<close>)

lemma open_exec:
  assumes "sys_ok s" and "b_state (cs_breaker s) = StateOpen" and "\<forall>(t, op) \<in> set ops. t \<le> b_expiry (cs_breaker s)"
    and "unat (b_generation (cs_breaker s)) + 2 < 2 ^ 64"
  shows "cs_breaker (cb_exec s ops) = cs_breaker s \<and> set (cs_inflight (cb_exec s ops)) \<subseteq> set (cs_inflight s)"
  using assms
proof (induction ops arbitrary: s)
  case (Cons top ops)
  obtain t op where top: "top = (t, op)" by (cases top)
  have step: "cs_breaker (cb_step s t op) = cs_breaker s" "set (cs_inflight (cb_step s t op)) \<subseteq> set (cs_inflight s)"
    using open_step [OF Cons.prems(1,2), of t op] Cons.prems(3) by (auto simp: top)
  moreover have "sys_ok (cb_step s t op)" using sys_ok_step [OF Cons.prems(1,4)] by blast
  ultimately show ?case using Cons.IH [of "cb_step s t op"] Cons.prems(2-4) by (auto simp: top)
qed simp

lemma currentState_not_open: "b_state b \<noteq> StateOpen \<Longrightarrow> b_state (fst (currentState b now ts)) \<noteq> StateOpen"
  by (auto simp: currentState_def split: cb_state.split)

lemma setState_open: "b_state b \<noteq> StateOpen \<Longrightarrow> b_expiry (fst (setState b StateOpen now ts)) = now + b_timeout b"
  by (simp add: setState_def toNewGeneration_def Let_def)

lemma currentState_timeout [simp]: "b_timeout (fst (currentState b now ts)) = b_timeout b"
  by (auto simp: currentState_def setState_def Let_def split: cb_state.split)

lemma trip_expiry:
  assumes "b_state (cs_breaker s) \<noteq> StateOpen" and "b_state (cs_breaker (cb_step s t op)) = StateOpen"
  shows "b_expiry (cs_breaker (cb_step s t op)) = t + b_timeout (cs_breaker s)"
proof (cases op)
  case (OpDone i err)
  obtain c ts where c: "currentState (cs_breaker s) t [] = (c, ts)" by fastforce
  have st: "b_state c \<noteq> StateOpen" "b_timeout c = b_timeout (cs_breaker s)"
    using currentState_not_open [OF assms(1), of t "[]"] currentState_timeout [of "cs_breaker s" t "[]"] by (simp_all add: c)
  define f where "f = c\<lparr>b_counts := (b_counts c)\<lparr>ct_TotalFailures := ct_TotalFailures (b_counts c) + 1,
    ct_ConsecutiveFailures := ct_ConsecutiveFailures (b_counts c) + 1, ct_ConsecutiveSuccesses := 0\<rparr>\<rparr>"
  have succ: "b_state (fst (onSuccess c (b_state c) t ts)) \<noteq> StateOpen"
    using st(1) by (auto simp: onSuccess_def setState_def Let_def)
  have fail: "b_state (fst (onFailure c (b_state c) t ts)) = StateOpen \<Longrightarrow>
      b_expiry (fst (onFailure c (b_state c) t ts)) = t + b_timeout c"
    using st(1) setState_open [of f t ts]
    by (auto simp: onFailure_def Let_def f_def split: cb_state.splits if_splits)
  show ?thesis
    using assms succ fail st
    by (auto simp: OpDone afterRequest_def c Let_def case_prod_beta split: if_splits)
next
  case (OpAllowEnd i)
  then show ?thesis using assms
    by (auto simp: before_phase3_def split: if_splits)
qed (use assms currentState_not_open in \<open>auto simp: before_phase1_def Breaker_State_def case_prod_beta\<close>)

subsection \<open>A sample history\<close>

lemma sample_new: "NewBreaker sample_config 5 = Inr sample_breaker"
  by (simp add: NewBreaker_def sample_config_def sample_breaker_def toNewGeneration_def zero_counts_def Let_def)

lemma sample_trips:
  "b_state (cs_breaker (cb_exec (cb_start sample_breaker) sample_trip)) = StateClosed"
  "b_state (cs_breaker (cb_step (cb_exec (cb_start sample_breaker) sample_trip) 11 (OpDone 0 (Some (ErrorsNew ''down''))))) = StateOpen"
  "b_state (cs_breaker (cb_exec (cb_start sample_breaker) sample_probe)) = StateHalfOpen"
  "cs_inflight (cb_exec (cb_start sample_breaker) sample_probe) = []"
  by (simp_all add: sample_trip_def sample_probe_def sample_breaker_def cb_start_def before_phase1_def before_phase3_def
      currentState_def afterRequest_def onFailure_def setState_def toNewGeneration_def Breaker_State_def zero_counts_def
      remove_nth_def Let_def)

subsection \<open>Properties\<close>

text \<open>
  C32. A tripped circuit stays open: from the failure that opened it at time \<open>t\<close> until \<open>t\<close> plus the
  timeout that \<^verbatim>\<open>RetryAfter\<close> reports, whatever the goroutines do (including those that had passed the
  first half of \<^verbatim>\<open>Allow\<close> before), no request is admitted and the breaker does not change.
\<close>

theorem open_rejects_until_timeout:
  assumes "NewBreaker cfg t0 = Inr b" and "length ops < 2 ^ 62" and "s = cb_exec (cb_start b) ops"
    and "b_state (cs_breaker s) \<noteq> StateOpen" and "s' = cb_step s t op" and "b_state (cs_breaker s') = StateOpen"
    and "\<forall>(u, op) \<in> set later. u \<le> t + RetryAfter (cs_breaker s)"
  shows "cs_breaker (cb_exec s' later) = cs_breaker s' \<and>
    set (cs_inflight (cb_exec s' later)) \<subseteq> set (cs_inflight s') \<and>
    b_generation (cs_breaker s') \<notin> set (cs_inflight s')"
proof -
  note reach = reachable_ok [OF assms(1,2), folded assms(3)]
  then have step: "sys_ok s'" "unat (b_generation (cs_breaker s')) + 2 < 2 ^ 64"
    using sys_ok_step [of s t op] by (auto simp: assms(5))
  have "b_expiry (cs_breaker s') = t + RetryAfter (cs_breaker s)"
    using trip_expiry [OF assms(4), of t op] assms(6) by (simp add: assms(5) RetryAfter_def)
  with open_exec [OF step(1) assms(6) _ step(2), of later] assms(7) step(1) assms(6) show ?thesis
    by (auto simp: sys_ok_def cb_inv_def)
qed

theorem open_rejects_until_timeout_witness:
  "cs_breaker (cb_exec (cb_step (cb_exec (cb_start sample_breaker) sample_trip) 11 (OpDone 0 (Some (ErrorsNew ''down''))))
      [(50, OpAllowBegin), (111, OpAllowEnd 0)]) =
   cs_breaker (cb_step (cb_exec (cb_start sample_breaker) sample_trip) 11 (OpDone 0 (Some (ErrorsNew ''down''))))"
proof -
  have "RetryAfter (cs_breaker (cb_exec (cb_start sample_breaker) sample_trip)) = 100"
    using sys_ok_exec [of "cb_start sample_breaker" sample_trip] new_breaker [OF sample_new]
    by (simp add: RetryAfter_def cb_start_def sample_breaker_def sample_trip_def)
  then have bound: "\<forall>(u, op) \<in> set [(50, OpAllowBegin), (111, OpAllowEnd 0)].
      u \<le> 11 + RetryAfter (cs_breaker (cb_exec (cb_start sample_breaker) sample_trip))" by simp
  have len: "length sample_trip < 2 ^ 62" by (simp add: sample_trip_def)
  have closed: "b_state (cs_breaker (cb_exec (cb_start sample_breaker) sample_trip)) \<noteq> StateOpen"
    by (simp only: sample_trips(1) cb_state.distinct not_False_eq_True)
  show ?thesis
    by (rule conjunct1 [OF open_rejects_until_timeout [OF sample_new len refl closed refl sample_trips(2) bound]])
qed

text \<open>
  C33. The half-open state admits at most \<^verbatim>\<open>MaxRequests\<close> probes in its whole generation, under any
  interleaving of the two halves of \<^verbatim>\<open>Allow\<close>, of done callbacks and of state queries (fewer than
  \<open>2 ^ 62\<close> of them, so that the 64-bit generation counter does not wrap).
\<close>

theorem half_open_probes_bounded:
  assumes "NewBreaker cfg t0 = Inr b" and "length ops < 2 ^ 62" and "s = cb_exec (cb_start b) ops"
    and "b_state (cs_breaker s) = StateHalfOpen"
  shows "ct_Requests (b_counts (cs_breaker s)) \<le> b_maxRequests (cs_breaker s) \<and>
    outstanding (b_generation (cs_breaker s)) (cs_inflight s) \<le> unat (b_maxRequests (cs_breaker s))"
  using reachable_ok [OF assms(1,2), folded assms(3)] assms(4)
  by (auto simp: sys_ok_def cb_inv_def word_le_nat_alt)

theorem half_open_probes_bounded_witness:
  "ct_Requests (b_counts (cs_breaker (cb_exec (cb_start sample_breaker) sample_probe)))
     \<le> b_maxRequests (cs_breaker (cb_exec (cb_start sample_breaker) sample_probe))"
proof -
  have len: "length sample_probe < 2 ^ 62" by (simp add: sample_probe_def sample_trip_def)
  show ?thesis by (rule conjunct1 [OF half_open_probes_bounded [OF sample_new len refl sample_trips(3)]])
qed

text \<open>
  C34. A half-open circuit is never stuck: once every probe that was admitted has reported, the next
  request is admitted.
\<close>

theorem half_open_never_stuck:
  assumes "NewBreaker cfg t0 = Inr b" and "length ops < 2 ^ 62" and "s = cb_exec (cb_start b) ops"
    and "b_state (cs_breaker s) = StateHalfOpen" and "b_generation (cs_breaker s) \<notin> set (cs_inflight s)"
    and "before_phase1 (cs_breaker s) now = (b', seen, ts)"
  shows "\<exists>b'' g. before_phase3 b' seen = (b'', Inr g)"
proof -
  have ok: "sys_ok s" using reachable_ok [OF assms(1,2), folded assms(3)] by blast
  have b': "b' = cs_breaker s" "seen = (StateHalfOpen, b_generation (cs_breaker s))"
    using assms(4,6) by (auto simp: before_phase1_def currentState_def)
  have "ct_Requests (b_counts (cs_breaker s)) < b_maxRequests (cs_breaker s)"
    using ok assms(4) outstanding_none [OF assms(5)] by (auto simp: sys_ok_def cb_inv_def word_less_nat_alt)
  then show ?thesis by (simp add: b' before_phase3_def)
qed

theorem half_open_never_stuck_witness:
  "\<exists>b' seen ts b'' g. before_phase1 (cs_breaker (cb_exec (cb_start sample_breaker) sample_probe)) 113 = (b', seen, ts) \<and>
     before_phase3 b' seen = (b'', Inr g)"
proof -
  obtain b' seen ts where p: "before_phase1 (cs_breaker (cb_exec (cb_start sample_breaker) sample_probe)) 113 = (b', seen, ts)"
    by (metis prod_cases3)
  moreover have "\<exists>b'' g. before_phase3 b' seen = (b'', Inr g)"
  proof (rule half_open_never_stuck [OF sample_new _ refl sample_trips(3) _ p])
    show "length sample_probe < 2 ^ 62" by (simp add: sample_probe_def sample_trip_def)
    show "b_generation (cs_breaker (cb_exec (cb_start sample_breaker) sample_probe)) \<notin>
        set (cs_inflight (cb_exec (cb_start sample_breaker) sample_probe))" unfolding sample_trips(4) by simp
  qed
  ultimately show ?thesis by blast
qed

end
