(* ===== verification/Lease_Discipline.thy ===== *)
theory Lease_Discipline
  imports Gocell_Prelude
begin

text \<open>
  The contract that the fencing of the components rests on: names that are drawn at random (leases,
  tokens) are issued once, and a resource is held only under a name that was issued for it. A holder
  that lost its resource then never gets it back, whatever steps follow.

  The idempotency claimer (\<open>Idempotency\<close>) and the outbox relay (\<open>Outbox_Relay\<close>) keep the contract.
\<close>

section \<open>Definitions\<close>

fun fresh_run :: "('op \<Rightarrow> 'n set) \<Rightarrow> 'n set \<Rightarrow> 'op list \<Rightarrow> bool" where
  "fresh_run names U [] = True"
| "fresh_run names U (op # ops) = (names op \<inter> U = {} \<and> fresh_run names (U \<union> names op) ops)"

section \<open>Lemmas\<close>

lemma fresh_run_append:
  "fresh_run names U (xs @ ys) \<longleftrightarrow> fresh_run names U xs \<and> fresh_run names (U \<union> (\<Union>op \<in> set xs. names op)) ys"
  by (induction xs arbitrary: U) (auto simp: Un_assoc)

locale lease_discipline =
  fixes step :: "'s \<Rightarrow> 'op \<Rightarrow> 's"
    and names :: "'op \<Rightarrow> 'n set"
    and inv :: "'n set \<Rightarrow> 's \<Rightarrow> bool"
    and holder :: "'s \<Rightarrow> 'k \<Rightarrow> 'n option"
  assumes inv_step: "inv U s \<Longrightarrow> names op \<inter> U = {} \<Longrightarrow> inv (U \<union> names op) (step s op)"
    and holder_step: "inv U s \<Longrightarrow> names op \<inter> U = {} \<Longrightarrow> holder (step s op) k = Some l \<Longrightarrow> holder s k = Some l \<or> l \<in> names op"
begin

lemma inv_after_run: "inv U s \<Longrightarrow> fresh_run names U ops \<Longrightarrow> inv (U \<union> (\<Union>op \<in> set ops. names op)) (foldl step s ops)"
proof (induction ops arbitrary: U s)
  case (Cons op ops)
  from Cons.IH [OF inv_step [OF Cons.prems(1)], of op] Cons.prems(2) show ?case by (simp add: Un_assoc)
qed simp

lemma lost_stays_lost:
  assumes "inv U s" and "fresh_run names U ops" and "l \<in> U" and "holder s k \<noteq> Some l"
  shows "holder (foldl step s ops) k \<noteq> Some l"
  using assms
proof (induction ops arbitrary: U s)
  case (Cons op ops)
  have "l \<notin> names op" "names op \<inter> U = {}" using Cons.prems(2,3) by auto
  then have "holder (step s op) k \<noteq> Some l" using holder_step [OF Cons.prems(1)] Cons.prems(4) by blast
  then show ?case using Cons.IH [OF inv_step [OF Cons.prems(1)], of op] Cons.prems(2,3) by simp
qed simp

text \<open>What every step keeps once the names \<open>N\<close> are taken holds after every later run.\<close>

lemma kept_by_run:
  assumes "inv U s" and "fresh_run names U ops" and "N \<subseteq> U" and "P s"
    and keep: "\<And>U s op. inv U s \<Longrightarrow> names op \<inter> U = {} \<Longrightarrow> N \<subseteq> U \<Longrightarrow> P s \<Longrightarrow> P (step s op)"
  shows "P (foldl step s ops)"
  using assms(1-4)
proof (induction ops arbitrary: U s)
  case (Cons op ops)
  have fr: "names op \<inter> U = {}" "fresh_run names (U \<union> names op) ops" using Cons.prems(2) by simp_all
  have "N \<subseteq> U \<union> names op" using Cons.prems(3) by auto
  from Cons.IH [OF inv_step [OF Cons.prems(1) fr(1)] fr(2) this keep [OF Cons.prems(1) fr(1) Cons.prems(3,4)]]
  show ?case by simp
qed simp

end

end
