(* ===== verification/Idempotency.thy ===== *)
theory Idempotency
  imports Lease_Discipline
begin

text \<open>
  The consumer-side idempotency contract (\<^verbatim>\<open>framework/kernel/idempotency/idempotency.go\<close>) and its
  in-memory claimer (\<^verbatim>\<open>inmem.go\<close>): \<^verbatim>\<open>Claim\<close> takes a processing lease on a key, and the receipt it returns
  commits the key as done or releases it.

  Every method holds the claimer's mutex, so it is one step. The clock reading and the random token
  are arguments. A receipt is shared by the goroutines that hold it; its \<^verbatim>\<open>sync.Once\<close> is the flag
  \<open>rc_used\<close>, and the error it caches is \<open>rc_err\<close>.
\<close>

section \<open>Definitions\<close>

datatype claim_state = ClaimAcquired | ClaimDone | ClaimBusy | ClaimOther nat

record claim_entry =
  ce_state :: claim_state
  ce_token :: string
  ce_expiresAt :: instant

type_synonym claimer = "string \<rightharpoonup> claim_entry"

record receipt =
  rc_key :: string
  rc_token :: string
  rc_doneTTL :: duration
  rc_used :: bool
  rc_err :: "goerr option"

datatype any_receipt = NilReceipt | NonAcquiredReceipt | InMemReceipt receipt

definition ErrLeaseExpired :: goerr where
  "ErrLeaseExpired = Errcode KindConflict ErrIdempotencyLeaseExpired ''idempotency: processing lease expired''"

definition ErrNoClaimLease :: goerr where
  "ErrNoClaimLease = Errcode KindConflict ErrIdempotencyNoClaimLease ''idempotency: no acquired claim lease''"

definition errStaleReceipt :: goerr where
  "errStaleReceipt = ErrorsNew ''idempotency: receipt is stale (claim was released or expired)''"

definition DefaultTTL :: duration where
  "DefaultTTL = 24 * hour"

definition DefaultLeaseTTL :: duration where
  "DefaultLeaseTTL = 5 * minute"

text \<open>The methods of the receipt that comes with a claim that was not acquired.\<close>

definition nonAcquired_Commit :: "goerr option" where
  "nonAcquired_Commit = Some ErrNoClaimLease"

definition nonAcquired_Release :: "goerr option" where
  "nonAcquired_Release = Some ErrNoClaimLease"

definition nonAcquired_Extend :: "duration \<Rightarrow> goerr option" where
  "nonAcquired_Extend ttl = Some ErrNoClaimLease"

definition NewInMemClaimer :: claimer where
  "NewInMemClaimer = Map.empty"

definition fresh_claim ::
  "claimer \<Rightarrow> instant \<Rightarrow> string \<Rightarrow> duration \<Rightarrow> duration \<Rightarrow> string res \<Rightarrow>
   claimer \<times> claim_state \<times> any_receipt \<times> goerr option" where
  "fresh_claim c now key leaseTTL doneTTL newToken =
     (case newToken of
        Inl err \<Rightarrow> (c, ClaimBusy, NilReceipt, Some err)
      | Inr token \<Rightarrow>
          (c(key \<mapsto> \<lparr>ce_state = ClaimAcquired, ce_token = token, ce_expiresAt = now + leaseTTL\<rparr>),
           ClaimAcquired,
           InMemReceipt \<lparr>rc_key = key, rc_token = token, rc_doneTTL = doneTTL, rc_used = False, rc_err = None\<rparr>,
           None))"

definition Claim ::
  "claimer \<Rightarrow> instant \<Rightarrow> string \<Rightarrow> duration \<Rightarrow> duration \<Rightarrow> string res \<Rightarrow>
   claimer \<times> claim_state \<times> any_receipt \<times> goerr option" where
  "Claim c now key leaseTTL doneTTL newToken =
     (case c key of
        Some existing \<Rightarrow>
          if now < ce_expiresAt existing then
            (if ce_state existing = ClaimDone then (c, ClaimDone, NonAcquiredReceipt, None)
             else (c, ClaimBusy, NonAcquiredReceipt, None))
          else fresh_claim (c(key := None)) now key leaseTTL doneTTL newToken
      | None \<Rightarrow> fresh_claim c now key leaseTTL doneTTL newToken)"

text \<open>The entry a receipt still owns.\<close>

definition owned :: "claimer \<Rightarrow> receipt \<Rightarrow> claim_entry option" where
  "owned c r =
     (case c (rc_key r) of
        Some e \<Rightarrow> if ce_token e \<noteq> rc_token r then None else Some e
      | None \<Rightarrow> None)"

definition Commit :: "claimer \<Rightarrow> instant \<Rightarrow> receipt \<Rightarrow> claimer \<times> receipt \<times> goerr option" where
  "Commit c now r =
     (if rc_used r then (c, r, rc_err r)
      else let r = r\<lparr>rc_used := True\<rparr> in
        case owned c r of
          None \<Rightarrow> (c, r\<lparr>rc_err := Some errStaleReceipt\<rparr>, Some errStaleReceipt)
        | Some e \<Rightarrow>
            (c(rc_key r \<mapsto> e\<lparr>ce_state := ClaimDone, ce_expiresAt := now + rc_doneTTL r\<rparr>), r, rc_err r))"

definition Release :: "claimer \<Rightarrow> receipt \<Rightarrow> claimer \<times> receipt \<times> goerr option" where
  "Release c r =
     (if rc_used r then (c, r, rc_err r)
      else let r = r\<lparr>rc_used := True\<rparr> in
        case owned c r of
          None \<Rightarrow> (c, r\<lparr>rc_err := Some errStaleReceipt\<rparr>, Some errStaleReceipt)
        | Some e \<Rightarrow> (c(rc_key r := None), r, rc_err r))"

definition Extend :: "claimer \<Rightarrow> instant \<Rightarrow> receipt \<Rightarrow> duration \<Rightarrow> claimer \<times> goerr option" where
  "Extend c now r ttl =
     (case owned c r of
        None \<Rightarrow> (c, Some ErrLeaseExpired)
      | Some e \<Rightarrow> (c(rc_key r \<mapsto> e\<lparr>ce_expiresAt := now + ttl\<rparr>), None))"

subsection \<open>Interleavings\<close>

record cl_sys =
  cl_map :: claimer
  cl_receipts :: "receipt list"

datatype cl_op =
    ClClaim string duration duration "string res"
  | ClCommit nat
  | ClRelease nat
  | ClExtend nat duration

fun cl_step :: "cl_sys \<Rightarrow> instant \<Rightarrow> cl_op \<Rightarrow> cl_sys" where
  "cl_step s now (ClClaim key leaseTTL doneTTL newToken) =
     (case Claim (cl_map s) now key leaseTTL doneTTL newToken of
        (c, st, InMemReceipt r, err) \<Rightarrow> \<lparr>cl_map = c, cl_receipts = cl_receipts s @ [r]\<rparr>
      | (c, st, _, err) \<Rightarrow> s\<lparr>cl_map := c\<rparr>)"
| "cl_step s now (ClCommit i) =
     (if i < length (cl_receipts s) then
        let (c, r, err) = Commit (cl_map s) now (cl_receipts s ! i)
        in \<lparr>cl_map = c, cl_receipts = (cl_receipts s)[i := r]\<rparr>
      else s)"
| "cl_step s now (ClRelease i) =
     (if i < length (cl_receipts s) then
        let (c, r, err) = Release (cl_map s) (cl_receipts s ! i)
        in \<lparr>cl_map = c, cl_receipts = (cl_receipts s)[i := r]\<rparr>
      else s)"
| "cl_step s now (ClExtend i ttl) =
     (if i < length (cl_receipts s) then s\<lparr>cl_map := fst (Extend (cl_map s) now (cl_receipts s ! i) ttl)\<rparr>
      else s)"

fun cl_exec :: "cl_sys \<Rightarrow> (instant \<times> cl_op) list \<Rightarrow> cl_sys" where
  "cl_exec s [] = s"
| "cl_exec s ((now, op) # ops) = cl_exec (cl_step s now op) ops"

definition cl_start :: cl_sys where
  "cl_start = \<lparr>cl_map = NewInMemClaimer, cl_receipts = []\<rparr>"

text \<open>A receipt as a client holds it: nil, the receipt of a claim that was not acquired, or the receipt of a number.\<close>

datatype receipt_ref = NilRef | NonAcquiredRef | LiveRef nat

definition claimer_claim ::
  "cl_sys \<Rightarrow> instant \<Rightarrow> string \<Rightarrow> duration \<Rightarrow> duration \<Rightarrow> string res \<Rightarrow>
   cl_sys \<times> (claim_state \<times> receipt_ref \<times> goerr option)" where
  "claimer_claim c now key l d tok =
     (case Claim (cl_map c) now key l d tok of
        (m, st, rc, err) \<Rightarrow>
          (cl_step c now (ClClaim key l d tok),
           (st, (case rc of InMemReceipt r \<Rightarrow> LiveRef (length (cl_receipts c)) | NonAcquiredReceipt \<Rightarrow> NonAcquiredRef
                  | NilReceipt \<Rightarrow> NilRef), err)))"

definition claimer_commit :: "cl_sys \<Rightarrow> instant \<Rightarrow> receipt_ref \<Rightarrow> cl_sys \<times> goerr option" where
  "claimer_commit c now ref =
     (case ref of
        LiveRef i \<Rightarrow> (cl_step c now (ClCommit i), snd (snd (Commit (cl_map c) now (cl_receipts c ! i))))
      | _ \<Rightarrow> (c, nonAcquired_Commit))"

definition claimer_release :: "cl_sys \<Rightarrow> instant \<Rightarrow> receipt_ref \<Rightarrow> cl_sys \<times> goerr option" where
  "claimer_release c now ref =
     (case ref of
        LiveRef i \<Rightarrow> (cl_step c now (ClRelease i), snd (snd (Release (cl_map c) (cl_receipts c ! i))))
      | _ \<Rightarrow> (c, nonAcquired_Release))"

subsection \<open>Vocabulary of the properties\<close>

definition op_token :: "cl_op \<Rightarrow> string set" where
  "op_token op = (case op of ClClaim _ _ _ (Inr t) \<Rightarrow> {t} | _ \<Rightarrow> {})"

text \<open>No two claims draw the same random token.\<close>

fun fresh_ops :: "string set \<Rightarrow> (instant \<times> cl_op) list \<Rightarrow> bool" where
  "fresh_ops U [] = True"
| "fresh_ops U ((t, op) # ops) = (op_token op \<inter> U = {} \<and> fresh_ops (U \<union> op_token op) ops)"

definition all_tokens :: "(instant \<times> cl_op) list \<Rightarrow> string set" where
  "all_tokens ops = (\<Union>(t, op) \<in> set ops. op_token op)"

definition cl_inv :: "string set \<Rightarrow> cl_sys \<Rightarrow> bool" where
  "cl_inv U s \<longleftrightarrow>
     rc_token ` set (cl_receipts s) \<subseteq> U \<and> distinct (map rc_token (cl_receipts s)) \<and>
     (\<forall>key e. cl_map s key = Some e \<longrightarrow>
        (\<exists>i < length (cl_receipts s). rc_token (cl_receipts s ! i) = ce_token e \<and> rc_key (cl_receipts s ! i) = key \<and>
           (ce_state e = ClaimDone \<longrightarrow> rc_used (cl_receipts s ! i))))"

text \<open>The receipts that are neither committed nor released.\<close>

definition open_receipts :: "cl_sys \<Rightarrow> nat set" where
  "open_receipts c = {i. i < length (cl_receipts c) \<and> \<not> rc_used (cl_receipts c ! i)}"

text \<open>\<open>i\<close> is a used receipt for \<open>key\<close> that owns the done mark with the given expiry.\<close>

definition marked :: "string set \<Rightarrow> cl_sys \<Rightarrow> nat \<Rightarrow> string \<Rightarrow> instant \<Rightarrow> bool" where
  "marked U s i key expiry \<longleftrightarrow> cl_inv U s \<and> i < length (cl_receipts s) \<and> rc_key (cl_receipts s ! i) = key \<and>
     rc_used (cl_receipts s ! i) \<and>
     cl_map s key = Some \<lparr>ce_state = ClaimDone, ce_token = rc_token (cl_receipts s ! i), ce_expiresAt = expiry\<rparr>"

definition sample_claims :: "(instant \<times> cl_op) list" where
  "sample_claims = [(1, ClClaim ''evt'' 10 100 (Inr ''t1''))]"

definition sample_sys :: cl_sys where
  "sample_sys = cl_exec cl_start sample_claims"

section \<open>Lemmas\<close>

lemma owned_iff: "owned c r = Some e \<longleftrightarrow> c (rc_key r) = Some e \<and> ce_token e = rc_token r"
  by (auto simp: owned_def split: option.splits)

lemma owned_used [simp]: "owned c (r\<lparr>rc_used := b\<rparr>) = owned c r"
  by (simp add: owned_def split: option.split)

lemma Claim_cases:
  "Claim c now key l d tok = (c', st, r, err) \<Longrightarrow>
     (c' = c \<or> c' = c(key := None)) \<and> (\<forall>x. r \<noteq> InMemReceipt x) \<or>
     (\<exists>t. tok = Inr t \<and> st = ClaimAcquired \<and>
        c' = c(key \<mapsto> \<lparr>ce_state = ClaimAcquired, ce_token = t, ce_expiresAt = now + l\<rparr>) \<and>
        r = InMemReceipt \<lparr>rc_key = key, rc_token = t, rc_doneTTL = d, rc_used = False, rc_err = None\<rparr>)"
  by (auto simp: Claim_def fresh_claim_def split: option.splits if_splits sum.splits)

lemma Claim_unexpired:
  "c key = Some e \<Longrightarrow> now < ce_expiresAt e \<Longrightarrow>
   Claim c now key l d tok = (c, if ce_state e = ClaimDone then ClaimDone else ClaimBusy, NonAcquiredReceipt, None)"
  by (simp add: Claim_def)

lemma Claim_other: "key' \<noteq> key \<Longrightarrow> fst (Claim c now key' l d tok) key = c key"
  by (auto simp: Claim_def fresh_claim_def split: option.split sum.split)

text \<open>The token of a receipt at an index, and its used flag, never change back.\<close>

lemma step_receipts:
  assumes "i < length (cl_receipts s)"
  shows "i < length (cl_receipts (cl_step s now op)) \<and>
    rc_token (cl_receipts (cl_step s now op) ! i) = rc_token (cl_receipts s ! i) \<and>
    rc_key (cl_receipts (cl_step s now op) ! i) = rc_key (cl_receipts s ! i) \<and>
    (rc_used (cl_receipts s ! i) \<longrightarrow> rc_used (cl_receipts (cl_step s now op) ! i))"
proof (cases op)
  case (ClClaim key l d tok)
  obtain c st r err where "Claim (cl_map s) now key l d tok = (c, st, r, err)" by (metis prod_cases4)
  with assms show ?thesis by (cases r) (auto simp: ClClaim nth_append)
next
  case (ClCommit j)
  with assms show ?thesis
    by (cases "i = j") (auto simp: Commit_def Let_def split: option.split)
next
  case (ClRelease j)
  with assms show ?thesis
    by (cases "i = j") (auto simp: Release_def Let_def split: option.split)
next
  case (ClExtend j ttl)
  with assms show ?thesis by simp
qed

lemma update_token_same: "i < length xs \<Longrightarrow> (map rc_token xs)[i := rc_token (xs ! i)] = map rc_token xs"
  by (metis list_update_id nth_map)

lemma step_tokens:
  "\<exists>ts. map rc_token (cl_receipts (cl_step s now op)) = map rc_token (cl_receipts s) @ ts \<and> set ts \<subseteq> op_token op \<and> length ts \<le> 1"
proof (cases op)
  case (ClClaim key l d tok)
  obtain c st r err where cl: "Claim (cl_map s) now key l d tok = (c, st, r, err)" by (metis prod_cases4)
  from Claim_cases [OF cl] cl show ?thesis by (cases r) (auto simp: ClClaim op_token_def)
next
  case (ClCommit i)
  then show ?thesis
    by (auto simp: Commit_def Let_def map_update update_token_same split: option.split)
next
  case (ClRelease i)
  then show ?thesis
    by (auto simp: Release_def Let_def map_update update_token_same split: option.split)
next
  case (ClExtend i ttl)
  then show ?thesis by simp
qed

text \<open>An entry changes only by a claim after its expiry or through the receipt that owns it.\<close>

lemma step_entry:
  assumes "cl_map (cl_step s now op) key = Some e'"
  shows "cl_map s key = Some e' \<or>
    (\<exists>l d t. op = ClClaim key l d (Inr t) \<and> (\<forall>e. cl_map s key = Some e \<longrightarrow> ce_expiresAt e \<le> now) \<and>
       e' = \<lparr>ce_state = ClaimAcquired, ce_token = t, ce_expiresAt = now + l\<rparr> \<and>
       cl_receipts (cl_step s now op) = cl_receipts s @
         [\<lparr>rc_key = key, rc_token = t, rc_doneTTL = d, rc_used = False, rc_err = None\<rparr>]) \<or>
    (\<exists>i e. i < length (cl_receipts s) \<and> owned (cl_map s) (cl_receipts s ! i) = Some e \<and> rc_key (cl_receipts s ! i) = key \<and>
       ((op = ClCommit i \<and> \<not> rc_used (cl_receipts s ! i) \<and> e' = e\<lparr>ce_state := ClaimDone, ce_expiresAt := now + rc_doneTTL (cl_receipts s ! i)\<rparr>) \<or>
        (\<exists>ttl. op = ClExtend i ttl \<and> e' = e\<lparr>ce_expiresAt := now + ttl\<rparr>)))"
proof (cases op)
  case (ClClaim k l d tok)
  show ?thesis
  proof (cases "k = key")
    case True
    with assms ClClaim show ?thesis
      by (auto simp: Claim_def fresh_claim_def split: option.splits sum.splits if_splits)
  next
    case False
    obtain c st r err where cl: "Claim (cl_map s) now k l d tok = (c, st, r, err)" by (metis prod_cases4)
    from Claim_other [OF False, of "cl_map s" now l d tok] cl have "c key = cl_map s key" by simp
    with assms cl show ?thesis by (cases r) (auto simp: ClClaim)
  qed
next
  case (ClCommit i)
  with assms show ?thesis
    by (auto simp: Commit_def Let_def split: option.splits if_splits)
next
  case (ClRelease i)
  with assms show ?thesis
    by (auto simp: Release_def Let_def split: option.splits if_splits)
next
  case (ClExtend i ttl)
  with assms show ?thesis
    by (auto simp: Extend_def split: option.splits if_splits)
qed

lemma cl_inv_step:
  assumes inv: "cl_inv U s" and fresh: "op_token op \<inter> U = {}"
  shows "cl_inv (U \<union> op_token op) (cl_step s now op)"
proof -
  let ?s = "cl_step s now op"
  obtain ts where ts: "map rc_token (cl_receipts ?s) = map rc_token (cl_receipts s) @ ts" "set ts \<subseteq> op_token op" "length ts \<le> 1"
    using step_tokens by blast
  have "set (map rc_token (cl_receipts ?s)) \<subseteq> U \<union> op_token op" "distinct (map rc_token (cl_receipts ?s))"
    unfolding ts(1) using inv fresh ts(2,3) by (cases ts; auto simp: cl_inv_def)+
  moreover have "\<exists>i < length (cl_receipts ?s). rc_token (cl_receipts ?s ! i) = ce_token e' \<and> rc_key (cl_receipts ?s ! i) = key \<and>
      (ce_state e' = ClaimDone \<longrightarrow> rc_used (cl_receipts ?s ! i))" if e': "cl_map ?s key = Some e'" for key e'
    using step_entry [OF e']
  proof (elim disjE exE conjE)
    assume "cl_map s key = Some e'"
    with inv obtain i where i: "i < length (cl_receipts s)" "rc_token (cl_receipts s ! i) = ce_token e'"
      "rc_key (cl_receipts s ! i) = key" "ce_state e' = ClaimDone \<longrightarrow> rc_used (cl_receipts s ! i)"
      unfolding cl_inv_def by blast
    with step_receipts [OF i(1), of now op] show ?thesis by metis
  next
    fix l d t
    assume "e' = \<lparr>ce_state = ClaimAcquired, ce_token = t, ce_expiresAt = now + l\<rparr>"
      "cl_receipts ?s = cl_receipts s @ [\<lparr>rc_key = key, rc_token = t, rc_doneTTL = d, rc_used = False, rc_err = None\<rparr>]"
    then show ?thesis by (intro exI [of _ "length (cl_receipts s)"]) simp
  next
    fix i e
    assume i: "i < length (cl_receipts s)" "owned (cl_map s) (cl_receipts s ! i) = Some e" "rc_key (cl_receipts s ! i) = key"
      and "op = ClCommit i" "e' = e\<lparr>ce_state := ClaimDone, ce_expiresAt := now + rc_doneTTL (cl_receipts s ! i)\<rparr>"
    moreover from this have "rc_used (cl_receipts ?s ! i)" by (auto simp: Commit_def Let_def split: option.split)
    ultimately show ?thesis using step_receipts [OF i(1), of now op] by (auto simp: owned_iff)
  next
    fix i e ttl
    assume i: "i < length (cl_receipts s)" "owned (cl_map s) (cl_receipts s ! i) = Some e" "rc_key (cl_receipts s ! i) = key"
      and op: "op = ClExtend i ttl" and e': "e' = e\<lparr>ce_expiresAt := now + ttl\<rparr>"
    from i have "cl_map s key = Some e" by (auto simp: owned_iff)
    with inv obtain j where "j < length (cl_receipts s)" "rc_token (cl_receipts s ! j) = ce_token e"
      "rc_key (cl_receipts s ! j) = key" "ce_state e = ClaimDone \<longrightarrow> rc_used (cl_receipts s ! j)"
      unfolding cl_inv_def by blast
    with i op e' show ?thesis by auto
  qed
  ultimately show ?thesis unfolding cl_inv_def by auto
qed

lemma cl_inv_start: "cl_inv {} cl_start"
  by (simp add: cl_inv_def cl_start_def NewInMemClaimer_def)

lemma other_receipt:
  assumes inv: "cl_inv U s" and i: "i < length (cl_receipts s)" "cl_map s key = Some e" "ce_token e = rc_token (cl_receipts s ! i)"
    and j: "j < length (cl_receipts s)" "owned (cl_map s) (cl_receipts s ! j) = Some f" "rc_key (cl_receipts s ! j) = key"
  shows "j = i"
proof -
  from j i(2,3) have "rc_token (cl_receipts s ! j) = rc_token (cl_receipts s ! i)" by (auto simp: owned_iff)
  moreover have "distinct (map rc_token (cl_receipts s))" using inv by (simp add: cl_inv_def)
  ultimately show ?thesis using i(1) j(1) by (simp add: distinct_conv_nth) (metis nth_map)
qed

text \<open>While an entry is unexpired, calls through other receipts and other claims leave it alone.\<close>

lemma entry_stable:
  assumes inv: "cl_inv U s" and i: "i < length (cl_receipts s)" "ce_token e = rc_token (cl_receipts s ! i)"
    and e: "cl_map s key = Some e" "now < ce_expiresAt e"
    and op: "\<forall>ttl. op \<noteq> ClExtend i ttl" "op \<in> {ClCommit i, ClRelease i} \<longrightarrow> rc_used (cl_receipts s ! i)"
  shows "cl_map (cl_step s now op) key = Some e"
proof (cases op)
  case (ClClaim k l d tok)
  show ?thesis
  proof (cases "k = key")
    case True
    with e show ?thesis by (simp add: ClClaim Claim_unexpired)
  next
    case False
    obtain c st r err where cl: "Claim (cl_map s) now k l d tok = (c, st, r, err)" by (metis prod_cases4)
    from Claim_other [OF False, of "cl_map s" now l d tok] cl e have "c key = Some e" by simp
    with cl show ?thesis by (cases r) (auto simp: ClClaim)
  qed
next
  case (ClCommit j)
  then show ?thesis
    using op(2) e(1) other_receipt [OF inv i(1) e(1) i(2), of j]
    by (cases "j = i") (auto simp: Commit_def Let_def split: option.split)
next
  case (ClRelease j)
  then show ?thesis
    using op(2) e(1) other_receipt [OF inv i(1) e(1) i(2), of j]
    by (cases "j = i") (auto simp: Release_def Let_def split: option.split)
next
  case (ClExtend j ttl)
  then show ?thesis
    using op(1) e(1) other_receipt [OF inv i(1) e(1) i(2), of j]
    by (cases "j = i") (auto simp: Extend_def split: option.split)
qed

lemma entry_stable_exec:
  assumes "cl_inv U s" and "fresh_ops U ops" and "i < length (cl_receipts s)" "ce_token e = rc_token (cl_receipts s ! i)"
    and "cl_map s key = Some e" and "\<forall>(t, op) \<in> set ops. t < ce_expiresAt e \<and> (\<forall>ttl. op \<noteq> ClExtend i ttl) \<and>
      (op \<in> {ClCommit i, ClRelease i} \<longrightarrow> rc_used (cl_receipts s ! i))"
  shows "cl_map (cl_exec s ops) key = Some e"
  using assms
proof (induction ops arbitrary: s U)
  case (Cons top ops)
  obtain t op where top: "top = (t, op)" by (cases top)
  let ?s = "cl_step s t op"
  note r = step_receipts [OF Cons.prems(3), of t op]
  have m: "cl_map ?s key = Some e"
    by (rule entry_stable [OF Cons.prems(1,3,4,5)]) (use Cons.prems(6) top in auto)
  have inv: "cl_inv (U \<union> op_token op) ?s"
    by (rule cl_inv_step [OF Cons.prems(1)]) (use Cons.prems(2) top in auto)
  have tok: "ce_token e = rc_token (cl_receipts ?s ! i)" using Cons.prems(4) r by simp
  have fr: "fresh_ops (U \<union> op_token op) ops" using Cons.prems(2) by (simp add: top)
  have "u < ce_expiresAt e \<and> (\<forall>ttl. p \<noteq> ClExtend i ttl) \<and> (p \<in> {ClCommit i, ClRelease i} \<longrightarrow> rc_used (cl_receipts ?s ! i))"
    if "(u, p) \<in> set ops" for u p
    using bspec [OF Cons.prems(6), of "(u, p)"] that r by (auto simp: top)
  with Cons.IH [OF inv fr conjunct1 [OF r] tok m] show ?case by (auto simp: top)
qed simp

lemma fresh_ops_append: "fresh_ops U (xs @ ys) \<longleftrightarrow> fresh_ops U xs \<and> fresh_ops (U \<union> all_tokens xs) ys"
proof (induction xs arbitrary: U)
  case Nil
  show ?case by (simp add: all_tokens_def)
next
  case (Cons x xs)
  then show ?case by (cases x) (simp add: all_tokens_def Un_assoc)
qed

lemma cl_exec_append: "cl_exec s (xs @ ys) = cl_exec (cl_exec s xs) ys"
  by (induction s xs rule: cl_exec.induct) simp_all

lemma cl_inv_exec_tokens: "cl_inv U s \<Longrightarrow> fresh_ops U ops \<Longrightarrow> cl_inv (U \<union> all_tokens ops) (cl_exec s ops)"
proof (induction ops arbitrary: s U)
  case (Cons top ops)
  obtain t op where top: "top = (t, op)" by (cases top)
  have "cl_inv (U \<union> op_token op) (cl_step s t op)"
    by (rule cl_inv_step [OF Cons.prems(1)]) (use Cons.prems(2) top in auto)
  from Cons.IH [OF this] Cons.prems(2) have "cl_inv ((U \<union> op_token op) \<union> all_tokens ops) (cl_exec (cl_step s t op) ops)"
    by (simp add: top)
  then show ?case by (simp add: top all_tokens_def Un_assoc)
qed (simp add: all_tokens_def)

lemma cl_inv_mono: "cl_inv V c \<Longrightarrow> V \<subseteq> V' \<Longrightarrow> cl_inv V' c"
  unfolding cl_inv_def by blast

lemma done_mark_step:
  assumes inv: "cl_inv V c" and e: "cl_map c key = Some e" "ce_state e = ClaimDone" "now < ce_expiresAt e"
    and op: "\<And>i ttl. op = ClExtend i ttl \<Longrightarrow> i \<in> open_receipts c"
  shows "cl_map (cl_step c now op) key = Some e"
proof -
  obtain i where i: "i < length (cl_receipts c)" "rc_token (cl_receipts c ! i) = ce_token e" "rc_used (cl_receipts c ! i)"
    using inv e unfolding cl_inv_def by blast
  show ?thesis by (rule entry_stable [OF inv i(1) _ e(1,3)]) (use i op in \<open>auto simp: open_receipts_def\<close>)
qed

lemma open_receipts_commit: "open_receipts (cl_step c now (ClCommit i)) = open_receipts c - {i}"
  by (cases "i < length (cl_receipts c)")
     (auto simp: open_receipts_def Commit_def Let_def nth_list_update split: option.splits if_splits)

lemma open_receipts_release: "open_receipts (cl_step c now (ClRelease i)) = open_receipts c - {i}"
  by (cases "i < length (cl_receipts c)")
     (auto simp: open_receipts_def Release_def Let_def nth_list_update split: option.splits if_splits)

lemma open_receipts_extend: "open_receipts (cl_step c now (ClExtend i ttl)) = open_receipts c"
  by (simp add: open_receipts_def)

lemma claim_receipts:
  assumes "claimer_claim c now key l d tok = (c', st, ref, err)"
  shows "c' = cl_step c now (ClClaim key l d tok) \<and>
    (ref = LiveRef (length (cl_receipts c)) \<and> st = ClaimAcquired \<and> err = None \<and>
       open_receipts c' = insert (length (cl_receipts c)) (open_receipts c) \<or>
     (\<forall>i. ref \<noteq> LiveRef i) \<and> (st = ClaimDone \<or> st = ClaimBusy) \<and> open_receipts c' = open_receipts c)"
  using assms by (auto simp: claimer_claim_def Claim_def fresh_claim_def open_receipts_def nth_append less_Suc_eq
      split: option.splits sum.splits if_splits)

subsection \<open>The claimer keeps the lease discipline\<close>

lemma cl_exec_foldl: "cl_exec s ops = foldl (\<lambda>s (t, op). cl_step s t op) s ops"
  by (induction s ops rule: cl_exec.induct) simp_all

lemma fresh_ops_run: "fresh_ops U ops = fresh_run (\<lambda>(t, op). op_token op) U ops"
  by (induction U ops rule: fresh_ops.induct) simp_all

interpretation claimer_leases: lease_discipline "\<lambda>s (t, op). cl_step s t op" "\<lambda>(t, op). op_token op" cl_inv
  "\<lambda>s key. map_option ce_token (cl_map s key)"
proof unfold_locales
  fix U s and op :: "instant \<times> cl_op" assume "cl_inv U s" "(case op of (t, op) \<Rightarrow> op_token op) \<inter> U = {}"
  then show "cl_inv (U \<union> (case op of (t, op) \<Rightarrow> op_token op)) (case op of (t, op) \<Rightarrow> cl_step s t op)"
    by (cases op) (simp add: cl_inv_step)
next
  fix U s key l and op :: "instant \<times> cl_op"
  assume "map_option ce_token (cl_map (case op of (t, op) \<Rightarrow> cl_step s t op) key) = Some l"
  then obtain t op1 e where op: "op = (t, op1)" and e: "cl_map (cl_step s t op1) key = Some e" "ce_token e = l"
    by (cases op) auto
  from step_entry [OF e(1)] e(2)
  show "map_option ce_token (cl_map s key) = Some l \<or> l \<in> (case op of (t, op) \<Rightarrow> op_token op)"
    by (auto simp: op op_token_def owned_iff)
qed

text \<open>A receipt that no longer owns its key never owns it again: its commit and release fail for good.\<close>

lemma stale_receipt_stays_stale:
  assumes "cl_inv U s" and "fresh_ops U ops" and "r \<in> set (cl_receipts s)" and "owned (cl_map s) r = None"
  shows "owned (cl_map (cl_exec s ops)) r = None"
proof -
  have "rc_token r \<in> U" using assms(1,3) by (auto simp: cl_inv_def)
  moreover have "map_option ce_token (cl_map s (rc_key r)) \<noteq> Some (rc_token r)"
    using assms(4) by (auto simp: owned_def split: if_splits)
  ultimately have "map_option ce_token (cl_map (cl_exec s ops) (rc_key r)) \<noteq> Some (rc_token r)"
    using claimer_leases.lost_stays_lost [OF assms(1)] assms(2) by (simp add: fresh_ops_run cl_exec_foldl)
  then show ?thesis by (auto simp: owned_def split: option.split)
qed

subsection \<open>The done mark of a committed receipt\<close>

lemma exec_receipts:
  "i < length (cl_receipts s) \<Longrightarrow> i < length (cl_receipts (cl_exec s ops)) \<and>
     rc_token (cl_receipts (cl_exec s ops) ! i) = rc_token (cl_receipts s ! i) \<and>
     rc_key (cl_receipts (cl_exec s ops) ! i) = rc_key (cl_receipts s ! i) \<and>
     (rc_used (cl_receipts s ! i) \<longrightarrow> rc_used (cl_receipts (cl_exec s ops) ! i))"
proof (induction s ops rule: cl_exec.induct)
  case (2 s t op ops)
  from step_receipts [OF 2(2), of t op] 2(1) show ?case by (auto simp del: cl_step.simps)
qed simp

lemma marked_commit:
  assumes "cl_inv U s" and "i < length (cl_receipts s)" and "Commit (cl_map s) t (cl_receipts s ! i) = (c, r, None)"
    and "\<not> rc_used (cl_receipts s ! i)"
  shows "marked U (cl_step s t (ClCommit i)) i (rc_key (cl_receipts s ! i)) (t + rc_doneTTL (cl_receipts s ! i))"
proof -
  from assms(3,4) obtain e where e: "owned (cl_map s) (cl_receipts s ! i) = Some e"
    by (auto simp: Commit_def Let_def split: option.splits)
  have inv: "cl_inv U (cl_step s t (ClCommit i))" using cl_inv_step [OF assms(1), of "ClCommit i" t] by (simp add: op_token_def)
  have step: "cl_step s t (ClCommit i) =
      \<lparr>cl_map = (cl_map s)(rc_key (cl_receipts s ! i) \<mapsto>
           e\<lparr>ce_state := ClaimDone, ce_expiresAt := t + rc_doneTTL (cl_receipts s ! i)\<rparr>),
       cl_receipts = (cl_receipts s)[i := (cl_receipts s ! i)\<lparr>rc_used := True\<rparr>]\<rparr>"
    using assms(2,4) e by (simp add: Commit_def Let_def)
  show ?thesis using inv assms(2) e unfolding marked_def step by (cases e) (auto simp: owned_iff)
qed

lemma marked_extend:
  "marked U s i key x \<Longrightarrow> marked U (cl_step s t (ClExtend i ttl)) i key (t + ttl)"
  using cl_inv_step [of U s "ClExtend i ttl" t] by (auto simp: marked_def Extend_def owned_def op_token_def)

lemma marked_exec:
  assumes m: "marked U s i key x" and "fresh_ops U ops" and "\<forall>(u, op) \<in> set ops. u < x \<and> (\<forall>ttl. op \<noteq> ClExtend i ttl)"
  shows "marked (U \<union> all_tokens ops) (cl_exec s ops) i key x"
proof -
  from m have i: "i < length (cl_receipts s)" by (simp add: marked_def)
  have "cl_map (cl_exec s ops) key = Some \<lparr>ce_state = ClaimDone, ce_token = rc_token (cl_receipts s ! i), ce_expiresAt = x\<rparr>"
    by (rule entry_stable_exec [OF _ assms(2) i]) (use m assms(3) in \<open>auto simp: marked_def\<close>)
  with m cl_inv_exec_tokens [OF _ assms(2)] exec_receipts [OF i, of ops] show ?thesis by (auto simp: marked_def)
qed

lemma marked_claim:
  assumes "marked U s i key x"
  shows "\<exists>m rec. Claim (cl_map s) w key l d (Inr tok) =
    (m, if w < x then ClaimDone else ClaimAcquired, rec, None)"
  using assms by (auto simp: marked_def Claim_def fresh_claim_def)

lemma marked_reached:
  assumes "fresh_ops {} (before @ later)" and "s = cl_exec cl_start before"
    and "i < length (cl_receipts s)" and "Commit (cl_map s) t (cl_receipts s ! i) = (c, r, None)"
    and "\<not> rc_used (cl_receipts s ! i)"
    and "\<forall>(u, op) \<in> set later. u < t + rc_doneTTL (cl_receipts s ! i) \<and> (\<forall>ttl. op \<noteq> ClExtend i ttl)"
  shows "marked (all_tokens before \<union> all_tokens later) (cl_exec (cl_step s t (ClCommit i)) later) i (rc_key (cl_receipts s ! i))
    (t + rc_doneTTL (cl_receipts s ! i))"
proof -
  have inv: "cl_inv (all_tokens before) s"
    using cl_inv_exec_tokens [OF cl_inv_start, of before] assms(1,2) by (simp add: fresh_ops_append)
  show ?thesis
    by (rule marked_exec [OF marked_commit [OF inv assms(3-5)]]) (use assms(1,6) in \<open>auto simp: fresh_ops_append\<close>)
qed

subsection \<open>A sample history\<close>

lemma sample_sys_facts:
  "length (cl_receipts sample_sys) = 1" "rc_key (cl_receipts sample_sys ! 0) = ''evt''"
  "rc_doneTTL (cl_receipts sample_sys ! 0) = 100" "rc_used (cl_receipts sample_sys ! 0) = False"
  "rc_token (cl_receipts sample_sys ! 0) = ''t1''"
  "cl_map sample_sys ''evt'' = Some \<lparr>ce_state = ClaimAcquired, ce_token = ''t1'', ce_expiresAt = 11\<rparr>"
  "cl_receipts sample_sys = [\<lparr>rc_key = ''evt'', rc_token = ''t1'', rc_doneTTL = 100, rc_used = False, rc_err = None\<rparr>]"
  by (simp_all add: sample_sys_def sample_claims_def cl_start_def NewInMemClaimer_def Claim_def fresh_claim_def)

subsection \<open>Properties\<close>

text \<open>
  C35. A processed message is not processed again: after a receipt commits its key at time \<open>t\<close>, every
  claim of that key before \<open>t\<close> plus the receipt's done TTL answers \<^verbatim>\<open>ClaimDone\<close>, whatever the other
  consumers do meanwhile, unless the committed receipt itself is used to extend.
\<close>

theorem commit_is_remembered:
  assumes "fresh_ops {} (before @ later)" and "s = cl_exec cl_start before"
    and "i < length (cl_receipts s)" and "Commit (cl_map s) t (cl_receipts s ! i) = (c, r, None)"
    and "\<not> rc_used (cl_receipts s ! i)"
    and "\<forall>(u, op) \<in> set later. u < t + rc_doneTTL (cl_receipts s ! i) \<and> (\<forall>ttl. op \<noteq> ClExtend i ttl)"
    and "u < t + rc_doneTTL (cl_receipts s ! i)"
  shows "\<exists>m. Claim (cl_map (cl_exec (cl_step s t (ClCommit i)) later)) u (rc_key (cl_receipts s ! i)) l d tok =
    (m, ClaimDone, NonAcquiredReceipt, None)"
proof -
  from marked_reached [OF assms(1-6)] assms(7) show ?thesis by (simp add: marked_def Claim_unexpired)
qed

theorem commit_is_remembered_witness:
  "\<exists>m. Claim (cl_map (cl_exec (cl_step sample_sys 5 (ClCommit 0)) [(50, ClClaim ''evt'' 9 9 (Inr ''t2'')), (60, ClRelease 0)]))
     104 ''evt'' 9 9 (Inr ''t3'') = (m, ClaimDone, NonAcquiredReceipt, None)"
proof -
  have "Commit (cl_map sample_sys) 5 (cl_receipts sample_sys ! 0) =
      ((cl_map sample_sys)(''evt'' \<mapsto> \<lparr>ce_state = ClaimDone, ce_token = ''t1'', ce_expiresAt = 105\<rparr>),
       (cl_receipts sample_sys ! 0)\<lparr>rc_used := True\<rparr>, None)"
    by (simp add: Commit_def owned_def sample_sys_facts)
  from commit_is_remembered [OF _ sample_sys_def _ this, of "[(50, ClClaim ''evt'' 9 9 (Inr ''t2'')), (60, ClRelease 0)]" 104 9 9 "Inr ''t3''"]
  show ?thesis by (simp add: sample_sys_facts sample_claims_def op_token_def)
qed

text \<open>
  A lease excludes other consumers: while the lease of a receipt is unexpired and the receipt has
  not been committed, released or extended, every claim of its key answers \<^verbatim>\<open>ClaimBusy\<close> and its commit
  still succeeds, whatever the other consumers do.
\<close>

lemma lease_excludes_others:
  assumes "fresh_ops {} (before @ later)" and "s = cl_exec cl_start before"
    and "i < length (cl_receipts s)" and "\<not> rc_used (cl_receipts s ! i)"
    and "owned (cl_map s) (cl_receipts s ! i) = Some e"
    and "\<forall>(u, op) \<in> set later. u < ce_expiresAt e \<and> op \<notin> {ClCommit i, ClRelease i} \<and> (\<forall>ttl. op \<noteq> ClExtend i ttl)"
    and "u < ce_expiresAt e" and "ce_state e \<noteq> ClaimDone"
  shows "\<exists>m. Claim (cl_map (cl_exec s later)) u (rc_key (cl_receipts s ! i)) l d tok = (m, ClaimBusy, NonAcquiredReceipt, None) \<and>
    owned (cl_map (cl_exec s later)) (cl_receipts s ! i) = Some e"
proof -
  have inv: "cl_inv (all_tokens before) s"
    using cl_inv_exec_tokens [OF cl_inv_start, of before] assms(1,2) by (simp add: fresh_ops_append)
  have e: "cl_map s (rc_key (cl_receipts s ! i)) = Some e" "ce_token e = rc_token (cl_receipts s ! i)"
    using assms(5) by (auto simp: owned_iff)
  have "cl_map (cl_exec s later) (rc_key (cl_receipts s ! i)) = Some e"
    by (rule entry_stable_exec [OF inv _ assms(3) e(2,1)]) (use assms(1,6) in \<open>auto simp: fresh_ops_append\<close>)
  then show ?thesis using assms(7,8) e(2) by (simp add: Claim_unexpired owned_iff)
qed

text \<open>
  C36. \<^verbatim>\<open>Extend\<close> does not look at the state of the entry, so a commit can be forgotten: when the receipt is
  extended after its commit, whatever the other consumers do before and after, the done mark ends with
  the extension. A claim of the key answers \<^verbatim>\<open>ClaimDone\<close> before that time and is acquired from that
  time on, also when the done TTL of the commit has not passed.
\<close>

theorem extend_forgets_commit:
  assumes "fresh_ops {} (before @ mid @ later)" and "s = cl_exec cl_start before"
    and "i < length (cl_receipts s)" and "Commit (cl_map s) t (cl_receipts s ! i) = (c, r, None)"
    and "\<not> rc_used (cl_receipts s ! i)"
    and "\<forall>(v, op) \<in> set mid. v < t + rc_doneTTL (cl_receipts s ! i) \<and> (\<forall>ttl. op \<noteq> ClExtend i ttl)"
    and "\<forall>(v, op) \<in> set later. v < u + ttl \<and> (\<forall>ttl. op \<noteq> ClExtend i ttl)"
  shows "\<exists>m rec. Claim (cl_map (cl_exec (cl_step s t (ClCommit i)) (mid @ [(u, ClExtend i ttl)] @ later))) w
      (rc_key (cl_receipts s ! i)) l d (Inr tok) =
    (m, if w < u + ttl then ClaimDone else ClaimAcquired, rec, None)"
proof -
  have fr: "fresh_ops {} (before @ mid)" "fresh_ops (all_tokens before \<union> all_tokens mid) later"
    using assms(1) by (auto simp: fresh_ops_append Un_assoc)
  note mid = marked_reached [OF fr(1) assms(2-6)]
  from marked_claim [OF marked_exec [OF marked_extend [OF mid, of u ttl] fr(2) assms(7)]]
  show ?thesis by (simp add: cl_exec_append del: cl_step.simps)
qed

theorem extend_forgets_commit_witness:
  "\<exists>m rec. Claim (cl_map (cl_exec (cl_step sample_sys 5 (ClCommit 0)) [(6, ClClaim ''evt'' 9 9 (Inr ''t2'')), (7, ClExtend 0 1)]))
     8 ''evt'' 9 9 (Inr ''t3'') = (m, ClaimAcquired, rec, None)"
proof -
  have commit: "Commit (cl_map sample_sys) 5 (cl_receipts sample_sys ! 0) =
      ((cl_map sample_sys)(''evt'' \<mapsto> \<lparr>ce_state = ClaimDone, ce_token = ''t1'', ce_expiresAt = 105\<rparr>),
       (cl_receipts sample_sys ! 0)\<lparr>rc_used := True\<rparr>, None)"
    by (simp add: Commit_def owned_def sample_sys_facts)
  have "\<exists>m rec. Claim (cl_map (cl_exec (cl_step sample_sys 5 (ClCommit 0)) ([(6, ClClaim ''evt'' 9 9 (Inr ''t2''))] @ [(7, ClExtend 0 1)] @ [])))
      8 (rc_key (cl_receipts sample_sys ! 0)) 9 9 (Inr ''t3'') = (m, if (8 :: int) < 7 + 1 then ClaimDone else ClaimAcquired, rec, None)"
    by (rule extend_forgets_commit [OF _ sample_sys_def _ commit])
      (simp_all add: sample_sys_facts sample_claims_def op_token_def)
  then show ?thesis by (simp add: sample_sys_facts del: cl_step.simps)
qed

end
