(* ===== verification/Outbox_Core.thy ===== *)
theory Outbox_Core
  imports Safe_Id Fsm Metadata_Limits
begin

text \<open>
  The outbox vocabulary of \<^verbatim>\<open>framework/kernel/outbox\<close>: the states of a row (\<^verbatim>\<open>state.go\<close>), the entry with
  its construction and validation (\<^verbatim>\<open>outbox.go\<close>, \<^verbatim>\<open>observability.go\<close>, \<^verbatim>\<open>principal.go\<close>,
  \<^verbatim>\<open>reconstruct.go\<close>), the permanent-error marker, and the claim key of a command entry
  (\<^verbatim>\<open>framework/runtime/http/idempotency\<close>, \<^verbatim>\<open>framework/runtime/command\<close>).

  A request context is the record of the values that \<^verbatim>\<open>ctxkeys\<close> stores in it. The entry identifier
  drawn from the entropy source is an argument.
\<close>

section \<open>Definitions\<close>

subsection \<open>States of a row\<close>

datatype outbox_state = StatePending | StateClaiming | StatePublished | StateDead | OutboxStateOther nat

fun outbox_Valid :: "outbox_state \<Rightarrow> bool" where
  "outbox_Valid (OutboxStateOther n) = False"
| "outbox_Valid s = True"

fun outbox_String :: "outbox_state \<Rightarrow> string" where
  "outbox_String StatePending = ''pending''"
| "outbox_String StateClaiming = ''claiming''"
| "outbox_String StatePublished = ''published''"
| "outbox_String StateDead = ''dead''"
| "outbox_String (OutboxStateOther n) = (if n = 0 then ''invalid'' else ''state('' @ show_nat n @ '')'')"

definition outbox_IsTerminal :: "outbox_state \<Rightarrow> bool" where
  "outbox_IsTerminal s = (s = StatePublished \<or> s = StateDead)"

definition ParseState :: "string \<Rightarrow> outbox_state res" where
  "ParseState s =
     (if s = ''pending'' then Inr StatePending
      else if s = ''claiming'' then Inr StateClaiming
      else if s = ''published'' then Inr StatePublished
      else if s = ''dead'' then Inr StateDead
      else Inl (invalid ''invalid outbox entry state''))"

fun stateTransitions :: "outbox_state \<Rightarrow> outbox_state list" where
  "stateTransitions StatePending = [StateClaiming]"
| "stateTransitions StateClaiming = [StatePublished, StateDead, StatePending]"
| "stateTransitions StatePublished = []"
| "stateTransitions StateDead = []"
| "stateTransitions (OutboxStateOther n) = []"

definition outbox_CanTransitionTo :: "outbox_state \<Rightarrow> outbox_state \<Rightarrow> bool" where
  "outbox_CanTransitionTo s target = CanTransition stateTransitions s target"

definition outbox_ValidTransitions :: "outbox_state \<Rightarrow> outbox_state list option" where
  "outbox_ValidTransitions s = AllowedTargets stateTransitions s"

definition outbox_Transition :: "outbox_state \<Rightarrow> outbox_state \<Rightarrow> goerr option" where
  "outbox_Transition from to =
     (if outbox_CanTransitionTo from to then None
      else Some (invalid ''outbox: invalid entry state transition''))"

subsection \<open>Observability and principal metadata\<close>

record observability_metadata =
  ob_TraceID :: safeid
  ob_TraceParent :: string
  ob_RequestID :: safeid
  ob_CorrelationID :: safeid

record principal_metadata =
  pr_ActorID :: safeid
  pr_SubjectID :: safeid
  pr_TenantID :: safeid
  pr_SessionID :: safeid

definition isHex :: "string \<Rightarrow> bool" where
  "isHex value = list_all (\<lambda>c. char_between (CHR ''0'') (CHR ''9'') c \<or> char_between (CHR ''a'') (CHR ''f'') c) value"

definition allZero :: "string \<Rightarrow> bool" where
  "allZero value = list_all (\<lambda>c. c = CHR ''0'') value"

definition validW3CTraceID :: "string \<Rightarrow> bool" where
  "validW3CTraceID value \<longleftrightarrow> length value = 32 \<and> isHex value \<and> \<not> allZero value"

definition validW3CSpanID :: "string \<Rightarrow> bool" where
  "validW3CSpanID value \<longleftrightarrow> length value = 16 \<and> isHex value \<and> \<not> allZero value"

definition slice :: "nat \<Rightarrow> nat \<Rightarrow> string \<Rightarrow> string" where
  "slice i j s = take (j - i) (drop i s)"

definition validTraceParent :: "string \<Rightarrow> bool" where
  "validTraceParent value =
     (if length value \<noteq> 55 then False
      else if value ! 2 \<noteq> CHR ''-'' \<or> value ! 35 \<noteq> CHR ''-'' \<or> value ! 52 \<noteq> CHR ''-'' then False
      else let version = slice 0 2 value; flags = slice 53 55 value in
        if version = ''ff'' \<or> \<not> isHex version \<or> \<not> isHex flags then False
        else validW3CTraceID (slice 3 35 value) \<and> validW3CSpanID (slice 36 52 value))"

definition traceIDFromTraceParent :: "string \<Rightarrow> string" where
  "traceIDFromTraceParent value = (if \<not> validTraceParent value then [] else slice 3 35 value)"

definition validateObservabilitySafeID :: "safeid \<Rightarrow> unit res" where
  "validateObservabilitySafeID i =
     (case SafeID_Validate i of
        Inl err \<Rightarrow> Inl (ErrcodeWrap KindInvalid ErrValidationFailed ''outbox: observability field invalid'' err)
      | Inr _ \<Rightarrow> Inr ())"

definition observability_Validate :: "observability_metadata \<Rightarrow> unit res" where
  "observability_Validate ob =
     and_then (validateObservabilitySafeID (ob_TraceID ob)) (\<lambda>_.
     if ob_TraceParent ob \<noteq> [] \<and> \<not> validTraceParent (ob_TraceParent ob)
     then Inl (invalid ''outbox: observability.traceParent is not a valid W3C traceparent'')
     else and_then (validateObservabilitySafeID (ob_RequestID ob)) (\<lambda>_.
          validateObservabilitySafeID (ob_CorrelationID ob)))"

definition validatePrincipalSafeID :: "safeid \<Rightarrow> unit res" where
  "validatePrincipalSafeID i =
     (case SafeID_Validate i of
        Inl err \<Rightarrow> Inl (ErrcodeWrap KindInvalid ErrValidationFailed ''outbox: principal field invalid'' err)
      | Inr _ \<Rightarrow> Inr ())"

definition principal_Validate :: "principal_metadata \<Rightarrow> unit res" where
  "principal_Validate p =
     and_then (validatePrincipalSafeID (pr_ActorID p)) (\<lambda>_.
     and_then (validatePrincipalSafeID (pr_SubjectID p)) (\<lambda>_.
     and_then (validatePrincipalSafeID (pr_TenantID p)) (\<lambda>_.
     validatePrincipalSafeID (pr_SessionID p))))"

definition observability_IsZero :: "observability_metadata \<Rightarrow> bool" where
  "observability_IsZero ob \<longleftrightarrow> ob_TraceID ob = [] \<and> ob_TraceParent ob = [] \<and> ob_RequestID ob = [] \<and> ob_CorrelationID ob = []"

definition principal_IsZero :: "principal_metadata \<Rightarrow> bool" where
  "principal_IsZero p \<longleftrightarrow> pr_ActorID p = [] \<and> pr_SubjectID p = [] \<and> pr_TenantID p = [] \<and> pr_SessionID p = []"

text \<open>The values of a context; a key that was never set is \<open>None\<close>.\<close>

record ctx_values =
  cx_RequestID :: "string option"
  cx_CorrelationID :: "string option"
  cx_TraceID :: "string option"
  cx_SpanID :: "string option"
  cx_TraceParent :: "string option"
  cx_ActorID :: "string option"
  cx_SubjectID :: "string option"
  cx_TenantID :: "string option"
  cx_SessionID :: "string option"
  cx_tenantScope :: "string option"

text \<open>\<^verbatim>\<open>strings.ToLower\<close> on ASCII text.\<close>

definition ToLower :: "string \<Rightarrow> string" where
  "ToLower s = map (\<lambda>c. if char_between (CHR ''A'') (CHR ''Z'') c then char_of (of_char c + 32 :: nat) else c) s"

fun or_empty :: "string option \<Rightarrow> string" where
  "or_empty None = []"
| "or_empty (Some s) = s"

definition traceParentFromContextIDs :: "ctx_values \<Rightarrow> string" where
  "traceParentFromContextIDs ctx =
     (case (cx_TraceID ctx, cx_SpanID ctx) of
        (Some traceID, Some spanID) \<Rightarrow>
          if \<not> validW3CTraceID traceID \<or> \<not> validW3CSpanID spanID then []
          else ''00-'' @ ToLower traceID @ ''-'' @ ToLower spanID @ ''-01''
      | _ \<Rightarrow> [])"

definition ContextObservability :: "ctx_values \<Rightarrow> observability_metadata" where
  "ContextObservability ctx =
     \<lparr>ob_TraceID = or_empty (cx_TraceID ctx),
      ob_TraceParent =
        (case cx_TraceParent ctx of
           Some tp \<Rightarrow> if validTraceParent tp then tp else traceParentFromContextIDs ctx
         | None \<Rightarrow> traceParentFromContextIDs ctx),
      ob_RequestID = or_empty (cx_RequestID ctx),
      ob_CorrelationID = or_empty (cx_CorrelationID ctx)\<rparr>"

definition ContextPrincipal :: "ctx_values \<Rightarrow> principal_metadata" where
  "ContextPrincipal ctx =
     \<lparr>pr_ActorID = or_empty (cx_ActorID ctx), pr_SubjectID = or_empty (cx_SubjectID ctx),
      pr_TenantID = (case cx_TenantID ctx of Some t \<Rightarrow> t | None \<Rightarrow> or_empty (cx_tenantScope ctx)),
      pr_SessionID = or_empty (cx_SessionID ctx)\<rparr>"

subsection \<open>Entries\<close>

datatype failure_policy = FailurePolicyDefault | FailurePolicyFailOpen | FailurePolicyFailClosed | FailurePolicyOther int

datatype failure_mode = DirectPublishFailClosed | DirectPublishFailOpen | DirectPublishOther int

fun FailurePolicy_Resolve :: "failure_policy \<Rightarrow> failure_mode \<Rightarrow> failure_mode" where
  "FailurePolicy_Resolve FailurePolicyFailOpen ctorDefault = DirectPublishFailOpen"
| "FailurePolicy_Resolve FailurePolicyFailClosed ctorDefault = DirectPublishFailClosed"
| "FailurePolicy_Resolve p ctorDefault = ctorDefault"

record outbox_entry =
  oe_id :: string
  oe_aggregateID :: string
  oe_aggregateType :: string
  oe_eventType :: string
  oe_topic :: string
  oe_payload :: bytes
  oe_createdAt :: instant
  oe_occurredAt :: instant
  oe_metadata :: metadata
  oe_observability :: observability_metadata
  oe_principal :: principal_metadata
  oe_failurePolicy :: failure_policy

definition outbox_MaxPayloadBytes :: int where
  "outbox_MaxPayloadBytes = 1048576"

definition ReservedMetadataKeys :: "string list" where
  "ReservedMetadataKeys =
     [''trace_id'', ''traceparent'', ''trace_state'', ''tracestate'', ''span_id'', ''request_id'', ''correlation_id'',
      ''actor_id'', ''subject_id'', ''tenant_id'', ''session_id'']"

definition outbox_validateMetadata :: "metadata \<Rightarrow> unit res" where
  "outbox_validateMetadata m =
     (if list_ex (\<lambda>p. fst p \<in> set ReservedMetadataKeys) m
      then Inl (invalid (''outbox: metadata key is reserved for the observability/principal bridges '' @
             [CHR 0xE2, CHR 0x80, CHR 0x94] @ '' use Entry.Observability or Entry.Principal instead''))
      else ValidateLimits m DomainOutbox)"

definition RoutingTopic :: "outbox_entry \<Rightarrow> string" where
  "RoutingTopic e = (if oe_topic e \<noteq> [] then oe_topic e else oe_eventType e)"

definition validateEntryIDField :: "string \<Rightarrow> unit res" where
  "validateEntryIDField v =
     (case SafeID_Validate v of
        Inl err \<Rightarrow> Inl (ErrcodeWrap KindInvalid ErrValidationFailed ''outbox: entry field invalid'' err)
      | Inr _ \<Rightarrow> Inr ())"

definition Entry_Validate :: "outbox_entry \<Rightarrow> unit res" where
  "Entry_Validate e =
     (if oe_id e = [] then Inl (invalid ''outbox: entry missing ID'')
      else if RoutingTopic e = [] then Inl (invalid ''outbox: entry missing topic (topic and eventType are both empty)'')
      else if length (oe_payload e) = 0 then Inl (invalid ''outbox: entry missing payload'')
      else if int (length (oe_payload e)) > outbox_MaxPayloadBytes then Inl (invalid ''outbox: payload size exceeds max'')
      else if oe_occurredAt e = 0 then Inl (invalid ''outbox: entry missing occurredAt'')
      else and_then (validateEntryIDField (oe_id e)) (\<lambda>_.
           and_then (validateEntryIDField (oe_eventType e)) (\<lambda>_.
           and_then (validateEntryIDField (oe_topic e)) (\<lambda>_.
           and_then (validateEntryIDField (oe_aggregateID e)) (\<lambda>_.
           and_then (validateEntryIDField (oe_aggregateType e)) (\<lambda>_.
           and_then (outbox_validateMetadata (oe_metadata e)) (\<lambda>_.
           and_then (observability_Validate (oe_observability e)) (\<lambda>_.
           principal_Validate (oe_principal e)))))))))"

definition ToEntry :: "outbox_entry \<Rightarrow> outbox_entry res" where
  "ToEntry scan = and_then (Entry_Validate scan) (\<lambda>_. Inr scan)"

datatype entry_option =
    WithID string
  | WithAggregateID string
  | WithAggregateType string
  | WithTopic string
  | WithMetadata metadata
  | WithFailurePolicy failure_policy
  | WithOccurredAt instant
  | WithCreatedAt instant

fun apply_option :: "entry_option \<Rightarrow> outbox_entry \<Rightarrow> outbox_entry" where
  "apply_option (WithID i) e = e\<lparr>oe_id := i\<rparr>"
| "apply_option (WithAggregateID i) e = e\<lparr>oe_aggregateID := i\<rparr>"
| "apply_option (WithAggregateType t) e = e\<lparr>oe_aggregateType := t\<rparr>"
| "apply_option (WithTopic t) e = e\<lparr>oe_topic := t\<rparr>"
| "apply_option (WithMetadata m) e = e\<lparr>oe_metadata := m\<rparr>"
| "apply_option (WithFailurePolicy p) e = e\<lparr>oe_failurePolicy := p\<rparr>"
| "apply_option (WithOccurredAt t) e = e\<lparr>oe_occurredAt := t\<rparr>"
| "apply_option (WithCreatedAt t) e = e\<lparr>oe_createdAt := t\<rparr>"

definition outbox_NewEntry ::
  "instant \<Rightarrow> string res \<Rightarrow> ctx_values \<Rightarrow> string \<Rightarrow> bytes \<Rightarrow> entry_option list \<Rightarrow> outbox_entry res" where
  "outbox_NewEntry now newID ctx eventType payload opts =
     (case newID of
        Inl err \<Rightarrow> Inl (Wrap (''outbox.NewEntry('' @ eventType @ ''): new entry id'') err)
      | Inr i \<Rightarrow>
          let e = \<lparr>oe_id = i, oe_aggregateID = [], oe_aggregateType = [], oe_eventType = eventType, oe_topic = [],
                   oe_payload = payload, oe_createdAt = now, oe_occurredAt = now, oe_metadata = [],
                   oe_observability = \<lparr>ob_TraceID = [], ob_TraceParent = [], ob_RequestID = [], ob_CorrelationID = []\<rparr>,
                   oe_principal = \<lparr>pr_ActorID = [], pr_SubjectID = [], pr_TenantID = [], pr_SessionID = []\<rparr>,
                   oe_failurePolicy = FailurePolicyDefault\<rparr>;
              e = foldl (\<lambda>e opt. apply_option opt e) e opts;
              e = e\<lparr>oe_observability := ContextObservability ctx, oe_principal := ContextPrincipal ctx\<rparr>
          in and_then (Entry_Validate e) (\<lambda>_. Inr e))"

subsection \<open>Permanent errors\<close>

definition NewPermanentError :: "goerr \<Rightarrow> goerr" where
  "NewPermanentError err = Permanent err"

text \<open>\<^verbatim>\<open>errors.As(err, &pe)\<close> for a permanent error anywhere in the chain.\<close>

fun IsPermanent :: "goerr \<Rightarrow> bool" where
  "IsPermanent (Permanent e) = True"
| "IsPermanent (Wrap m e) = IsPermanent e"
| "IsPermanent (ErrcodeWrap k c m e) = IsPermanent e"
| "IsPermanent _ = False"

subsection \<open>Claim keys of commands\<close>

record idempotency_key =
  ik_ns :: string
  ik_key :: string

definition NUL :: char where "NUL = char_of (0 :: nat)"

definition noTenantSentinel :: string where
  "noTenantSentinel = ''_notenant''"

definition DeriveCommandKey :: "string \<Rightarrow> string \<Rightarrow> string \<Rightarrow> idempotency_key" where
  "DeriveCommandKey tenantID subject commandID =
     \<lparr>ik_ns = (if tenantID = [] then noTenantSentinel else tenantID), ik_key = subject @ [NUL] @ commandID\<rparr>"

definition Flat :: "idempotency_key \<Rightarrow> string" where
  "Flat k = ik_ns k @ [NUL] @ ik_key k"

definition CommandIDMetadataKey :: string where
  "CommandIDMetadataKey = ''gocell.command.idempotency_id''"

definition CommandDeadlineMetadataKey :: string where
  "CommandDeadlineMetadataKey = ''gocell.command.overall_deadline''"

text \<open>Reading a key that a Go map does not have yields the empty string.\<close>

definition metadata_get :: "metadata \<Rightarrow> string \<Rightarrow> string" where
  "metadata_get m k = or_empty (map_of m k)"

definition ClaimKeyFromEntry :: "outbox_entry \<Rightarrow> string option" where
  "ClaimKeyFromEntry e =
     (let tenant = pr_TenantID (oe_principal e);
          subject = oe_aggregateID e;
          commandID = metadata_get (oe_metadata e) CommandIDMetadataKey
      in if subject = [] \<or> commandID = [] then None
         else Some (Flat (DeriveCommandKey tenant subject commandID)))"

subsection \<open>Vocabulary of the properties\<close>

text \<open>A command entry for the witnesses.\<close>

definition sample_command :: outbox_entry where
  "sample_command = \<lparr>oe_id = ''evt-1'', oe_aggregateID = ''dev-1'', oe_aggregateType = [], oe_eventType = ''device.enqueue'',
     oe_topic = [], oe_payload = ''{}'', oe_createdAt = 1, oe_occurredAt = 1,
     oe_metadata = [(CommandIDMetadataKey, ''c1'')],
     oe_observability = \<lparr>ob_TraceID = [], ob_TraceParent = [], ob_RequestID = [], ob_CorrelationID = []\<rparr>,
     oe_principal = \<lparr>pr_ActorID = [], pr_SubjectID = [], pr_TenantID = ''t1'', pr_SessionID = []\<rparr>,
     oe_failurePolicy = FailurePolicyDefault\<rparr>"

section \<open>Lemmas\<close>

lemma outbox_Transition_None: "outbox_Transition from to = None \<longleftrightarrow> to \<in> set (stateTransitions from)"
  by (simp add: outbox_Transition_def outbox_CanTransitionTo_def)

interpretation outbox_fsm: fsm_table stateTransitions outbox_IsTerminal
  by unfold_locales (auto simp: outbox_IsTerminal_def)

lemma outbox_state_roundtrip: "ParseState (outbox_String s) = Inr s \<longleftrightarrow> outbox_Valid s"
proof (cases s)
  case (OutboxStateOther n)
  have "hd (''state('' @ show_nat n @ '')'') = CHR ''s''" by simp
  then have "''state('' @ show_nat n @ '')'' \<notin> {''pending'', ''claiming'', ''published'', ''dead''}" by force
  then show ?thesis by (auto simp: OutboxStateOther ParseState_def)
qed (simp_all add: ParseState_def)

lemma field_ok:
  "validateEntryIDField s = Inr u \<longleftrightarrow> s = [] \<or> safe_id s"
  "validatePrincipalSafeID s = Inr u \<longleftrightarrow> s = [] \<or> safe_id s"
  "validateObservabilitySafeID s = Inr u \<longleftrightarrow> s = [] \<or> safe_id s"
  using SafeID_Validate_ok [of s]
  by (auto simp: validateEntryIDField_def validatePrincipalSafeID_def validateObservabilitySafeID_def split: sum.splits)

lemma Entry_Validate_ok:
  assumes "Entry_Validate e = Inr u"
  shows "safe_id (oe_id e)" and "oe_aggregateID e = [] \<or> safe_id (oe_aggregateID e)"
    and "pr_TenantID (oe_principal e) = [] \<or> safe_id (pr_TenantID (oe_principal e))"
proof -
  have "oe_id e \<noteq> []" and "validateEntryIDField (oe_id e) = Inr ()" and "validateEntryIDField (oe_aggregateID e) = Inr ()"
    and "validatePrincipalSafeID (pr_TenantID (oe_principal e)) = Inr ()"
    using assms by (simp_all add: Entry_Validate_def principal_Validate_def and_then_Inr split: if_splits)
  then show "safe_id (oe_id e)" and "oe_aggregateID e = [] \<or> safe_id (oe_aggregateID e)"
    and "pr_TenantID (oe_principal e) = [] \<or> safe_id (pr_TenantID (oe_principal e))"
    by (simp_all add: field_ok)
qed

lemma safe_id_no_NUL: "safe_id s \<Longrightarrow> NUL \<notin> set s"
proof
  assume "safe_id s" "NUL \<in> set s"
  then have "safe_char NUL" by (simp add: safe_id_def)
  moreover have n: "NUL = CHR 0x00" by (simp add: NUL_def char_of_def)
  ultimately show False unfolding n by (simp add: safe_char_def char_between_def less_eq_char_def)
qed

text \<open>
  C37. Two valid command entries get the same claim key only if they have the same subject, the same
  command identity and the same tenant, where an entry without tenant counts as tenant
  \<^verbatim>\<open>_notenant\<close>: the commands of different tenants or subjects never deduplicate each other.
\<close>

theorem claim_key_isolates:
  assumes "Entry_Validate e = Inr ()" and "Entry_Validate e' = Inr ()"
    and "ClaimKeyFromEntry e = Some k" and "ClaimKeyFromEntry e' = Some k"
  shows "oe_aggregateID e = oe_aggregateID e' \<and>
    metadata_get (oe_metadata e) CommandIDMetadataKey = metadata_get (oe_metadata e') CommandIDMetadataKey \<and>
    (pr_TenantID (oe_principal e) = pr_TenantID (oe_principal e') \<or>
     {pr_TenantID (oe_principal e), pr_TenantID (oe_principal e')} = {[], noTenantSentinel})"
proof -
  let ?ns = "\<lambda>e. if pr_TenantID (oe_principal e) = [] then noTenantSentinel else pr_TenantID (oe_principal e)"
  have ns: "NUL \<notin> set (?ns e)" if "Entry_Validate e = Inr ()" for e
    using Entry_Validate_ok(3) [OF that] safe_id_no_NUL safe_id_no_NUL [of noTenantSentinel]
    by (auto simp: noTenantSentinel_def NUL_def char_of_def)
  have sub: "NUL \<notin> set (oe_aggregateID e)" if "Entry_Validate e = Inr ()" for e
    using Entry_Validate_ok(2) [OF that] safe_id_no_NUL by auto
  have k: "k = ?ns e @ NUL # oe_aggregateID e @ NUL # metadata_get (oe_metadata e) CommandIDMetadataKey"
    if "ClaimKeyFromEntry e = Some k" for e
    using that by (auto simp: ClaimKeyFromEntry_def Let_def Flat_def DeriveCommandKey_def split: if_splits)
  note split1 = split_at_sep [OF ns [OF assms(1)] ns [OF assms(2)] trans [OF k [OF assms(3), symmetric] k [OF assms(4)]]]
  from split_at_sep [OF sub [OF assms(1)] sub [OF assms(2)] conjunct2 [OF split1]] split1
  show ?thesis by (auto split: if_splits)
qed

theorem claim_key_isolates_witness:
  "oe_aggregateID sample_command = oe_aggregateID (sample_command\<lparr>oe_id := ''evt-2''\<rparr>)"
proof -
  have v: "Entry_Validate sample_command = Inr ()" "Entry_Validate (sample_command\<lparr>oe_id := ''evt-2''\<rparr>) = Inr ()"
    unfolding sample_command_def by code_simp+
  obtain k where k: "ClaimKeyFromEntry sample_command = Some k"
    by (simp add: ClaimKeyFromEntry_def sample_command_def metadata_get_def)
  then have k': "ClaimKeyFromEntry (sample_command\<lparr>oe_id := ''evt-2''\<rparr>) = Some k"
    by (simp add: ClaimKeyFromEntry_def)
  show ?thesis by (rule conjunct1 [OF claim_key_isolates [OF v k k']])
qed

end
