(* ===== verification/Outbox_Store.thy ===== *)
theory Outbox_Store
  imports Outbox_Core
begin

text \<open>
  The outbox store: the contract of the \<^verbatim>\<open>Store\<close> interface (\<^verbatim>\<open>framework/runtime/outbox/store.go\<close>) and its
  in-memory implementation \<^verbatim>\<open>FakeStore\<close> (\<^verbatim>\<open>framework/runtime/outbox/outboxtest/fake_store.go\<close>).

  Every method of the store holds its mutex, so it is one step; the clock reading and the lease
  identifier that \<^verbatim>\<open>uuid.NewString\<close> draws are arguments. The Go map of rows is an association list whose
  order is the iteration order of the moment: the order may change between any two calls
  (\<open>reordered\<close> in the schedules of \<open>Outbox_Relay\<close>), so no result depends on one order. A negative batch
  size, on which the slice expression of \<^verbatim>\<open>ClaimPending\<close> panics, is left out: the relay configuration
  excludes it. The notification channel that wakes waiting tests is left out.
\<close>

section \<open>Definitions\<close>

record claimed_entry =
  cl_Entry :: outbox_entry
  cl_Attempts :: int
  cl_LeaseID :: string

record fake_row =
  fr_entry :: outbox_entry
  fr_status :: outbox_state
  fr_attempts :: int
  fr_leaseID :: string
  fr_claimedAt :: "instant option"
  fr_publishedAt :: "instant option"
  fr_deadAt :: "instant option"
  fr_nextRetryAt :: "instant option"
  fr_lastError :: string

type_synonym fake_store = "(string \<times> fake_row) list"

definition NewFakeStore :: fake_store where
  "NewFakeStore = []"

definition pending_row :: "outbox_entry \<Rightarrow> int \<Rightarrow> fake_row" where
  "pending_row e attempts =
     \<lparr>fr_entry = e, fr_status = StatePending, fr_attempts = attempts, fr_leaseID = [], fr_claimedAt = None,
      fr_publishedAt = None, fr_deadAt = None, fr_nextRetryAt = None, fr_lastError = []\<rparr>"

definition store_Write :: "fake_store \<Rightarrow> outbox_entry \<Rightarrow> fake_store" where
  "store_Write s e = AList.update (oe_id e) (pending_row e 0) s"

definition store_Seed :: "fake_store \<Rightarrow> claimed_entry list \<Rightarrow> fake_store" where
  "store_Seed s entries =
     foldl (\<lambda>s ce. AList.update (oe_id (cl_Entry ce)) (pending_row (cl_Entry ce) (cl_Attempts ce)) s) s entries"

definition find_fake :: "fake_store \<Rightarrow> string \<Rightarrow> fake_row option" where
  "find_fake s i = map_of s i"

text \<open>A row that \<^verbatim>\<open>ClaimPending\<close> may take.\<close>

definition due :: "instant \<Rightarrow> fake_row \<Rightarrow> bool" where
  "due now r =
     (if fr_status r \<noteq> StatePending then False
      else case fr_nextRetryAt r of Some t \<Rightarrow> \<not> t > now | None \<Rightarrow> True)"

definition claim_less :: "fake_row \<Rightarrow> fake_row \<Rightarrow> bool" where
  "claim_less ri rj =
     (case (fr_nextRetryAt ri, fr_nextRetryAt rj) of
        (None, None) \<Rightarrow> oe_createdAt (fr_entry ri) < oe_createdAt (fr_entry rj)
      | (None, Some _) \<Rightarrow> True
      | (Some _, None) \<Rightarrow> False
      | (Some ti, Some tj) \<Rightarrow>
          if ti = tj then oe_createdAt (fr_entry ri) < oe_createdAt (fr_entry rj) else ti < tj)"

text \<open>The key whose order is \<open>claim_less\<close> (lemma \<open>claim_less_iff\<close>): rows without a retry time come first.\<close>

definition claim_key :: "string \<times> fake_row \<Rightarrow> (nat \<times> int) \<times> int" where
  "claim_key p =
     ((case fr_nextRetryAt (snd p) of None \<Rightarrow> (0, 0) | Some t \<Rightarrow> (1, t)), oe_createdAt (fr_entry (snd p)))"

definition claim_row :: "instant \<Rightarrow> string \<Rightarrow> fake_row \<Rightarrow> fake_row" where
  "claim_row now leaseID r = r\<lparr>fr_status := StateClaiming, fr_leaseID := leaseID, fr_claimedAt := Some now\<rparr>"

definition claim_candidates :: "fake_store \<Rightarrow> instant \<Rightarrow> int \<Rightarrow> (string \<times> fake_row) list" where
  "claim_candidates s now batchSize =
     (let candidates = sort_key claim_key (filter (\<lambda>p. due now (snd p)) s)
      in if int (length candidates) > batchSize then take (nat batchSize) candidates else candidates)"

definition store_ClaimPending ::
  "fake_store \<Rightarrow> instant \<Rightarrow> int \<Rightarrow> string \<Rightarrow> fake_store \<times> claimed_entry list" where
  "store_ClaimPending s now batchSize leaseID =
     (let candidates = claim_candidates s now batchSize
      in (foldl (\<lambda>s p. AList.update (fst p) (claim_row now leaseID (snd p)) s) s candidates,
          map (\<lambda>p. \<lparr>cl_Entry = fr_entry (snd p), cl_Attempts = fr_attempts (snd p), cl_LeaseID = leaseID\<rparr>) candidates))"

text \<open>The compare-and-set guard that the three settlement calls share.\<close>

definition holds_lease :: "fake_store \<Rightarrow> string \<Rightarrow> string \<Rightarrow> fake_row option" where
  "holds_lease s i leaseID =
     (case find_fake s i of
        None \<Rightarrow> None
      | Some r \<Rightarrow> if fr_status r \<noteq> StateClaiming \<or> fr_leaseID r \<noteq> leaseID then None else Some r)"

definition store_MarkPublished :: "fake_store \<Rightarrow> instant \<Rightarrow> string \<Rightarrow> string \<Rightarrow> fake_store \<times> bool" where
  "store_MarkPublished s now i leaseID =
     (case holds_lease s i leaseID of
        None \<Rightarrow> (s, False)
      | Some r \<Rightarrow>
          (AList.update i (r\<lparr>fr_status := StatePublished, fr_publishedAt := Some now, fr_claimedAt := None\<rparr>) s, True))"

definition store_MarkRetry ::
  "fake_store \<Rightarrow> string \<Rightarrow> string \<Rightarrow> int \<Rightarrow> instant \<Rightarrow> string \<Rightarrow> fake_store \<times> bool" where
  "store_MarkRetry s i leaseID attempts nextRetryAt lastError =
     (case holds_lease s i leaseID of
        None \<Rightarrow> (s, False)
      | Some r \<Rightarrow>
          (AList.update i (r\<lparr>fr_status := StatePending, fr_attempts := attempts, fr_nextRetryAt := Some nextRetryAt,
             fr_lastError := lastError, fr_claimedAt := None, fr_leaseID := []\<rparr>) s, True))"

definition store_MarkDead ::
  "fake_store \<Rightarrow> instant \<Rightarrow> string \<Rightarrow> string \<Rightarrow> int \<Rightarrow> string \<Rightarrow> fake_store \<times> bool" where
  "store_MarkDead s now i leaseID attempts lastError =
     (case holds_lease s i leaseID of
        None \<Rightarrow> (s, False)
      | Some r \<Rightarrow>
          (AList.update i (r\<lparr>fr_status := StateDead, fr_attempts := attempts, fr_lastError := lastError,
             fr_deadAt := Some now, fr_claimedAt := None\<rparr>) s, True))"

definition eligibleIDsByTimeAsc ::
  "fake_store \<Rightarrow> outbox_state \<Rightarrow> instant \<Rightarrow> (fake_row \<Rightarrow> instant option) \<Rightarrow> string list" where
  "eligibleIDsByTimeAsc s status cutoff tsOf =
     map snd (sort (List.map_filter (\<lambda>(i, r).
       if fr_status r \<noteq> status then None
       else case tsOf r of
              None \<Rightarrow> None
            | Some ts \<Rightarrow> if \<not> ts < cutoff then None else Some (ts, i)) s))"

definition store_cappedDelay :: "duration \<Rightarrow> duration \<Rightarrow> duration" where
  "store_cappedDelay d maxDelay = (if d \<le> 0 then 0 else if d > maxDelay then maxDelay else d)"

definition reclaim_row ::
  "instant \<Rightarrow> int \<Rightarrow> duration \<Rightarrow> duration \<Rightarrow> fake_row \<Rightarrow> fake_row" where
  "reclaim_row now maxAttempts baseDelay maxDelay r =
     (let newAttempts = i64 (fr_attempts r + 1) in
      if newAttempts \<ge> maxAttempts
      then r\<lparr>fr_status := StateDead, fr_attempts := newAttempts, fr_deadAt := Some now, fr_claimedAt := None\<rparr>
      else let shift = min newAttempts 30;
               delay = store_cappedDelay (i64 (baseDelay * 2 ^ nat shift)) maxDelay
           in r\<lparr>fr_status := StatePending, fr_attempts := newAttempts, fr_nextRetryAt := Some (now + delay),
                fr_claimedAt := None, fr_leaseID := []\<rparr>)"

fun reclaim_loop ::
  "(fake_row \<Rightarrow> fake_row) \<Rightarrow> int \<Rightarrow> string list \<Rightarrow> fake_store \<Rightarrow> int \<Rightarrow> fake_store \<times> int" where
  "reclaim_loop f batchSize [] s cnt = (s, cnt)"
| "reclaim_loop f batchSize (i # ids) s cnt =
     (if cnt \<ge> batchSize then (s, cnt)
      else case find_fake s i of
             Some r \<Rightarrow> reclaim_loop f batchSize ids (AList.update i (f r) s) (cnt + 1)
           | None \<Rightarrow> reclaim_loop f batchSize ids s (cnt + 1))"

definition store_ReclaimStale ::
  "fake_store \<Rightarrow> instant \<Rightarrow> duration \<Rightarrow> int \<Rightarrow> duration \<Rightarrow> duration \<Rightarrow> int \<Rightarrow> fake_store \<times> int" where
  "store_ReclaimStale s now claimTTL maxAttempts baseDelay maxDelay batchSize =
     (let cutoff = now - claimTTL;
          ids = eligibleIDsByTimeAsc s StateClaiming cutoff fr_claimedAt
      in reclaim_loop (reclaim_row now maxAttempts baseDelay maxDelay) batchSize ids s 0)"

fun delete_loop :: "int \<Rightarrow> string list \<Rightarrow> fake_store \<Rightarrow> int \<Rightarrow> fake_store \<times> int" where
  "delete_loop batchSize [] s deleted = (s, deleted)"
| "delete_loop batchSize (i # ids) s deleted =
     (if deleted \<ge> batchSize then (s, deleted) else delete_loop batchSize ids (AList.delete i s) (deleted + 1))"

definition store_CleanupPublished :: "fake_store \<Rightarrow> instant \<Rightarrow> int \<Rightarrow> fake_store \<times> int" where
  "store_CleanupPublished s cutoff batchSize =
     delete_loop batchSize (eligibleIDsByTimeAsc s StatePublished cutoff fr_publishedAt) s 0"

definition store_CleanupDead :: "fake_store \<Rightarrow> instant \<Rightarrow> int \<Rightarrow> fake_store \<times> int" where
  "store_CleanupDead s cutoff batchSize =
     delete_loop batchSize (eligibleIDsByTimeAsc s StateDead cutoff fr_deadAt) s 0"

definition store_CountPending :: "fake_store \<Rightarrow> instant \<Rightarrow> int" where
  "store_CountPending s now = int (length (filter (\<lambda>p. due now (snd p)) s))"

fun oldest_loop :: "outbox_state \<Rightarrow> (fake_row \<Rightarrow> instant option) \<Rightarrow> fake_store \<Rightarrow> instant option \<Rightarrow> instant option" where
  "oldest_loop want tsOf [] oldest = oldest"
| "oldest_loop want tsOf ((i, r) # s) oldest =
     (if fr_status r \<noteq> want then oldest_loop want tsOf s oldest
      else case tsOf r of
             None \<Rightarrow> oldest_loop want tsOf s oldest
           | Some ts \<Rightarrow>
               (case oldest of
                  None \<Rightarrow> oldest_loop want tsOf s (Some ts)
                | Some t \<Rightarrow> oldest_loop want tsOf s (if ts < t then Some ts else Some t)))"

definition store_OldestEligibleAt :: "fake_store \<Rightarrow> outbox_state \<Rightarrow> instant option res" where
  "store_OldestEligibleAt s status =
     (if status = StatePublished then Inr (oldest_loop StatePublished fr_publishedAt s None)
      else if status = StateDead then Inr (oldest_loop StateDead fr_deadAt s None)
      else Inl (ErrorsNew (''OldestEligibleAt: invalid status '' @ outbox_String status @
                  '' (want StatePublished or StateDead)'')))"

subsection \<open>Vocabulary of the properties\<close>

definition store_wf :: "fake_store \<Rightarrow> bool" where
  "store_wf s \<longleftrightarrow> distinct (map fst s) \<and> (\<forall>i r. find_fake s i = Some r \<longrightarrow> oe_id (fr_entry r) = i)"

text \<open>What one step of the store may do to one row.\<close>

definition row_move :: "fake_row option \<Rightarrow> fake_row option \<Rightarrow> bool" where
  "row_move a b =
     (case (a, b) of
        (None, None) \<Rightarrow> True
      | (None, Some _) \<Rightarrow> False
      | (Some r, None) \<Rightarrow> outbox_IsTerminal (fr_status r)
      | (Some r, Some r') \<Rightarrow>
          r' = r \<or> fr_entry r' = fr_entry r \<and> outbox_CanTransitionTo (fr_status r) (fr_status r'))"

section \<open>Lemmas\<close>

lemma claim_less_iff: "claim_less (snd p) (snd q) \<longleftrightarrow> claim_key p < claim_key q"
  by (auto simp: claim_less_def claim_key_def less_prod_def split: option.splits)

lemma find_update [simp]: "find_fake (AList.update i r s) j = (if j = i then Some r else find_fake s j)"
  by (simp add: find_fake_def update_conv')

lemma find_delete [simp]: "find_fake (AList.delete i s) j = (if j = i then None else find_fake s j)"
  by (simp add: find_fake_def delete_conv')

lemma store_wf_find: "store_wf s \<Longrightarrow> find_fake s i = Some r \<longleftrightarrow> (i, r) \<in> set s"
  by (simp add: store_wf_def find_fake_def)

lemma store_wf_id: "store_wf s \<Longrightarrow> find_fake s i = Some r \<Longrightarrow> oe_id (fr_entry r) = i"
  by (simp add: store_wf_def)

lemma store_wf_new: "store_wf NewFakeStore"
  by (simp add: store_wf_def NewFakeStore_def find_fake_def)

lemma store_wf_update: "store_wf s \<Longrightarrow> oe_id (fr_entry r) = i \<Longrightarrow> store_wf (AList.update i r s)"
  by (auto simp: store_wf_def distinct_update)

lemma store_wf_delete: "store_wf s \<Longrightarrow> store_wf (AList.delete i s)"
  by (auto simp: store_wf_def distinct_delete split: if_splits)

lemma store_wf_reorder: "store_wf s \<Longrightarrow> mset s' = mset s \<Longrightarrow> store_wf s' \<and> find_fake s' = find_fake s"
proof -
  assume s: "store_wf s" and p: "mset s' = mset s"
  from p have "mset (map fst s') = mset (map fst s)" by simp
  moreover from p have e: "set s' = set s" by (metis set_mset_mset)
  ultimately have d: "distinct (map fst s')" using s mset_eq_imp_distinct_iff store_wf_def by blast
  have "find_fake s' = find_fake s"
    unfolding find_fake_def by (rule map_of_eqI) (use e d s in \<open>auto simp: store_wf_def\<close>)
  then show ?thesis using s d by (simp add: store_wf_def)
qed

lemma row_move_refl [simp]: "row_move a a"
  by (cases a) (simp_all add: row_move_def)

lemma row_move_None: "row_move None b \<longleftrightarrow> b = None"
  by (cases b) (simp_all add: row_move_def)

subsection \<open>Claiming\<close>

lemma candidates_mem: "store_wf s \<Longrightarrow> (i, r) \<in> set (claim_candidates s now n) \<Longrightarrow> find_fake s i = Some r \<and> due now r"
  by (auto simp: claim_candidates_def Let_def store_wf_find split: if_splits dest: in_set_takeD)

lemma candidates_distinct: "store_wf s \<Longrightarrow> distinct (map fst (claim_candidates s now n))"
proof -
  assume s: "store_wf s"
  have "distinct (map fst (filter (\<lambda>p. due now (snd p)) s))"
    using s by (simp add: store_wf_def distinct_map_filter)
  moreover have "mset (map fst (sort_key claim_key (filter (\<lambda>p. due now (snd p)) s))) = mset (map fst (filter (\<lambda>p. due now (snd p)) s))"
    by simp
  ultimately have "distinct (map fst (sort_key claim_key (filter (\<lambda>p. due now (snd p)) s)))"
    using mset_eq_imp_distinct_iff by blast
  then show ?thesis by (simp add: claim_candidates_def Let_def take_map [symmetric])
qed

lemma find_claim_fold:
  "distinct (map fst ps) \<Longrightarrow>
   find_fake (foldl (\<lambda>s p. AList.update (fst p) (f (snd p)) s) s ps) i =
     (case map_of ps i of Some r \<Rightarrow> Some (f r) | None \<Rightarrow> find_fake s i)"
proof (induction ps arbitrary: s)
  case (Cons p ps)
  then have "map_of ps (fst p) = None" by (simp add: map_of_eq_None_iff)
  with Cons show ?case by (cases p) (auto split: option.splits)
qed simp

lemma distinct_update_fold:
  "distinct (map fst s) \<Longrightarrow> distinct (map fst (foldl (\<lambda>s p. AList.update (fst p) (f (snd p)) s) s ps))"
  by (induction ps arbitrary: s) (simp_all add: distinct_update)

lemma claim_result:
  assumes "store_wf s" and "store_ClaimPending s now n l = (s', es)"
  shows "store_wf s'" and "\<exists>ps. distinct (map fst ps) \<and> (\<forall>(i, r) \<in> set ps. find_fake s i = Some r \<and> due now r) \<and>
    (\<forall>i. find_fake s' i = (case map_of ps i of Some r \<Rightarrow> Some (claim_row now l r) | None \<Rightarrow> find_fake s i)) \<and>
    es = map (\<lambda>p. \<lparr>cl_Entry = fr_entry (snd p), cl_Attempts = fr_attempts (snd p), cl_LeaseID = l\<rparr>) ps"
proof -
  let ?ps = "claim_candidates s now n"
  have s': "s' = foldl (\<lambda>s p. AList.update (fst p) (claim_row now l (snd p)) s) s ?ps"
    and es: "es = map (\<lambda>p. \<lparr>cl_Entry = fr_entry (snd p), cl_Attempts = fr_attempts (snd p), cl_LeaseID = l\<rparr>) ?ps"
    using assms(2) by (auto simp: store_ClaimPending_def Let_def)
  have f: "find_fake s' i = (case map_of ?ps i of Some r \<Rightarrow> Some (claim_row now l r) | None \<Rightarrow> find_fake s i)" for i
    unfolding s' by (rule find_claim_fold [OF candidates_distinct [OF assms(1)]])
  show "store_wf s'"
    unfolding store_wf_def
  proof (intro conjI allI impI)
    show "distinct (map fst s')" unfolding s' using assms(1) by (intro distinct_update_fold) (simp add: store_wf_def)
    fix i r assume "find_fake s' i = Some r"
    then show "oe_id (fr_entry r) = i"
      using candidates_mem [OF assms(1)] store_wf_id [OF assms(1)]
      by (auto simp: f claim_row_def dest!: map_of_SomeD split: option.splits)
  qed
  show "\<exists>ps. distinct (map fst ps) \<and> (\<forall>(i, r) \<in> set ps. find_fake s i = Some r \<and> due now r) \<and>
    (\<forall>i. find_fake s' i = (case map_of ps i of Some r \<Rightarrow> Some (claim_row now l r) | None \<Rightarrow> find_fake s i)) \<and>
    es = map (\<lambda>p. \<lparr>cl_Entry = fr_entry (snd p), cl_Attempts = fr_attempts (snd p), cl_LeaseID = l\<rparr>) ps"
    using candidates_distinct [OF assms(1), of now n] candidates_mem [OF assms(1)] f es by blast
qed

lemma claim_moves:
  assumes "store_wf s" and "store_ClaimPending s now n l = (s', es)"
  shows "row_move (find_fake s i) (find_fake s' i)"
proof -
  obtain ps where "\<forall>(i, r) \<in> set ps. find_fake s i = Some r \<and> due now r"
    and f: "\<forall>i. find_fake s' i = (case map_of ps i of Some r \<Rightarrow> Some (claim_row now l r) | None \<Rightarrow> find_fake s i)"
    using claim_result(2) [OF assms] by blast
  then have "map_of ps i = Some r \<Longrightarrow> find_fake s i = Some r \<and> due now r" for r
    by (auto dest: map_of_SomeD)
  then show ?thesis
    by (cases "map_of ps i") (auto simp: f row_move_def claim_row_def due_def outbox_CanTransitionTo_def split: if_splits)
qed

subsection \<open>Settling, reclaiming and cleaning up\<close>

lemma holds_lease_iff:
  "holds_lease s i l = Some r \<longleftrightarrow> find_fake s i = Some r \<and> fr_status r = StateClaiming \<and> fr_leaseID r = l"
  by (auto simp: holds_lease_def split: option.splits)

lemma holds_lease_None:
  "holds_lease s i l = None \<longleftrightarrow> (\<forall>r. find_fake s i = Some r \<longrightarrow> fr_status r = StateClaiming \<longrightarrow> fr_leaseID r \<noteq> l)"
  by (auto simp: holds_lease_def split: option.splits)

lemma eligible_mem:
  "store_wf s \<Longrightarrow> i \<in> set (eligibleIDsByTimeAsc s st cutoff tsOf) \<longleftrightarrow>
     (\<exists>r ts. find_fake s i = Some r \<and> fr_status r = st \<and> tsOf r = Some ts \<and> ts < cutoff)"
  by (force simp: eligibleIDsByTimeAsc_def List.map_filter_def store_wf_find split: if_splits option.splits)

lemma map_filter_keys_distinct:
  assumes "distinct (map fst s)" and "\<And>i r y. f (i, r) = Some y \<Longrightarrow> snd y = i"
  shows "distinct (map snd (List.map_filter f s))"
proof -
  have "map snd (List.map_filter f s) = map fst (filter (\<lambda>p. f p \<noteq> None) s)"
    unfolding List.map_filter_def using assms(2) by (induction s) auto
  with assms(1) show ?thesis by (simp add: distinct_map_filter)
qed

lemma eligible_distinct: "store_wf s \<Longrightarrow> distinct (eligibleIDsByTimeAsc s st cutoff tsOf)"
proof -
  assume s: "store_wf s"
  let ?f = "\<lambda>(i, r). if fr_status r \<noteq> st then None
       else case tsOf r of None \<Rightarrow> None | Some ts \<Rightarrow> if \<not> ts < cutoff then None else Some (ts, i)"
  have "distinct (map snd (List.map_filter ?f s))"
    using s by (intro map_filter_keys_distinct) (auto simp: store_wf_def split: if_splits option.splits)
  moreover have "mset (map snd (sort (List.map_filter ?f s))) = mset (map snd (List.map_filter ?f s))" by simp
  ultimately show ?thesis unfolding eligibleIDsByTimeAsc_def using mset_eq_imp_distinct_iff by blast
qed

lemma find_reclaim_loop:
  "distinct ids \<Longrightarrow> find_fake (fst (reclaim_loop f n ids s c)) i =
     (if i \<in> set (take (nat (n - c)) ids) then map_option f (find_fake s i) else find_fake s i)"
proof (induction f n ids s c rule: reclaim_loop.induct)
  case (2 f n j ids s c)
  show ?case
  proof (cases "c \<ge> n")
    case False
    then have "nat (n - c) = Suc (nat (n - (c + 1)))" by simp
    with 2 False show ?thesis by (cases "find_fake s j") (auto dest: in_set_takeD)
  qed simp
qed simp

lemma wf_reclaim_loop:
  assumes "\<And>r. fr_entry (f r) = fr_entry r" and "store_wf s"
  shows "store_wf (fst (reclaim_loop f n ids s c))"
  using assms
proof (induction f n ids s c rule: reclaim_loop.induct)
  case (2 f n i ids s c)
  then show ?case by (cases "find_fake s i") (simp_all add: store_wf_update store_wf_id)
qed simp

lemma reclaim_row_entry [simp]: "fr_entry (reclaim_row now m b d r) = fr_entry r"
  by (simp add: reclaim_row_def Let_def)

lemma reclaim_result:
  assumes "store_wf s" and "s' = fst (store_ReclaimStale s now ttl m b d n)"
  shows "store_wf s'" and "\<exists>I. (\<forall>i \<in> I. \<exists>r. find_fake s i = Some r \<and> fr_status r = StateClaiming) \<and>
    (\<forall>i. find_fake s' i = (if i \<in> I then map_option (reclaim_row now m b d) (find_fake s i) else find_fake s i))"
proof -
  let ?ids = "eligibleIDsByTimeAsc s StateClaiming (now - ttl) fr_claimedAt"
  have s': "s' = fst (reclaim_loop (reclaim_row now m b d) n ?ids s 0)"
    unfolding assms(2) by (simp add: store_ReclaimStale_def Let_def)
  show "store_wf s'" unfolding s' by (rule wf_reclaim_loop) (simp_all add: assms(1))
  have "\<forall>i \<in> set (take (nat n) ?ids). \<exists>r. find_fake s i = Some r \<and> fr_status r = StateClaiming"
    using eligible_mem [OF assms(1)] by (auto dest!: in_set_takeD)
  moreover have "\<forall>i. find_fake s' i = (if i \<in> set (take (nat n) ?ids) then map_option (reclaim_row now m b d) (find_fake s i) else find_fake s i)"
    unfolding s' using find_reclaim_loop [OF eligible_distinct [OF assms(1)], of _ n _ _ _ s 0] by simp
  ultimately show "\<exists>I. (\<forall>i \<in> I. \<exists>r. find_fake s i = Some r \<and> fr_status r = StateClaiming) \<and>
    (\<forall>i. find_fake s' i = (if i \<in> I then map_option (reclaim_row now m b d) (find_fake s i) else find_fake s i))" by blast
qed

lemma find_delete_loop:
  "find_fake (fst (delete_loop n ids s c)) i = (if i \<in> set (take (nat (n - c)) ids) then None else find_fake s i)"
proof (induction n ids s c rule: delete_loop.induct)
  case (2 n j ids s c)
  show ?case
  proof (cases "c \<ge> n")
    case False
    then have "nat (n - c) = Suc (nat (n - (c + 1)))" by simp
    with 2 False show ?thesis by auto
  qed simp
qed simp

lemma wf_delete_loop: "store_wf s \<Longrightarrow> store_wf (fst (delete_loop n ids s c))"
  by (induction n ids s c rule: delete_loop.induct) (auto intro: store_wf_delete)

lemma delete_loop_count: "snd (delete_loop n ids s c) = (if c \<ge> n then c else min n (c + int (length ids)))"
  by (induction n ids s c rule: delete_loop.induct) auto

lemma length_delete: "length (AList.delete i s) \<le> length s" "i \<in> fst ` set s \<Longrightarrow> length (AList.delete i s) < length s"
  by (auto simp: AList.delete_eq length_filter_less)

lemma length_delete_loop: "length (fst (delete_loop n ids s c)) \<le> length s"
proof (induction n ids s c rule: delete_loop.induct)
  case (2 n i ids s c)
  then show ?case using length_delete(1) [of i s] by (auto intro: order_trans)
qed simp

lemma delete_loop_shrinks:
  assumes "set ids \<subseteq> fst ` set s" and "c < snd (delete_loop n ids s c)"
  shows "length (fst (delete_loop n ids s c)) < length s"
proof (cases ids)
  case (Cons i rest)
  have "length (fst (delete_loop n rest (AList.delete i s) (c + 1))) \<le> length (AList.delete i s)" by (rule length_delete_loop)
  also have "\<dots> < length s" using assms(1) by (intro length_delete) (simp add: Cons)
  finally show ?thesis using assms(2) by (auto simp: Cons split: if_splits)
qed (use assms in simp)

lemma eligible_keys: "set (eligibleIDsByTimeAsc s st cutoff tsOf) \<subseteq> fst ` set s"
  by (force simp: eligibleIDsByTimeAsc_def List.map_filter_def split: if_splits option.splits)

lemma cleanup_shrinks:
  "(s', k) = store_CleanupPublished s c n \<Longrightarrow> 0 < k \<Longrightarrow> length s' < length s"
  "(s', k) = store_CleanupDead s c n \<Longrightarrow> 0 < k \<Longrightarrow> length s' < length s"
  using delete_loop_shrinks [OF eligible_keys, of 0 n]
  unfolding store_CleanupPublished_def store_CleanupDead_def by (metis fst_conv snd_conv)+

lemma settle_wf:
  assumes "store_wf s"
  shows "store_wf (fst (store_MarkPublished s now i l))" and "store_wf (fst (store_MarkRetry s i l a t e))"
    and "store_wf (fst (store_MarkDead s now i l a e))" and "store_wf (fst (store_CleanupPublished s c n))"
    and "store_wf (fst (store_CleanupDead s c n))"
  using assms by (auto simp: store_MarkPublished_def store_MarkRetry_def store_MarkDead_def store_CleanupPublished_def
      store_CleanupDead_def holds_lease_iff store_wf_id intro!: store_wf_update wf_delete_loop split: option.splits)

lemma settle_moves:
  "row_move (find_fake s j) (find_fake (fst (store_MarkPublished s now i l)) j)"
  "row_move (find_fake s j) (find_fake (fst (store_MarkRetry s i l a t e)) j)"
  "row_move (find_fake s j) (find_fake (fst (store_MarkDead s now i l a e)) j)"
  by (auto simp: store_MarkPublished_def store_MarkRetry_def store_MarkDead_def holds_lease_iff row_move_def
      outbox_CanTransitionTo_def split: option.splits)

lemma reclaim_moves:
  assumes "store_wf s"
  shows "row_move (find_fake s j) (find_fake (fst (store_ReclaimStale s now ttl m b d n)) j)"
proof -
  have "row_move (Some r) (Some (reclaim_row now m b d r))" if "fr_status r = StateClaiming" for r
    using that by (simp add: row_move_def reclaim_row_def Let_def outbox_CanTransitionTo_def)
  moreover obtain I where "\<forall>i \<in> I. \<exists>r. find_fake s i = Some r \<and> fr_status r = StateClaiming"
    and "find_fake (fst (store_ReclaimStale s now ttl m b d n)) j =
      (if j \<in> I then map_option (reclaim_row now m b d) (find_fake s j) else find_fake s j)"
    using reclaim_result(2) [OF assms refl] by metis
  ultimately show ?thesis by auto
qed

lemma cleanup_result:
  assumes "store_wf s"
  shows "find_fake (fst (store_CleanupPublished s c n)) i = find_fake s i \<or>
      find_fake (fst (store_CleanupPublished s c n)) i = None \<and> (\<exists>r. find_fake s i = Some r \<and> fr_status r = StatePublished)"
    and "find_fake (fst (store_CleanupDead s c n)) i = find_fake s i \<or>
      find_fake (fst (store_CleanupDead s c n)) i = None \<and> (\<exists>r. find_fake s i = Some r \<and> fr_status r = StateDead)"
  using eligible_mem [OF assms]
  by (auto simp: store_CleanupPublished_def store_CleanupDead_def find_delete_loop dest!: in_set_takeD)

lemma row_move_removed:
  "b = a \<or> b = None \<and> (\<exists>r. a = Some r \<and> outbox_IsTerminal (fr_status r)) \<Longrightarrow> row_move a b"
  by (auto simp: row_move_def split: option.splits)

lemma cleanup_moves:
  assumes "store_wf s"
  shows "row_move (find_fake s i) (find_fake (fst (store_CleanupPublished s c n)) i)"
    and "row_move (find_fake s i) (find_fake (fst (store_CleanupDead s c n)) i)"
  using cleanup_result [OF assms, of c n i] by (auto intro!: row_move_removed simp: outbox_IsTerminal_def)

end
