(* ===== verification/Failure_Budget.thy ===== *)
theory Failure_Budget
  imports Gocell_Prelude
begin

text \<open>
  The failure budget of the outbox relay (\<^verbatim>\<open>framework/runtime/outbox/health.go\<close>): a counter of consecutive
  failures with a sticky tripped flag and one log line per change of it.

  \<open>Record\<close> is a call that runs alone. The atomic operations of a call are \<open>fb_atomic\<close>, one program point
  after the other, so that calls of several goroutines interleave in \<open>fb_sched\<close>.
\<close>

section \<open>Definitions\<close>

record failure_budget =
  fb_name :: string
  fb_threshold :: int
  fb_consec :: int
  fb_tripped :: bool
  fb_loggedTrip :: bool
  fb_loggedRecover :: bool

datatype budget_log = LogExhausted string int int | LogRecovered string

definition NewFailureBudget :: "string \<Rightarrow> int \<Rightarrow> failure_budget" where
  "NewFailureBudget name threshold =
     \<lparr>fb_name = name, fb_threshold = threshold, fb_consec = 0, fb_tripped = False,
      fb_loggedTrip = False, fb_loggedRecover = False\<rparr>"

definition recordFailure :: "failure_budget \<Rightarrow> failure_budget \<times> budget_log list" where
  "recordFailure b =
     (let newConsec = i64 (fb_consec b + 1); b = b\<lparr>fb_consec := newConsec\<rparr> in
      if newConsec < fb_threshold b then (b, [])
      else if \<not> fb_tripped b then
        (let b = b\<lparr>fb_tripped := True, fb_loggedRecover := False\<rparr> in
         if \<not> fb_loggedTrip b
         then (b\<lparr>fb_loggedTrip := True\<rparr>, [LogExhausted (fb_name b) (fb_threshold b) newConsec])
         else (b, []))
      else (b, []))"

definition recordSuccess :: "failure_budget \<Rightarrow> failure_budget \<times> budget_log list" where
  "recordSuccess b =
     (let b = b\<lparr>fb_consec := 0\<rparr> in
      if fb_tripped b then
        (let b = b\<lparr>fb_tripped := False, fb_loggedTrip := False\<rparr> in
         if \<not> fb_loggedRecover b then (b\<lparr>fb_loggedRecover := True\<rparr>, [LogRecovered (fb_name b)])
         else (b, []))
      else (b, []))"

definition Record :: "failure_budget \<Rightarrow> goerr option \<Rightarrow> failure_budget \<times> budget_log list" where
  "Record b err =
     (if fb_threshold b \<le> 0 then (b, [])
      else if err \<noteq> None then recordFailure b else recordSuccess b)"

text \<open>\<open>None\<close> is the nil checker of a disabled budget; otherwise the checker's answer.\<close>

definition Checker :: "failure_budget \<Rightarrow> goerr option option" where
  "Checker b =
     (if fb_threshold b \<le> 0 then None
      else if \<not> fb_tripped b then Some None
      else Some (Some (Errcode KindUnavailable ErrRelayBudgetExhausted ''relay failure budget exhausted'')))"

definition Budget_Reset :: "failure_budget \<Rightarrow> failure_budget" where
  "Budget_Reset b =
     (if fb_threshold b \<le> 0 then b
      else b\<lparr>fb_consec := 0, fb_tripped := False, fb_loggedTrip := False, fb_loggedRecover := False\<rparr>)"

definition Tripped :: "failure_budget \<Rightarrow> bool" where
  "Tripped b = (if fb_threshold b \<le> 0 then False else fb_tripped b)"

definition ConsecutiveFailures :: "failure_budget \<Rightarrow> int" where
  "ConsecutiveFailures b = fb_consec b"

fun record_all :: "failure_budget \<Rightarrow> goerr option list \<Rightarrow> failure_budget \<times> budget_log list" where
  "record_all b [] = (b, [])"
| "record_all b (e # es) = (let (b', ls) = Record b e; (b'', ls') = record_all b' es in (b'', ls @ ls'))"

subsection \<open>Atomic operations\<close>

datatype fb_pc =
    FAdd | FTrip int | FClearRecover int | FLogTrip int
  | SStore | SUntrip | SClearTrip | SLogRecover
  | FBEnd

definition fb_entry :: "goerr option \<Rightarrow> fb_pc" where
  "fb_entry err = (if err \<noteq> None then FAdd else SStore)"

fun fb_atomic :: "failure_budget \<Rightarrow> fb_pc \<Rightarrow> failure_budget \<times> fb_pc" where
  "fb_atomic b FAdd =
     (let n = i64 (fb_consec b + 1) in (b\<lparr>fb_consec := n\<rparr>, if n < fb_threshold b then FBEnd else FTrip n))"
| "fb_atomic b (FTrip n) = (if fb_tripped b then (b, FBEnd) else (b\<lparr>fb_tripped := True\<rparr>, FClearRecover n))"
| "fb_atomic b (FClearRecover n) = (b\<lparr>fb_loggedRecover := False\<rparr>, FLogTrip n)"
| "fb_atomic b (FLogTrip n) = ((if fb_loggedTrip b then b else b\<lparr>fb_loggedTrip := True\<rparr>), FBEnd)"
| "fb_atomic b SStore = (b\<lparr>fb_consec := 0\<rparr>, SUntrip)"
| "fb_atomic b SUntrip = (if fb_tripped b then (b\<lparr>fb_tripped := False\<rparr>, SClearTrip) else (b, FBEnd))"
| "fb_atomic b SClearTrip = (b\<lparr>fb_loggedTrip := False\<rparr>, SLogRecover)"
| "fb_atomic b SLogRecover = ((if fb_loggedRecover b then b else b\<lparr>fb_loggedRecover := True\<rparr>), FBEnd)"
| "fb_atomic b FBEnd = (b, FBEnd)"

text \<open>A schedule names the goroutine that makes the next atomic step.\<close>

fun fb_sched :: "failure_budget \<times> fb_pc list \<Rightarrow> nat list \<Rightarrow> failure_budget \<times> fb_pc list" where
  "fb_sched (b, pcs) [] = (b, pcs)"
| "fb_sched (b, pcs) (g # gs) =
     (if g < length pcs then let (b', pc) = fb_atomic b (pcs ! g) in fb_sched (b', pcs[g := pc]) gs
      else fb_sched (b, pcs) gs)"

subsection \<open>Abstract budget\<close>

text \<open>The number of failures since the last success, and the log lines of a run: one per change of the verdict.\<close>

fun failures_since :: "int \<Rightarrow> goerr option list \<Rightarrow> int" where
  "failures_since n [] = n"
| "failures_since n (e # es) = failures_since (if e = None then 0 else n + 1) es"

fun verdict_log :: "string \<Rightarrow> int \<Rightarrow> int \<Rightarrow> goerr option list \<Rightarrow> budget_log list" where
  "verdict_log name th n [] = []"
| "verdict_log name th n (e # es) =
     (if e = None then (if th \<le> n then [LogRecovered name] else []) @ verdict_log name th 0 es
      else (if n + 1 = th then [LogExhausted name th (n + 1)] else []) @ verdict_log name th (n + 1) es)"

text \<open>How the flags of a budget represent the number \<open>n\<close> of failures since the last success.\<close>

definition budget_rel :: "int \<Rightarrow> failure_budget \<Rightarrow> bool" where
  "budget_rel n b \<longleftrightarrow> 0 \<le> n \<and> fb_consec b = n \<and> fb_tripped b = (fb_threshold b \<le> n) \<and>
     (fb_tripped b \<longrightarrow> fb_loggedTrip b \<and> \<not> fb_loggedRecover b) \<and> (\<not> fb_tripped b \<longrightarrow> \<not> fb_loggedTrip b)"

section \<open>Lemmas\<close>

lemma budget_rel_new: "0 < th \<Longrightarrow> budget_rel 0 (NewFailureBudget name th)"
  by (simp add: budget_rel_def NewFailureBudget_def)

lemma Record_keeps [simp]: "fb_threshold (fst (Record b e)) = fb_threshold b" "fb_name (fst (Record b e)) = fb_name b"
  by (auto simp: Record_def recordFailure_def recordSuccess_def Let_def)

lemma Record_refines:
  assumes "budget_rel n b" and "0 < fb_threshold b" and "n < max_i64"
  shows "budget_rel (if e = None then 0 else n + 1) (fst (Record b e))"
    and "snd (Record b e) =
      (if e = None then (if fb_threshold b \<le> n then [LogRecovered (fb_name b)] else [])
       else if n + 1 = fb_threshold b then [LogExhausted (fb_name b) (fb_threshold b) (n + 1)] else [])"
proof -
  have [simp]: "i64 (n + 1) = n + 1"
    using assms(1,3) by (intro i64_id in_i64I) (simp_all add: budget_rel_def min_i64_def)
  show "budget_rel (if e = None then 0 else n + 1) (fst (Record b e))"
    using assms(1,2) by (auto simp: Record_def recordFailure_def recordSuccess_def Let_def budget_rel_def)
  show "snd (Record b e) =
      (if e = None then (if fb_threshold b \<le> n then [LogRecovered (fb_name b)] else [])
       else if n + 1 = fb_threshold b then [LogExhausted (fb_name b) (fb_threshold b) (n + 1)] else [])"
    using assms(1,2) by (auto simp: Record_def recordFailure_def recordSuccess_def Let_def budget_rel_def)
qed

lemma record_all_refines:
  assumes "budget_rel n b" and "0 < fb_threshold b" and "n + int (length es) \<le> max_i64"
  shows "budget_rel (failures_since n es) (fst (record_all b es)) \<and> fb_threshold (fst (record_all b es)) = fb_threshold b \<and>
    snd (record_all b es) = verdict_log (fb_name b) (fb_threshold b) n es"
  using assms
proof (induction es arbitrary: n b)
  case (Cons e es)
  let ?n = "if e = None then 0 else n + 1"
  have "n < max_i64" using Cons.prems(3) by simp
  note step = Record_refines [OF Cons.prems(1,2) this, of e]
  have "0 \<le> n" using Cons.prems(1) by (simp add: budget_rel_def)
  with Cons.prems(3) have "?n + int (length es) \<le> max_i64" by auto
  with Cons.IH [OF step(1)] Cons.prems(2) step(2) show ?case
    by (cases e) (simp_all add: case_prod_beta Let_def)
qed simp

text \<open>A call that runs alone is its atomic operations in sequence.\<close>

lemma Record_is_atomic:
  assumes "0 < fb_threshold b"
  shows "\<exists>k. (fb_sched (b, [fb_entry e]) (replicate k 0)) = (fst (Record b e), [FBEnd])"
proof -
  have "fb_sched (b, [fb_entry e]) (replicate 4 0) = (fst (Record b e), [FBEnd])"
    using assms by (auto simp: fb_entry_def Record_def recordFailure_def recordSuccess_def Let_def numeral_eq_Suc)
  then show ?thesis ..
qed

text \<open>
  C38. A failure budget recorded by one goroutine implements its specification: its counter is the
  number of failures since the last success, it is tripped exactly when that number has reached the
  threshold, its health check fails exactly then, and it logs one line per change of the verdict.
\<close>

theorem budget_refines_consecutive_failures:
  assumes "0 < th" and "int (length es) \<le> max_i64" and "record_all (NewFailureBudget name th) es = (b, logs)"
  shows "ConsecutiveFailures b = failures_since 0 es \<and> Tripped b = (th \<le> failures_since 0 es) \<and>
    (Checker b = Some None \<longleftrightarrow> failures_since 0 es < th) \<and> logs = verdict_log name th 0 es"
  using record_all_refines [OF budget_rel_new [OF assms(1), of name], of es] assms
  by (auto simp: budget_rel_def ConsecutiveFailures_def Tripped_def Checker_def NewFailureBudget_def)

theorem budget_refines_consecutive_failures_witness:
  "Tripped (fst (record_all (NewFailureBudget ''poll'' 2) [Some CtxCanceled, Some CtxCanceled])) =
     (2 \<le> failures_since 0 [Some CtxCanceled, Some CtxCanceled])"
  using budget_refines_consecutive_failures [of 2 "[Some CtxCanceled, Some CtxCanceled]" "''poll''",
      OF _ _ surjective_pairing] by (simp add: max_i64_def)

text \<open>
  C39. Recorded by two goroutines, a budget of any threshold can stay tripped although no failure
  followed the last success: a failure that reached the threshold is overtaken, between its increment
  and its compare-and-swap, by a complete success, and then trips the budget whose counter is zero.
\<close>

theorem budget_trips_after_success:
  assumes "0 < th" and "fb_consec b = th - 1" and "fb_threshold b = th" and "\<not> fb_tripped b" and "th \<le> max_i64"
  shows "\<exists>b'. fb_sched (b, [fb_entry (Some err), fb_entry None]) [0, 1, 1, 0, 0, 0] = (b', [FBEnd, FBEnd]) \<and>
    Tripped b' \<and> ConsecutiveFailures b' = 0"
proof -
  have "i64 (fb_consec b + 1) = th" using assms by (intro i64_id [THEN trans]) (simp_all add: in_i64_def min_i64_def)
  then show ?thesis
    using assms by (auto simp: fb_entry_def Tripped_def ConsecutiveFailures_def Let_def)
qed

theorem budget_trips_after_success_witness:
  "\<exists>b'. fb_sched (NewFailureBudget ''poll'' 1, [fb_entry (Some CtxCanceled), fb_entry None]) [0, 1, 1, 0, 0, 0] =
     (b', [FBEnd, FBEnd]) \<and> Tripped b' \<and> ConsecutiveFailures b' = 0"
  by (rule budget_trips_after_success [where th = 1]) (simp_all add: NewFailureBudget_def max_i64_def)

end
