(* ===== verification/Outbox_Relay.thy ===== *)
theory Outbox_Relay
  imports Outbox_Store Idempotency Failure_Budget
begin

text \<open>
  The outbox relay (\<^verbatim>\<open>framework/runtime/outbox/relay.go\<close>, \<^verbatim>\<open>relay_command.go\<close>, \<^verbatim>\<open>config.go\<close>): a poll claims a
  batch of rows, publishes the events among them to the broker, dispatches the commands to their
  in-process handlers under an idempotency claim, and settles every row.

  A poll is a program \<open>rprog\<close>: each node is one call that leaves the relay (to the store, the broker, a
  handler, the claimer, the clock, the random source) with the rest of the poll as a function of the
  answer. Polls of several relays, crashes, reclaims, cleanups and producers interleave at these nodes
  in \<open>rstep\<close>. A store call may also fail, in which case its effect may or may not have happened.

  Code outside the component is an argument (\<open>relay_env\<close>): the envelope encoding, the parsing of
  RFC 3339 times and the redaction of error texts. Logging and metrics are left out.
\<close>

section \<open>Definitions\<close>

subsection \<open>Configuration\<close>

record relay_config =
  rf_PollInterval :: duration
  rf_BatchSize :: int
  rf_RetentionPeriod :: duration
  rf_MaxAttempts :: int
  rf_BaseRetryDelay :: duration
  rf_ClaimTTL :: duration
  rf_MaxRetryDelay :: duration
  rf_ReclaimInterval :: duration
  rf_ReclaimBatchSize :: int
  rf_DeadRetentionPeriod :: duration
  rf_PollFailureBudget :: int
  rf_ReclaimFailureBudget :: int
  rf_CleanupFailureBudget :: int
  rf_CleanupWaitFloor :: duration

definition DefaultRelayConfig :: relay_config where
  "DefaultRelayConfig =
     \<lparr>rf_PollInterval = 1 * second, rf_BatchSize = 100, rf_RetentionPeriod = 72 * hour, rf_MaxAttempts = 5,
      rf_BaseRetryDelay = 5 * second, rf_ClaimTTL = 60 * second, rf_MaxRetryDelay = 5 * minute,
      rf_ReclaimInterval = 30 * second, rf_ReclaimBatchSize = 1000, rf_DeadRetentionPeriod = 30 * 24 * hour,
      rf_PollFailureBudget = 5, rf_ReclaimFailureBudget = 5, rf_CleanupFailureBudget = 5, rf_CleanupWaitFloor = 0\<rparr>"

definition or_default :: "int \<Rightarrow> int \<Rightarrow> int" where
  "or_default v d = (if v \<le> 0 then d else v)"

definition WithDefaults :: "relay_config \<Rightarrow> relay_config" where
  "WithDefaults c =
     (let d = DefaultRelayConfig in
      c\<lparr>rf_PollInterval := or_default (rf_PollInterval c) (rf_PollInterval d),
        rf_BatchSize := or_default (rf_BatchSize c) (rf_BatchSize d),
        rf_RetentionPeriod := or_default (rf_RetentionPeriod c) (rf_RetentionPeriod d),
        rf_MaxAttempts := or_default (rf_MaxAttempts c) (rf_MaxAttempts d),
        rf_BaseRetryDelay := or_default (rf_BaseRetryDelay c) (rf_BaseRetryDelay d),
        rf_ClaimTTL := or_default (rf_ClaimTTL c) (rf_ClaimTTL d),
        rf_MaxRetryDelay := or_default (rf_MaxRetryDelay c) (rf_MaxRetryDelay d),
        rf_ReclaimInterval := or_default (rf_ReclaimInterval c) (rf_ReclaimInterval d),
        rf_ReclaimBatchSize := or_default (rf_ReclaimBatchSize c) (rf_ReclaimBatchSize d),
        rf_DeadRetentionPeriod := or_default (rf_DeadRetentionPeriod c) (rf_DeadRetentionPeriod d),
        rf_PollFailureBudget := (if rf_PollFailureBudget c < 0 then rf_PollFailureBudget d else rf_PollFailureBudget c),
        rf_ReclaimFailureBudget := (if rf_ReclaimFailureBudget c < 0 then rf_ReclaimFailureBudget d else rf_ReclaimFailureBudget c),
        rf_CleanupFailureBudget := (if rf_CleanupFailureBudget c < 0 then rf_CleanupFailureBudget d else rf_CleanupFailureBudget c)\<rparr>)"

subsection \<open>The relay\<close>

text \<open>A handler is named by the address of its generated dispatch function.\<close>

type_synonym handler = nat

datatype relay_state = relayStopped | relayStarting | relayRunning | relayStopping

record relay =
  rl_cfg :: relay_config
  rl_state :: relay_state
  rl_pollBudget :: "failure_budget option"
  rl_reclaimBudget :: "failure_budget option"
  rl_cleanupBudget :: "failure_budget option"
  rl_cmdRegistry :: "nat option"
  rl_cmdDispatch :: "(string \<times> handler) list"
  rl_cmdClaimer :: "nat option"

definition budget_of :: "string \<Rightarrow> int \<Rightarrow> failure_budget option" where
  "budget_of name th = (if th > 0 then Some (NewFailureBudget name th) else None)"

definition NewRelay :: "relay_config \<Rightarrow> relay" where
  "NewRelay cfg =
     (let cfg = WithDefaults cfg in
      \<lparr>rl_cfg = cfg, rl_state = relayStopped,
       rl_pollBudget = budget_of ''outbox_relay_poll'' (rf_PollFailureBudget cfg),
       rl_reclaimBudget = budget_of ''outbox_relay_reclaim'' (rf_ReclaimFailureBudget cfg),
       rl_cleanupBudget = budget_of ''outbox_relay_cleanup'' (rf_CleanupFailureBudget cfg),
       rl_cmdRegistry = None, rl_cmdDispatch = [], rl_cmdClaimer = None\<rparr>)"

definition WithCommandDispatch ::
  "relay \<Rightarrow> nat option \<Rightarrow> (string \<times> handler option) list \<Rightarrow> nat option \<Rightarrow> relay" where
  "WithCommandDispatch r reg dispatch claimer =
     (if reg = None \<or> length dispatch = 0 then r
      else let m = List.map_filter (\<lambda>(i, fn). map_option (Pair i) fn) dispatch in
        if length m = 0 then r
        else r\<lparr>rl_cmdRegistry := reg, rl_cmdDispatch := m, rl_cmdClaimer := claimer\<rparr>)"

definition commandDispatchFor :: "relay \<Rightarrow> string \<Rightarrow> handler option" where
  "commandDispatchFor r topic = map_of (rl_cmdDispatch r) topic"

text \<open>The checks and resets of \<^verbatim>\<open>Start\<close> up to the launch of its three loops.\<close>

definition relay_Start :: "relay \<Rightarrow> relay \<times> goerr option" where
  "relay_Start r =
     (if rl_state r \<noteq> relayStopped then (r, Some (Errcode KindConflict errRelayOp ''outbox relay already started''))
      else if length (rl_cmdDispatch r) > 0 \<and> rl_cmdClaimer r = None
        then (r\<lparr>rl_state := relayStopped\<rparr>, Some (Errcode KindInvalid errRelayOp ''outbox relay: command dispatch wired without claimer''))
      else (r\<lparr>rl_pollBudget := map_option Budget_Reset (rl_pollBudget r),
              rl_reclaimBudget := map_option Budget_Reset (rl_reclaimBudget r),
              rl_cleanupBudget := map_option Budget_Reset (rl_cleanupBudget r),
              rl_state := relayRunning\<rparr>, None))"

record relay_env =
  env_MarshalEnvelope :: "outbox_entry \<Rightarrow> bytes res"
  env_time_Parse :: "string \<Rightarrow> instant res"
  env_SanitizeError :: "goerr \<Rightarrow> string"

subsection \<open>Polls as programs\<close>

datatype rprog =
    RRet "goerr option"
  | RNow "instant \<Rightarrow> rprog"
  | RRand int "int \<Rightarrow> rprog"
  | RClaimPending int "claimed_entry list res \<Rightarrow> rprog"
  | RPublish string bytes outbox_entry "goerr option \<Rightarrow> rprog"
  | RIdemClaim string duration duration "claim_state \<times> receipt_ref \<times> goerr option \<Rightarrow> rprog"
  | RDispatch handler outbox_entry "(string \<times> instant) option" "goerr option \<Rightarrow> rprog"
  | RCommit receipt_ref "goerr option \<Rightarrow> rprog"
  | RRelease receipt_ref "goerr option \<Rightarrow> rprog"
  | RMarkPublished string string "bool res \<Rightarrow> rprog"
  | RMarkRetry string string int instant string "bool res \<Rightarrow> rprog"
  | RMarkDead string string int string "bool res \<Rightarrow> rprog"

record publish_result =
  pu_entry :: claimed_entry
  pu_err :: "goerr option"
  pu_receipt :: receipt_ref
  pu_isCommand :: bool

record outcome_counts =
  oc_Published :: int
  oc_Retried :: int
  oc_Dead :: int
  oc_Skipped :: int
  oc_Lost :: int

record poll_stats =
  ps_event :: outcome_counts
  ps_command :: outcome_counts

definition zero_outcomes :: outcome_counts where
  "zero_outcomes = \<lparr>oc_Published = 0, oc_Retried = 0, oc_Dead = 0, oc_Skipped = 0, oc_Lost = 0\<rparr>"

text \<open>\<^verbatim>\<open>bucket\<close> returns a pointer to one of the two counters; here the update is passed in.\<close>

definition bucket :: "poll_stats \<Rightarrow> bool \<Rightarrow> (outcome_counts \<Rightarrow> outcome_counts) \<Rightarrow> poll_stats" where
  "bucket s isCommand f = (if isCommand then s\<lparr>ps_command := f (ps_command s)\<rparr> else s\<lparr>ps_event := f (ps_event s)\<rparr>)"

definition incPublished :: "outcome_counts \<Rightarrow> outcome_counts" where "incPublished o1 = o1\<lparr>oc_Published := oc_Published o1 + 1\<rparr>"
definition incRetried :: "outcome_counts \<Rightarrow> outcome_counts" where "incRetried o1 = o1\<lparr>oc_Retried := oc_Retried o1 + 1\<rparr>"
definition incDead :: "outcome_counts \<Rightarrow> outcome_counts" where "incDead o1 = o1\<lparr>oc_Dead := oc_Dead o1 + 1\<rparr>"
definition incSkipped :: "outcome_counts \<Rightarrow> outcome_counts" where "incSkipped o1 = o1\<lparr>oc_Skipped := oc_Skipped o1 + 1\<rparr>"
definition incLost :: "outcome_counts \<Rightarrow> outcome_counts" where "incLost o1 = o1\<lparr>oc_Lost := oc_Lost o1 + 1\<rparr>"

definition commandLeaseTTL :: duration where
  "commandLeaseTTL = DefaultLeaseTTL"

definition commandDoneTTL :: duration where
  "commandDoneTTL = DefaultTTL"

definition errCommandDispatchBusy :: goerr where
  "errCommandDispatchBusy = Errcode KindConflict errRelayOp ''outbox relay: command dispatch busy; another worker holds the claim''"

definition activeDeadline :: "relay_env \<Rightarrow> outbox_entry \<Rightarrow> instant option res" where
  "activeDeadline x e =
     (let dl = metadata_get (oe_metadata e) CommandDeadlineMetadataKey in
      if dl = [] then Inr None
      else case env_time_Parse x dl of Inl parseErr \<Rightarrow> Inl parseErr | Inr parsed \<Rightarrow> Inr (Some parsed))"

definition activeUniquenessDoneTTL :: "instant \<Rightarrow> instant \<Rightarrow> duration" where
  "activeUniquenessDoneTTL deadline now = (let ttl = time_Sub deadline now in if ttl > 0 then ttl else 0)"

definition failed_result :: "claimed_entry \<Rightarrow> goerr \<Rightarrow> publish_result" where
  "failed_result e err = \<lparr>pu_entry = e, pu_err = Some err, pu_receipt = NilRef, pu_isCommand = False\<rparr>"

definition deadLetterUnparseableDeadline :: "claimed_entry \<Rightarrow> publish_result" where
  "deadLetterUnparseableDeadline e =
     failed_result e (NewPermanentError (Errcode KindInvalid errRelayOp ''outbox relay: command entry has unparseable overall_deadline''))"

text \<open>The part of \<^verbatim>\<open>dispatchCommand\<close> from the claim on.\<close>

definition claim_and_dispatch ::
  "claimed_entry \<Rightarrow> handler \<Rightarrow> string \<Rightarrow> instant option \<Rightarrow> duration \<Rightarrow> (publish_result \<Rightarrow> rprog) \<Rightarrow> rprog" where
  "claim_and_dispatch e fn key deadline doneTTL k =
     RIdemClaim key commandLeaseTTL doneTTL (\<lambda>(state, receipt, err).
       case err of
         Some err \<Rightarrow> k (failed_result e err)
       | None \<Rightarrow>
           (case state of
              ClaimAcquired \<Rightarrow>
                RDispatch fn (cl_Entry e) (map_option (Pair key) deadline) (\<lambda>err.
                  k \<lparr>pu_entry = e, pu_err = err, pu_receipt = receipt, pu_isCommand = False\<rparr>)
            | ClaimDone \<Rightarrow> k \<lparr>pu_entry = e, pu_err = None, pu_receipt = NilRef, pu_isCommand = False\<rparr>
            | ClaimBusy \<Rightarrow> k (failed_result e errCommandDispatchBusy)
            | ClaimOther n \<Rightarrow>
                k (failed_result e (NewPermanentError (Errcode KindInternal errRelayOp
                    ''outbox relay: command claim returned unknown state'')))))"

definition dispatchCommand ::
  "relay_env \<Rightarrow> claimed_entry \<Rightarrow> handler \<Rightarrow> (publish_result \<Rightarrow> rprog) \<Rightarrow> rprog" where
  "dispatchCommand x e fn k =
     (case ClaimKeyFromEntry (cl_Entry e) of
        None \<Rightarrow> k (failed_result e (NewPermanentError (Errcode KindInvalid errRelayOp
                    ''outbox relay: command entry missing idempotency identity'')))
      | Some key \<Rightarrow>
          (case activeDeadline x (cl_Entry e) of
             Inl parseErr \<Rightarrow> k (deadLetterUnparseableDeadline e)
           | Inr None \<Rightarrow> claim_and_dispatch e fn key None commandDoneTTL k
           | Inr (Some deadline) \<Rightarrow>
               RNow (\<lambda>now. claim_and_dispatch e fn key (Some deadline) (activeUniquenessDoneTTL deadline now) k)))"

definition publish_one :: "relay \<Rightarrow> relay_env \<Rightarrow> claimed_entry \<Rightarrow> (publish_result \<Rightarrow> rprog) \<Rightarrow> rprog" where
  "publish_one r x e k =
     (case commandDispatchFor r (RoutingTopic (cl_Entry e)) of
        Some fn \<Rightarrow> dispatchCommand x e fn (\<lambda>res. k (res\<lparr>pu_isCommand := True\<rparr>))
      | None \<Rightarrow>
          (case env_MarshalEnvelope x (cl_Entry e) of
             Inl marshalErr \<Rightarrow> k (failed_result e (NewPermanentError marshalErr))
           | Inr payload \<Rightarrow>
               RPublish (RoutingTopic (cl_Entry e)) payload (cl_Entry e) (\<lambda>err.
                 k \<lparr>pu_entry = e, pu_err = err, pu_receipt = NilRef, pu_isCommand = False\<rparr>)))"

fun publishBatch ::
  "relay \<Rightarrow> relay_env \<Rightarrow> claimed_entry list \<Rightarrow> publish_result list \<Rightarrow> (publish_result list \<Rightarrow> rprog) \<Rightarrow> rprog" where
  "publishBatch r x [] results k = k results"
| "publishBatch r x (e # entries) results k =
     publish_one r x e (\<lambda>res. publishBatch r x entries (results @ [res]) k)"

definition cappedDelay :: "relay \<Rightarrow> duration \<Rightarrow> duration" where
  "cappedDelay r d =
     (if d \<le> 0 then 0 else if d > rf_MaxRetryDelay (rl_cfg r) then rf_MaxRetryDelay (rl_cfg r) else d)"

definition retryJitterDivisor :: int where
  "retryJitterDivisor = 4"

definition retry_base_delay :: "relay \<Rightarrow> int \<Rightarrow> duration" where
  "retry_base_delay r attempts =
     (let shift = min attempts 30 in cappedDelay r (i64 (rf_BaseRetryDelay (rl_cfg r) * 2 ^ nat shift)))"

definition retryDelay :: "relay \<Rightarrow> int \<Rightarrow> (duration \<Rightarrow> rprog) \<Rightarrow> rprog" where
  "retryDelay r attempts k =
     (let delay = retry_base_delay r attempts in
      if delay > 0 then RRand (i64 (go_div delay retryJitterDivisor + 1)) (\<lambda>jitter. k (i64 (delay + jitter)))
      else k delay)"

definition isPermanentDispatch :: "goerr \<Rightarrow> bool" where
  "isPermanentDispatch err = IsPermanent err"

type_synonym settle_cont = "poll_stats \<Rightarrow> goerr option \<Rightarrow> rprog"

definition settle_dead ::
  "publish_result \<Rightarrow> int \<Rightarrow> string \<Rightarrow> poll_stats \<Rightarrow> settle_cont \<Rightarrow> rprog" where
  "settle_dead res newAttempts errMsg stats k =
     (case outbox_Transition StateClaiming StateDead of
        Some err \<Rightarrow> k stats (Some err)
      | None \<Rightarrow>
          RMarkDead (oe_id (cl_Entry (pu_entry res))) (cl_LeaseID (pu_entry res)) newAttempts errMsg (\<lambda>u.
            case u of
              Inl err \<Rightarrow> k stats (Some err)
            | Inr updated \<Rightarrow>
                if \<not> updated then k (bucket stats (pu_isCommand res) incLost) None
                else k (bucket stats (pu_isCommand res) incDead) None))"

definition settle_retry ::
  "relay \<Rightarrow> publish_result \<Rightarrow> int \<Rightarrow> string \<Rightarrow> poll_stats \<Rightarrow> settle_cont \<Rightarrow> rprog" where
  "settle_retry r res newAttempts errMsg stats k =
     (case outbox_Transition StateClaiming StatePending of
        Some err \<Rightarrow> k stats (Some err)
      | None \<Rightarrow>
          retryDelay r newAttempts (\<lambda>delay. RNow (\<lambda>now.
            RMarkRetry (oe_id (cl_Entry (pu_entry res))) (cl_LeaseID (pu_entry res)) newAttempts (now + delay) errMsg (\<lambda>u.
              case u of
                Inl err \<Rightarrow> k stats (Some err)
              | Inr updated \<Rightarrow>
                  if \<not> updated then k (bucket stats (pu_isCommand res) incLost) None
                  else k (bucket stats (pu_isCommand res) incRetried) None))))"

definition settle_failed ::
  "relay \<Rightarrow> relay_env \<Rightarrow> publish_result \<Rightarrow> goerr \<Rightarrow> poll_stats \<Rightarrow> settle_cont \<Rightarrow> rprog" where
  "settle_failed r x res err stats k =
     (let newAttempts = i64 (cl_Attempts (pu_entry res) + 1);
          errMsg = env_SanitizeError x err
      in if isPermanentDispatch err \<or> newAttempts \<ge> rf_MaxAttempts (rl_cfg r)
         then settle_dead res newAttempts errMsg stats k
         else settle_retry r res newAttempts errMsg stats k)"

definition handleFailedEntry ::
  "relay \<Rightarrow> relay_env \<Rightarrow> publish_result \<Rightarrow> goerr \<Rightarrow> poll_stats \<Rightarrow> settle_cont \<Rightarrow> rprog" where
  "handleFailedEntry r x res err stats k =
     (if pu_receipt res \<noteq> NilRef then RRelease (pu_receipt res) (\<lambda>_. settle_failed r x res err stats k)
      else settle_failed r x res err stats k)"

definition settle_published :: "publish_result \<Rightarrow> poll_stats \<Rightarrow> settle_cont \<Rightarrow> rprog" where
  "settle_published res stats k =
     (case outbox_Transition StateClaiming StatePublished of
        Some err \<Rightarrow> k stats (Some err)
      | None \<Rightarrow>
          RMarkPublished (oe_id (cl_Entry (pu_entry res))) (cl_LeaseID (pu_entry res)) (\<lambda>u.
            case u of
              Inl err \<Rightarrow> k stats (Some err)
            | Inr updated \<Rightarrow>
                if \<not> updated then k (bucket stats (pu_isCommand res) incSkipped) None
                else k (bucket stats (pu_isCommand res) incPublished) None))"

definition writeBackOne ::
  "relay \<Rightarrow> relay_env \<Rightarrow> publish_result \<Rightarrow> poll_stats \<Rightarrow> settle_cont \<Rightarrow> rprog" where
  "writeBackOne r x res stats k =
     (case pu_err res of
        Some err \<Rightarrow> handleFailedEntry r x res err stats k
      | None \<Rightarrow>
          if pu_receipt res \<noteq> NilRef
          then RCommit (pu_receipt res) (\<lambda>err. case err of Some err \<Rightarrow> k stats (Some err) | None \<Rightarrow> settle_published res stats k)
          else settle_published res stats k)"

fun writeBackResults ::
  "relay \<Rightarrow> relay_env \<Rightarrow> publish_result list \<Rightarrow> poll_stats \<Rightarrow> settle_cont \<Rightarrow> rprog" where
  "writeBackResults r x [] stats k = k stats None"
| "writeBackResults r x (res # results) stats k =
     writeBackOne r x res stats (\<lambda>stats err.
       case err of Some err \<Rightarrow> k stats (Some err) | None \<Rightarrow> writeBackResults r x results stats k)"

definition pollOnce :: "relay \<Rightarrow> relay_env \<Rightarrow> rprog" where
  "pollOnce r x =
     RClaimPending (rf_BatchSize (rl_cfg r)) (\<lambda>res.
       case res of
         Inl err \<Rightarrow> RRet (Some err)
       | Inr entries \<Rightarrow>
           if length entries = 0 then RRet None
           else publishBatch r x entries [] (\<lambda>results.
             writeBackResults r x results \<lparr>ps_event = zero_outcomes, ps_command = zero_outcomes\<rparr> (\<lambda>stats err. RRet err)))"

subsection \<open>Interleavings\<close>

text \<open>
  The history records what happened: rows written and removed, batches claimed, entries for which a
  handler was called, entries that the broker or a handler accepted, and the answers of the claimer that
  matter.
\<close>

datatype revent =
    EvWritten outbox_entry
  | EvClaimed claimed_entry
  | EvCalled outbox_entry
  | EvDelivered outbox_entry
  | EvAcquired string
  | EvDeduped string
  | EvCommitted string
  | EvRemoved fake_row

record rsys =
  ry_store :: fake_store
  ry_claimer :: cl_sys
  ry_workers :: "rprog list"
  ry_trace :: "revent list"

text \<open>
  The answers of the environment to one call: the lease identifier and token it draws, the outcome of
  the broker or handler, the random number, and for a store call whether it fails and whether it took
  effect nevertheless.
\<close>

record ranswer =
  an_lease :: string
  an_token :: "string res"
  an_err :: "goerr option"
  an_rand :: int
  an_fail :: "goerr option"
  an_applied :: bool

definition store_answer :: "ranswer \<Rightarrow> fake_store \<Rightarrow> fake_store \<times> 'a \<Rightarrow> fake_store \<times> 'a res" where
  "store_answer a s out =
     (case an_fail a of
        None \<Rightarrow> (fst out, Inr (snd out))
      | Some err \<Rightarrow> ((if an_applied a then fst out else s), Inl err))"

definition claim_events :: "string \<Rightarrow> claim_state \<Rightarrow> revent list" where
  "claim_events key st =
     (if st = ClaimAcquired then [EvAcquired key] else if st = ClaimDone then [EvDeduped key] else [])"

definition delivery_events :: "outbox_entry \<Rightarrow> goerr option \<Rightarrow> revent list" where
  "delivery_events e err = (if err = None then [EvDelivered e] else [])"

definition commit_events :: "cl_sys \<Rightarrow> receipt_ref \<Rightarrow> goerr option \<Rightarrow> revent list" where
  "commit_events c ref err =
     (case ref of LiveRef i \<Rightarrow> if err = None then [EvCommitted (rc_key (cl_receipts c ! i))] else [] | _ \<Rightarrow> [])"

fun rprog_step ::
  "instant \<Rightarrow> ranswer \<Rightarrow> fake_store \<times> cl_sys \<Rightarrow> rprog \<Rightarrow> (fake_store \<times> cl_sys) \<times> revent list \<times> rprog" where
  "rprog_step now a (s, c) (RRet err) = ((s, c), [], RRet err)"
| "rprog_step now a (s, c) (RNow k) = ((s, c), [], k now)"
| "rprog_step now a (s, c) (RRand n k) = ((s, c), [], k (an_rand a mod n))"
| "rprog_step now a (s, c) (RClaimPending n k) =
     (let out = store_ClaimPending s now n (an_lease a); (s', r) = store_answer a s out
      in ((s', c), (if an_fail a = None \<or> an_applied a then map EvClaimed (snd out) else []), k r))"
| "rprog_step now a (s, c) (RPublish t b e k) = ((s, c), delivery_events e (an_err a), k (an_err a))"
| "rprog_step now a (s, c) (RIdemClaim key l d k) =
     (let (c', st, rest) = claimer_claim c now key l d (an_token a)
      in ((s, c'), claim_events key st, k (st, rest)))"
| "rprog_step now a (s, c) (RDispatch h e u k) = ((s, c), delivery_events e (an_err a) @ [EvCalled e], k (an_err a))"
| "rprog_step now a (s, c) (RCommit ref k) =
     (let (c', err) = claimer_commit c now ref in ((s, c'), commit_events c ref err, k err))"
| "rprog_step now a (s, c) (RRelease ref k) =
     (let (c', err) = claimer_release c now ref in ((s, c'), [], k err))"
| "rprog_step now a (s, c) (RMarkPublished i l k) =
     (let (s', r) = store_answer a s (store_MarkPublished s now i l) in ((s', c), [], k r))"
| "rprog_step now a (s, c) (RMarkRetry i l n t m k) =
     (let (s', r) = store_answer a s (store_MarkRetry s i l n t m) in ((s', c), [], k r))"
| "rprog_step now a (s, c) (RMarkDead i l n m k) =
     (let (s', r) = store_answer a s (store_MarkDead s now i l n m) in ((s', c), [], k r))"

datatype rop =
    SWrite outbox_entry
  | SReorder fake_store
  | SPoll
  | SRun nat ranswer
  | SCrash nat
  | SReclaim
  | SCleanupPublished instant int
  | SCleanupDead instant int

definition removed_rows :: "fake_store \<Rightarrow> fake_store \<Rightarrow> revent list" where
  "removed_rows s s' = map (\<lambda>p. EvRemoved (snd p)) (filter (\<lambda>p. find_fake s' (fst p) = None) s)"

text \<open>
  The history grows at the front. A cleanup call carries the time at which its cutoff was computed: one
  reading of the clock serves all calls of a cleanup pass.
\<close>

fun rstep :: "relay \<Rightarrow> relay_env \<Rightarrow> rsys \<Rightarrow> instant \<Rightarrow> rop \<Rightarrow> rsys" where
  "rstep r x y now (SWrite e) = y\<lparr>ry_store := store_Write (ry_store y) e, ry_trace := EvWritten e # ry_trace y\<rparr>"
| "rstep r x y now (SReorder s) = (if mset s = mset (ry_store y) then y\<lparr>ry_store := s\<rparr> else y)"
| "rstep r x y now SPoll = y\<lparr>ry_workers := ry_workers y @ [pollOnce r x]\<rparr>"
| "rstep r x y now (SRun i a) =
     (if i < length (ry_workers y) then
        (case rprog_step now a (ry_store y, ry_claimer y) (ry_workers y ! i) of
           ((s, c), evs, p) \<Rightarrow>
             \<lparr>ry_store = s, ry_claimer = c, ry_workers = (ry_workers y)[i := p], ry_trace = evs @ ry_trace y\<rparr>)
      else y)"
| "rstep r x y now (SCrash i) = y\<lparr>ry_workers := take i (ry_workers y) @ drop (Suc i) (ry_workers y)\<rparr>"
| "rstep r x y now SReclaim =
     y\<lparr>ry_store := fst (store_ReclaimStale (ry_store y) now (rf_ClaimTTL (rl_cfg r)) (rf_MaxAttempts (rl_cfg r))
         (rf_BaseRetryDelay (rl_cfg r)) (rf_MaxRetryDelay (rl_cfg r)) (rf_ReclaimBatchSize (rl_cfg r)))\<rparr>"
| "rstep r x y now (SCleanupPublished t n) =
     (let s' = fst (store_CleanupPublished (ry_store y) (t - rf_RetentionPeriod (rl_cfg r)) n)
      in y\<lparr>ry_store := s', ry_trace := removed_rows (ry_store y) s' @ ry_trace y\<rparr>)"
| "rstep r x y now (SCleanupDead t n) =
     (let s' = fst (store_CleanupDead (ry_store y) (t - rf_DeadRetentionPeriod (rl_cfg r)) n)
      in y\<lparr>ry_store := s', ry_trace := removed_rows (ry_store y) s' @ ry_trace y\<rparr>)"

fun rexec :: "relay \<Rightarrow> relay_env \<Rightarrow> rsys \<Rightarrow> (instant \<times> rop) list \<Rightarrow> rsys" where
  "rexec r x y [] = y"
| "rexec r x y ((now, op) # ops) = rexec r x (rstep r x y now op) ops"

definition rstart :: rsys where
  "rstart = \<lparr>ry_store = NewFakeStore, ry_claimer = cl_start, ry_workers = [], ry_trace = []\<rparr>"

subsection \<open>Vocabulary of the properties\<close>

text \<open>Identifiers that the environment must not repeat: entry ids, leases and claim tokens.\<close>

datatype rname = NEntry string | NLease string | NToken string

fun op_names :: "rop \<Rightarrow> rname set" where
  "op_names (SWrite e) = {NEntry (oe_id e)}"
| "op_names (SRun i a) = {NLease (an_lease a)} \<union> (case an_token a of Inr t \<Rightarrow> {NToken t} | Inl _ \<Rightarrow> {})"
| "op_names _ = {}"

fun fresh_names :: "rname set \<Rightarrow> (instant \<times> rop) list \<Rightarrow> bool" where
  "fresh_names U [] = True"
| "fresh_names U ((t, op) # ops) = (op_names op \<inter> U = {} \<and> fresh_names (U \<union> op_names op) ops)"

text \<open>An entry is settled when it was delivered itself or an entry with its claim key was processed.\<close>

definition settled :: "revent set \<Rightarrow> outbox_entry \<Rightarrow> bool" where
  "settled T e \<longleftrightarrow> EvDelivered e \<in> T \<or> (\<exists>key. ClaimKeyFromEntry e = Some key \<and> EvDeduped key \<in> T)"

definition claims_of :: "string \<Rightarrow> revent list \<Rightarrow> nat" where
  "claims_of i T = length (filter (\<lambda>ev. case ev of EvClaimed ce \<Rightarrow> oe_id (cl_Entry ce) = i | _ \<Rightarrow> False) T)"

definition lease_match :: "claimed_entry set \<Rightarrow> string \<Rightarrow> string \<Rightarrow> claimed_entry \<Rightarrow> bool" where
  "lease_match W i l ce \<longleftrightarrow> ce \<in> W \<and> oe_id (cl_Entry ce) = i \<and> cl_LeaseID ce = l"

text \<open>
  What a program may do next: \<open>T\<close> is what it knows to have happened, \<open>W\<close> the entries it claimed and \<open>R\<close>
  the receipts it holds with their keys; \<open>M\<close> is the bound on attempts.
\<close>

primrec prog_ok :: "rprog \<Rightarrow> int \<Rightarrow> revent set \<Rightarrow> claimed_entry set \<Rightarrow> (nat \<times> string) set \<Rightarrow> bool" where
  "prog_ok (RRet err) M T W R = True"
| "prog_ok (RNow k) M T W R = (\<forall>t. prog_ok (k t) M T W R)"
| "prog_ok (RRand n k) M T W R = (\<forall>j. prog_ok (k j) M T W R)"
| "prog_ok (RClaimPending n k) M T W R =
     (\<forall>res. prog_ok (k res) M T (case res of Inr es \<Rightarrow> W \<union> set es | Inl _ \<Rightarrow> W) R)"
| "prog_ok (RPublish t b e k) M T W R =
     (e \<in> cl_Entry ` W \<and> (\<forall>err. prog_ok (k err) M (T \<union> set (delivery_events e err)) W R))"
| "prog_ok (RIdemClaim key l d k) M T W R =
     (\<forall>ans. prog_ok (k ans) M (T \<union> set (claim_events key (fst ans))) W
        (case fst (snd ans) of LiveRef i \<Rightarrow> insert (i, key) R | _ \<Rightarrow> R))"
| "prog_ok (RDispatch h e u k) M T W R =
     (e \<in> cl_Entry ` W \<and> (\<forall>err. prog_ok (k err) M (T \<union> set (delivery_events e err)) W R))"
| "prog_ok (RCommit ref k) M T W R =
     ((\<forall>i. ref = LiveRef i \<longrightarrow> (\<exists>key e. (i, key) \<in> R \<and> ClaimKeyFromEntry e = Some key \<and> EvDelivered e \<in> T)) \<and>
      (\<forall>err. prog_ok (k err) M T W R))"
| "prog_ok (RRelease ref k) M T W R = ((\<forall>i. ref = LiveRef i \<longrightarrow> (\<exists>key. (i, key) \<in> R)) \<and> (\<forall>err. prog_ok (k err) M T W R))"
| "prog_ok (RMarkPublished i l k) M T W R =
     ((\<exists>ce. lease_match W i l ce \<and> settled T (cl_Entry ce)) \<and> (\<forall>res. prog_ok (k res) M T W R))"
| "prog_ok (RMarkRetry i l n t m k) M T W R =
     ((\<exists>ce. lease_match W i l ce \<and> n = i64 (cl_Attempts ce + 1) \<and> n < M) \<and> (\<forall>res. prog_ok (k res) M T W R))"
| "prog_ok (RMarkDead i l n m k) M T W R =
     ((\<exists>ce. lease_match W i l ce \<and> n = i64 (cl_Attempts ce + 1)) \<and> (\<forall>res. prog_ok (k res) M T W R))"

definition res_ok :: "revent set \<Rightarrow> claimed_entry set \<Rightarrow> (nat \<times> string) set \<Rightarrow> publish_result \<Rightarrow> bool" where
  "res_ok T W R res \<longleftrightarrow>
     pu_entry res \<in> W \<and>
     (pu_err res = None \<longrightarrow> settled T (cl_Entry (pu_entry res))) \<and>
     (\<forall>i. pu_receipt res = LiveRef i \<longrightarrow>
        (\<exists>key. (i, key) \<in> R \<and> ClaimKeyFromEntry (cl_Entry (pu_entry res)) = Some key) \<and>
        (pu_err res = None \<longrightarrow> EvDelivered (cl_Entry (pu_entry res)) \<in> T))"

definition out_row_ok :: "int \<Rightarrow> revent list \<Rightarrow> fake_row \<Rightarrow> bool" where
  "out_row_ok M T r \<longleftrightarrow>
     0 \<le> fr_attempts r \<and> fr_attempts r \<le> M \<and> (fr_status r \<noteq> StateDead \<longrightarrow> fr_attempts r < M) \<and> outbox_Valid (fr_status r) \<and>
     (fr_status r = StateClaiming \<longrightarrow>
        EvClaimed \<lparr>cl_Entry = fr_entry r, cl_Attempts = fr_attempts r, cl_LeaseID = fr_leaseID r\<rparr> \<in> set T) \<and>
     (fr_status r = StatePublished \<longrightarrow> settled (set T) (fr_entry r)) \<and>
     int (claims_of (oe_id (fr_entry r)) T) =
       fr_attempts r + (if fr_status r = StateClaiming \<or> fr_status r = StatePublished then 1 else 0) \<and>
     EvWritten (fr_entry r) \<in> set T"

definition trace_ok :: "rname set \<Rightarrow> revent list \<Rightarrow> bool" where
  "trace_ok U T \<longleftrightarrow>
     (\<forall>ce ce'. EvClaimed ce \<in> set T \<longrightarrow> EvClaimed ce' \<in> set T \<longrightarrow>
        oe_id (cl_Entry ce) = oe_id (cl_Entry ce') \<longrightarrow> cl_LeaseID ce = cl_LeaseID ce' \<longrightarrow> ce = ce') \<and>
     (\<forall>ce. EvClaimed ce \<in> set T \<longrightarrow> NLease (cl_LeaseID ce) \<in> U \<and> NEntry (oe_id (cl_Entry ce)) \<in> U) \<and>
     (\<forall>e. EvWritten e \<in> set T \<longrightarrow> NEntry (oe_id e) \<in> U)"

definition written_ok :: "revent list \<Rightarrow> fake_store \<Rightarrow> bool" where
  "written_ok T s \<longleftrightarrow> (\<forall>e. EvWritten e \<in> set T \<longrightarrow>
     (\<exists>r. find_fake s (oe_id e) = Some r \<and> fr_entry r = e) \<or>
     find_fake s (oe_id e) = None \<and> (\<exists>r. EvRemoved r \<in> set T \<and> fr_entry r = e \<and> outbox_IsTerminal (fr_status r) \<and>
       (fr_status r = StatePublished \<longrightarrow> settled (set T) e)))"

definition store_inv :: "int \<Rightarrow> rname set \<Rightarrow> revent list \<Rightarrow> fake_store \<Rightarrow> bool" where
  "store_inv M U T s \<longleftrightarrow>
     store_wf s \<and> (\<forall>i r. find_fake s i = Some r \<longrightarrow> out_row_ok M T r) \<and> trace_ok U T \<and> written_ok T s"

text \<open>A done mark stands for a commit, a commit for a delivery under its key, and a deduplication for a commit.\<close>

definition claimer_inv :: "cl_sys \<Rightarrow> revent set \<Rightarrow> bool" where
  "claimer_inv c T \<longleftrightarrow>
     (\<forall>key e. cl_map c key = Some e \<longrightarrow> ce_state e = ClaimDone \<longrightarrow> EvCommitted key \<in> T) \<and>
     (\<forall>r \<in> set (cl_receipts c). \<not> rc_used r \<longrightarrow> rc_err r = None) \<and>
     (\<forall>key. EvDeduped key \<in> T \<longrightarrow> EvCommitted key \<in> T) \<and>
     (\<forall>key. EvCommitted key \<in> T \<longrightarrow> (\<exists>e. ClaimKeyFromEntry e = Some key \<and> EvDelivered e \<in> T))"

definition held :: "cl_sys \<Rightarrow> (nat \<times> string) set \<Rightarrow> bool" where
  "held c R \<longleftrightarrow> (\<forall>(i, key) \<in> R. i < length (cl_receipts c) \<and> rc_key (cl_receipts c ! i) = key)"

definition worker_ok :: "int \<Rightarrow> cl_sys \<Rightarrow> revent set \<Rightarrow> rprog \<Rightarrow> bool" where
  "worker_ok M c T p \<longleftrightarrow> (\<exists>K W R. prog_ok p M K W R \<and> K \<subseteq> T \<and> EvClaimed ` W \<subseteq> T \<and> held c R)"

text \<open>Only entries that were written are claimed, and only claimed entries are delivered.\<close>

definition origin_ok :: "revent set \<Rightarrow> bool" where
  "origin_ok T \<longleftrightarrow>
     (\<forall>ce. EvClaimed ce \<in> T \<longrightarrow> EvWritten (cl_Entry ce) \<in> T) \<and>
     (\<forall>e. EvDelivered e \<in> T \<longrightarrow> (\<exists>ce. EvClaimed ce \<in> T \<and> cl_Entry ce = e))"

definition rinv :: "int \<Rightarrow> rname set \<Rightarrow> rsys \<Rightarrow> bool" where
  "rinv M U y \<longleftrightarrow>
     store_inv M U (ry_trace y) (ry_store y) \<and> claimer_inv (ry_claimer y) (set (ry_trace y)) \<and>
     origin_ok (set (ry_trace y)) \<and> (\<forall>i. int (claims_of i (ry_trace y)) \<le> M) \<and>
     (\<forall>p \<in> set (ry_workers y). worker_ok M (ry_claimer y) (set (ry_trace y)) p)"

text \<open>The claimer changes only through its operations, and never by an extension of a lease.\<close>

fun claimer_op :: "ranswer \<Rightarrow> rprog \<Rightarrow> cl_op option" where
  "claimer_op a (RIdemClaim key l d k) = Some (ClClaim key l d (an_token a))"
| "claimer_op a (RCommit (LiveRef i) k) = Some (ClCommit i)"
| "claimer_op a (RRelease (LiveRef i) k) = Some (ClRelease i)"
| "claimer_op a p = None"

section \<open>Lemmas\<close>

lemma settled_mono: "settled T e \<Longrightarrow> T \<subseteq> T' \<Longrightarrow> settled T' e"
  by (auto simp: settled_def)

lemma res_ok_mono: "res_ok T W R res \<Longrightarrow> T \<subseteq> T' \<Longrightarrow> R \<subseteq> R' \<Longrightarrow> res_ok T' W R' res"
  unfolding res_ok_def by (meson settled_mono subsetD)

lemma res_ok_command [simp]: "res_ok T W R (res\<lparr>pu_isCommand := b\<rparr>) = res_ok T W R res"
  by (simp add: res_ok_def)

lemma res_ok_failed: "e \<in> W \<Longrightarrow> res_ok T W R (failed_result e err)"
  by (simp add: res_ok_def failed_result_def)

lemma ok_claim_and_dispatch:
  assumes e: "e \<in> W" and key: "ClaimKeyFromEntry (cl_Entry e) = Some key"
    and k: "\<And>T' R' res. T \<subseteq> T' \<Longrightarrow> R \<subseteq> R' \<Longrightarrow> res_ok T' W R' res \<Longrightarrow> prog_ok (k res) M T' W R'"
  shows "prog_ok (claim_and_dispatch e fn key dl d k) M T W R"
proof -
  have "prog_ok (case err of
         Some err \<Rightarrow> k (failed_result e err)
       | None \<Rightarrow>
           (case st of
              ClaimAcquired \<Rightarrow>
                RDispatch fn (cl_Entry e) (map_option (Pair key) dl) (\<lambda>err.
                  k \<lparr>pu_entry = e, pu_err = err, pu_receipt = ref, pu_isCommand = False\<rparr>)
            | ClaimDone \<Rightarrow> k \<lparr>pu_entry = e, pu_err = None, pu_receipt = NilRef, pu_isCommand = False\<rparr>
            | ClaimBusy \<Rightarrow> k (failed_result e errCommandDispatchBusy)
            | ClaimOther n \<Rightarrow>
                k (failed_result e (NewPermanentError (Errcode KindInternal errRelayOp
                    ''outbox relay: command claim returned unknown state'')))))
      M (T \<union> set (claim_events key st)) W (case ref of LiveRef i \<Rightarrow> insert (i, key) R | _ \<Rightarrow> R)"
    (is "prog_ok _ M ?T W ?R") for st ref err
  proof -
    have R: "R \<subseteq> ?R" by (cases ref) auto
    have fail: "prog_ok (k (failed_result e err')) M ?T W ?R" for err'
      by (rule k) (use R e in \<open>auto simp: res_ok_failed\<close>)
    have disp: "prog_ok (k \<lparr>pu_entry = e, pu_err = err', pu_receipt = ref, pu_isCommand = False\<rparr>)
        M (?T \<union> set (delivery_events (cl_Entry e) err')) W ?R" for err'
      by (rule k) (use R e key in \<open>auto simp: res_ok_def settled_def delivery_events_def\<close>)
    have "st = ClaimDone \<Longrightarrow> prog_ok (k \<lparr>pu_entry = e, pu_err = None, pu_receipt = NilRef, pu_isCommand = False\<rparr>) M ?T W ?R"
      by (rule k) (use R e key in \<open>auto simp: res_ok_def settled_def claim_events_def\<close>)
    with fail disp e show ?thesis by (cases err; cases st) auto
  qed
  then show ?thesis by (auto simp: claim_and_dispatch_def)
qed

lemma ok_publish_one:
  assumes e: "e \<in> W"
    and k: "\<And>T' R' res. T \<subseteq> T' \<Longrightarrow> R \<subseteq> R' \<Longrightarrow> res_ok T' W R' res \<Longrightarrow> prog_ok (k res) M T' W R'"
  shows "prog_ok (publish_one r x e k) M T W R"
proof -
  have fail: "prog_ok (k (failed_result e err)) M T W R" for err
    by (rule k) (use e in \<open>auto simp: res_ok_failed\<close>)
  have failc: "prog_ok (k ((failed_result e err)\<lparr>pu_isCommand := True\<rparr>)) M T W R" for err
    by (rule k) (use e in \<open>auto simp: res_ok_failed\<close>)
  have "prog_ok (dispatchCommand x e fn (\<lambda>res. k (res\<lparr>pu_isCommand := True\<rparr>))) M T W R" for fn
    by (auto simp: dispatchCommand_def deadLetterUnparseableDeadline_def failc e k
        intro!: ok_claim_and_dispatch split: option.split sum.split)
  moreover have "prog_ok (k \<lparr>pu_entry = e, pu_err = err, pu_receipt = NilRef, pu_isCommand = False\<rparr>)
      M (T \<union> set (delivery_events (cl_Entry e) err)) W R" for err
    by (rule k) (use e in \<open>auto simp: res_ok_def settled_def delivery_events_def\<close>)
  ultimately show ?thesis
    by (auto simp: publish_one_def fail e split: option.split sum.split)
qed

lemma ok_publishBatch:
  assumes "set es \<subseteq> W" and "\<forall>res \<in> set rs. res_ok T W R res"
    and "\<And>T' R' rs'. T \<subseteq> T' \<Longrightarrow> R \<subseteq> R' \<Longrightarrow> \<forall>res \<in> set rs'. res_ok T' W R' res \<Longrightarrow> prog_ok (k rs') M T' W R'"
  shows "prog_ok (publishBatch r x es rs k) M T W R"
  using assms
proof (induction es arbitrary: rs T R)
  case (Cons e es)
  show ?case unfolding publishBatch.simps
  proof (rule ok_publish_one)
    show "e \<in> W" using Cons.prems(1) by simp
    fix T' R' res assume ext: "T \<subseteq> T'" "R \<subseteq> R'" and res: "res_ok T' W R' res"
    show "prog_ok (publishBatch r x es (rs @ [res]) k) M T' W R'"
    proof (rule Cons.IH)
      show "\<forall>res \<in> set (rs @ [res]). res_ok T' W R' res"
        using Cons.prems(2) res res_ok_mono [OF _ ext] by auto
    qed (use Cons.prems ext in \<open>auto\<close>)
  qed
qed simp

lemma ok_settle_dead:
  assumes "pu_entry res \<in> W" and "n = i64 (cl_Attempts (pu_entry res) + 1)" and "\<And>st err. prog_ok (k st err) M T W R"
  shows "prog_ok (settle_dead res n m stats k) M T W R"
  using assms by (auto simp: settle_dead_def lease_match_def split: option.split sum.split)

lemma ok_retryDelay: "(\<And>d. prog_ok (k d) M T W R) \<Longrightarrow> prog_ok (retryDelay r n k) M T W R"
  by (simp add: retryDelay_def Let_def)

lemma ok_settle_retry:
  assumes "pu_entry res \<in> W" and "n = i64 (cl_Attempts (pu_entry res) + 1)" and "n < M" and "\<And>st err. prog_ok (k st err) M T W R"
  shows "prog_ok (settle_retry r res n m stats k) M T W R"
  using assms by (auto simp: settle_retry_def lease_match_def intro!: ok_retryDelay split: option.split sum.split)

lemma ok_settle_failed:
  assumes "pu_entry res \<in> W" and "M = rf_MaxAttempts (rl_cfg r)" and "\<And>st err. prog_ok (k st err) M T W R"
  shows "prog_ok (settle_failed r x res err stats k) M T W R"
  using assms by (auto simp: settle_failed_def Let_def intro!: ok_settle_dead ok_settle_retry)

lemma ok_writeBackOne:
  assumes res: "res_ok T W R res" and M: "M = rf_MaxAttempts (rl_cfg r)" and k: "\<And>st err. prog_ok (k st err) M T W R"
  shows "prog_ok (writeBackOne r x res stats k) M T W R"
proof (cases "pu_err res")
  case None
  have "prog_ok (settle_published res stats k) M T W R"
    using res None k by (auto simp: settle_published_def res_ok_def lease_match_def split: option.split sum.split)
  moreover have "\<forall>i. pu_receipt res = LiveRef i \<longrightarrow> (\<exists>key e. (i, key) \<in> R \<and> ClaimKeyFromEntry e = Some key \<and> EvDelivered e \<in> T)"
    using res None unfolding res_ok_def by blast
  ultimately show ?thesis using None k by (simp add: writeBackOne_def split: option.split)
next
  case (Some err)
  have f: "prog_ok (settle_failed r x res err stats k) M T W R"
    by (rule ok_settle_failed) (use res M k in \<open>auto simp: res_ok_def\<close>)
  have "\<forall>i. pu_receipt res = LiveRef i \<longrightarrow> (\<exists>key. (i, key) \<in> R)" using res unfolding res_ok_def by blast
  with f show ?thesis by (simp add: writeBackOne_def Some handleFailedEntry_def)
qed

lemma ok_writeBackResults:
  assumes "\<forall>res \<in> set rs. res_ok T W R res" and "M = rf_MaxAttempts (rl_cfg r)" and "\<And>st err. prog_ok (k st err) M T W R"
  shows "prog_ok (writeBackResults r x rs stats k) M T W R"
  using assms
proof (induction rs arbitrary: stats)
  case (Cons res rs)
  then show ?case by (auto intro!: ok_writeBackOne split: option.split)
qed simp

lemma ok_pollOnce:
  assumes "M = rf_MaxAttempts (rl_cfg r)"
  shows "prog_ok (pollOnce r x) M {} {} {}"
proof -
  have "prog_ok (publishBatch r x es [] (\<lambda>results. writeBackResults r x results stats (\<lambda>stats err. RRet err))) M {} (set es) {}" for es stats
    by (rule ok_publishBatch) (auto intro!: ok_writeBackResults simp: assms)
  then show ?thesis by (auto simp: pollOnce_def split: sum.split)
qed

lemma claims_of_append: "claims_of i (evs @ T) = claims_of i evs + claims_of i T"
  by (simp add: claims_of_def)

lemma claims_of_zero: "(\<And>ce. EvClaimed ce \<in> set T \<Longrightarrow> oe_id (cl_Entry ce) \<noteq> i) \<Longrightarrow> claims_of i T = 0"
  by (auto simp: claims_of_def filter_empty_conv split: revent.splits)

lemma out_row_ok_mono: "out_row_ok M T r \<Longrightarrow> claims_of (oe_id (fr_entry r)) evs = 0 \<Longrightarrow> out_row_ok M (evs @ T) r"
  by (auto simp: out_row_ok_def claims_of_append intro: settled_mono)

lemma written_ok_mono:
  assumes "written_ok T s" and "\<And>e. EvWritten e \<notin> set evs" and "\<And>i. find_fake s' i = find_fake s i \<or>
      (\<exists>r r'. find_fake s i = Some r \<and> find_fake s' i = Some r' \<and> fr_entry r' = fr_entry r)"
  shows "written_ok (evs @ T) s'"
  unfolding written_ok_def
proof (intro allI impI)
  fix e assume "EvWritten e \<in> set (evs @ T)"
  then have "EvWritten e \<in> set T" using assms(2) by simp
  with assms(1) consider (row) r where "find_fake s (oe_id e) = Some r" "fr_entry r = e"
    | (gone) r where "find_fake s (oe_id e) = None" "EvRemoved r \<in> set T" "fr_entry r = e" "outbox_IsTerminal (fr_status r)"
        "fr_status r = StatePublished \<longrightarrow> settled (set T) e"
    unfolding written_ok_def by blast
  then show "(\<exists>r. find_fake s' (oe_id e) = Some r \<and> fr_entry r = e) \<or>
     find_fake s' (oe_id e) = None \<and> (\<exists>r. EvRemoved r \<in> set (evs @ T) \<and> fr_entry r = e \<and> outbox_IsTerminal (fr_status r) \<and>
       (fr_status r = StatePublished \<longrightarrow> settled (set (evs @ T)) e))"
  proof cases
    case row
    then show ?thesis using assms(3) [of "oe_id e"] by auto
  next
    case gone
    then have "find_fake s' (oe_id e) = None" using assms(3) [of "oe_id e"] by auto
    moreover have "settled (set (evs @ T)) e" if "fr_status r = StatePublished"
      using gone(5) that by (auto intro: settled_mono)
    ultimately show ?thesis using gone(2-4) by auto
  qed
qed

lemma trace_ok_mono: "trace_ok U T \<Longrightarrow> U \<subseteq> U' \<Longrightarrow> trace_ok U' T"
  unfolding trace_ok_def by blast

lemma trace_ok_plain:
  "trace_ok U T \<Longrightarrow> (\<And>ce. EvClaimed ce \<notin> set evs) \<Longrightarrow> (\<And>e. EvWritten e \<notin> set evs) \<Longrightarrow> trace_ok U (evs @ T)"
  by (auto simp: trace_ok_def)

text \<open>One row changes and the history grows by events that neither claim nor write.\<close>

lemma store_inv_plain:
  assumes "store_inv M U T s" and "\<And>ce. EvClaimed ce \<notin> set evs" and "\<And>e. EvWritten e \<notin> set evs"
  shows "store_inv M U (evs @ T) s"
  unfolding store_inv_def
proof (intro conjI allI impI)
  show "store_wf s" using assms(1) by (simp add: store_inv_def)
  show "trace_ok U (evs @ T)" using assms by (intro trace_ok_plain) (auto simp: store_inv_def)
  show "written_ok (evs @ T) s" using assms(1,3) by (intro written_ok_mono) (auto simp: store_inv_def)
  fix i r assume "find_fake s i = Some r"
  then have "out_row_ok M T r" using assms(1) unfolding store_inv_def by blast
  then show "out_row_ok M (evs @ T) r" using assms(2) by (intro out_row_ok_mono claims_of_zero) auto
qed

lemma store_inv_rows:
  assumes "store_inv M U T s" and "store_wf s'"
    and "\<And>i. find_fake s' i = find_fake s i \<or>
      (\<exists>r r'. find_fake s i = Some r \<and> find_fake s' i = Some r' \<and> fr_entry r' = fr_entry r \<and> out_row_ok M T r')"
  shows "store_inv M U T s'"
  unfolding store_inv_def
proof (intro conjI allI impI)
  show "trace_ok U T" using assms(1) by (simp add: store_inv_def)
  have "written_ok T s" using assms(1) by (simp add: store_inv_def)
  then show "written_ok T s'"
    using written_ok_mono [of T s "[]" s'] assms(3) by (simp) (meson)
  fix i r assume "find_fake s' i = Some r"
  then show "out_row_ok M T r" using assms(3) [of i] assms(1) unfolding store_inv_def by auto
qed (rule assms(2))

lemma row_of_lease:
  assumes "store_inv M U T s" and "EvClaimed ce \<in> set T" and "holds_lease s (oe_id (cl_Entry ce)) (cl_LeaseID ce) = Some r"
  shows "cl_Entry ce = fr_entry r \<and> cl_Attempts ce = fr_attempts r \<and> out_row_ok M T r \<and> fr_status r = StateClaiming"
proof -
  have r: "find_fake s (oe_id (cl_Entry ce)) = Some r" "fr_status r = StateClaiming" "fr_leaseID r = cl_LeaseID ce"
    using assms(3) by (auto simp: holds_lease_iff)
  then have ok: "out_row_ok M T r" and id: "oe_id (fr_entry r) = oe_id (cl_Entry ce)"
    using assms(1) by (auto simp: store_inv_def store_wf_id)
  then have "EvClaimed \<lparr>cl_Entry = fr_entry r, cl_Attempts = fr_attempts r, cl_LeaseID = fr_leaseID r\<rparr> \<in> set T"
    using r by (simp add: out_row_ok_def)
  with assms(1,2) have "ce = \<lparr>cl_Entry = fr_entry r, cl_Attempts = fr_attempts r, cl_LeaseID = fr_leaseID r\<rparr>"
    unfolding store_inv_def trace_ok_def using id r(3) by (metis claimed_entry.select_convs(1,3))
  with ok r show ?thesis by (metis claimed_entry.select_convs(1,2))
qed

subsection \<open>Steps on the store\<close>

lemma attempts_next: "out_row_ok M T r \<Longrightarrow> in_i64 M \<Longrightarrow> fr_status r \<noteq> StateDead \<Longrightarrow> i64 (fr_attempts r + 1) = fr_attempts r + 1"
  by (intro i64_id) (auto simp: out_row_ok_def in_i64_def min_i64_def)

lemma store_inv_update:
  assumes inv: "store_inv M U T s" and r: "find_fake s i = Some r" "fr_entry r' = fr_entry r" "out_row_ok M T r'"
  shows "store_inv M U T (AList.update i r' s)"
proof (rule store_inv_rows [OF inv])
  show "store_wf (AList.update i r' s)"
    using inv r(1,2) store_wf_id [of s i r] by (intro store_wf_update) (simp_all add: store_inv_def)
  fix j show "find_fake (AList.update i r' s) j = find_fake s j \<or>
      (\<exists>a b. find_fake s j = Some a \<and> find_fake (AList.update i r' s) j = Some b \<and> fr_entry b = fr_entry a \<and> out_row_ok M T b)"
    using r by (cases "j = i") simp_all
qed

lemma store_inv_published:
  assumes inv: "store_inv M U T s" and ce: "EvClaimed ce \<in> set T" "settled (set T) (cl_Entry ce)"
  shows "store_inv M U T (fst (store_MarkPublished s now (oe_id (cl_Entry ce)) (cl_LeaseID ce)))"
proof (cases "holds_lease s (oe_id (cl_Entry ce)) (cl_LeaseID ce)")
  case (Some r)
  note r = row_of_lease [OF inv ce(1) Some]
  have "out_row_ok M T (r\<lparr>fr_status := StatePublished, fr_publishedAt := Some now, fr_claimedAt := None\<rparr>)"
    using r ce(2) by (auto simp: out_row_ok_def)
  moreover have "find_fake s (oe_id (cl_Entry ce)) = Some r" using Some by (simp add: holds_lease_iff)
  ultimately show ?thesis
    using store_inv_update [OF inv, of "oe_id (cl_Entry ce)" r] by (simp add: store_MarkPublished_def Some)
qed (use inv in \<open>simp add: store_MarkPublished_def\<close>)

lemma store_inv_retry:
  assumes inv: "store_inv M U T s" and ce: "EvClaimed ce \<in> set T" and n: "n = i64 (cl_Attempts ce + 1)" "n < M" and M: "in_i64 M"
  shows "store_inv M U T (fst (store_MarkRetry s (oe_id (cl_Entry ce)) (cl_LeaseID ce) n t m))"
proof (cases "holds_lease s (oe_id (cl_Entry ce)) (cl_LeaseID ce)")
  case (Some r)
  note r = row_of_lease [OF inv ce Some]
  then have "n = fr_attempts r + 1" using n(1) attempts_next [OF _ M, of T r] by simp
  then have "out_row_ok M T (r\<lparr>fr_status := StatePending, fr_attempts := n, fr_nextRetryAt := Some t,
      fr_lastError := m, fr_claimedAt := None, fr_leaseID := []\<rparr>)"
    using r n(2) by (auto simp: out_row_ok_def)
  moreover have "find_fake s (oe_id (cl_Entry ce)) = Some r" using Some by (simp add: holds_lease_iff)
  ultimately show ?thesis
    using store_inv_update [OF inv, of "oe_id (cl_Entry ce)" r] by (simp add: store_MarkRetry_def Some)
qed (use inv in \<open>simp add: store_MarkRetry_def\<close>)

lemma store_inv_dead:
  assumes inv: "store_inv M U T s" and ce: "EvClaimed ce \<in> set T" and n: "n = i64 (cl_Attempts ce + 1)" and M: "in_i64 M"
  shows "store_inv M U T (fst (store_MarkDead s now (oe_id (cl_Entry ce)) (cl_LeaseID ce) n m))"
proof (cases "holds_lease s (oe_id (cl_Entry ce)) (cl_LeaseID ce)")
  case (Some r)
  note r = row_of_lease [OF inv ce Some]
  then have "n = fr_attempts r + 1" using n attempts_next [OF _ M, of T r] by simp
  then have "out_row_ok M T (r\<lparr>fr_status := StateDead, fr_attempts := n, fr_lastError := m, fr_deadAt := Some now, fr_claimedAt := None\<rparr>)"
    using r by (auto simp: out_row_ok_def)
  moreover have "find_fake s (oe_id (cl_Entry ce)) = Some r" using Some by (simp add: holds_lease_iff)
  ultimately show ?thesis
    using store_inv_update [OF inv, of "oe_id (cl_Entry ce)" r] by (simp add: store_MarkDead_def Some)
qed (use inv in \<open>simp add: store_MarkDead_def\<close>)

lemma out_row_ok_reclaim:
  assumes "out_row_ok M T r" and "fr_status r = StateClaiming" and "in_i64 M"
  shows "out_row_ok M T (reclaim_row now M b d r)"
  using assms attempts_next [OF assms(1,3)] by (auto simp: out_row_ok_def reclaim_row_def Let_def)

lemma store_inv_reclaim:
  assumes inv: "store_inv M U T s" and M: "in_i64 M"
  shows "store_inv M U T (fst (store_ReclaimStale s now ttl M b d n))"
proof -
  let ?s = "fst (store_ReclaimStale s now ttl M b d n)"
  have wf: "store_wf s" using inv by (simp add: store_inv_def)
  note res = reclaim_result [OF wf refl, where now = now and ttl = ttl and m = M and b = b and d = d and n = n]
  obtain I where a: "\<forall>i \<in> I. \<exists>r. find_fake s i = Some r \<and> fr_status r = StateClaiming"
    and f: "\<forall>i. find_fake ?s i = (if i \<in> I then map_option (reclaim_row now M b d) (find_fake s i) else find_fake s i)"
    using res(2) by blast
  show ?thesis
  proof (rule store_inv_rows [OF inv res(1)])
    fix i
    show "find_fake ?s i = find_fake s i \<or>
      (\<exists>r r'. find_fake s i = Some r \<and> find_fake ?s i = Some r' \<and> fr_entry r' = fr_entry r \<and> out_row_ok M T r')"
    proof (cases "i \<in> I")
      case True
      with a obtain r where r: "find_fake s i = Some r" "fr_status r = StateClaiming" by blast
      then have "out_row_ok M T r" using inv by (simp add: store_inv_def)
      then have "out_row_ok M T (reclaim_row now M b d r)" by (rule out_row_ok_reclaim [OF _ r(2) M])
      then show ?thesis using True r(1) by (simp add: f)
    qed (simp add: f)
  qed
qed

lemma store_inv_reorder:
  assumes inv: "store_inv M U T s" and "mset s' = mset s"
  shows "store_inv M U T s'"
  using store_wf_reorder [OF _ assms(2)] inv by (auto simp: store_inv_def written_ok_def)

lemma store_inv_write:
  assumes inv: "store_inv M U T s" and new: "NEntry (oe_id e) \<notin> U" and M: "0 < M"
  shows "store_inv M (insert (NEntry (oe_id e)) U) (EvWritten e # T) (store_Write s e)"
proof -
  have T: "trace_ok U T" and wf: "store_wf s" using inv by (auto simp: store_inv_def)
  have nc: "claims_of (oe_id e) T = 0" using T new by (intro claims_of_zero) (auto simp: trace_ok_def)
  then have ok: "out_row_ok M (EvWritten e # T) (pending_row e 0)"
    using M claims_of_append [of "oe_id e" "[EvWritten e]" T] by (simp add: out_row_ok_def pending_row_def claims_of_def)
  have old: "out_row_ok M (EvWritten e # T) r" if "find_fake s i = Some r" for i r
    using out_row_ok_mono [of M T r "[EvWritten e]"] that inv by (auto simp: store_inv_def claims_of_def)
  have no: "EvWritten e' \<in> set T \<Longrightarrow> oe_id e' \<noteq> oe_id e" for e' using T new by (auto simp: trace_ok_def)
  have "written_ok ([EvWritten e] @ T) (store_Write s e)"
    unfolding written_ok_def
  proof (intro allI impI)
    fix e' assume "EvWritten e' \<in> set ([EvWritten e] @ T)"
    then consider "e' = e" | "EvWritten e' \<in> set T" by auto
    then show "(\<exists>r. find_fake (store_Write s e) (oe_id e') = Some r \<and> fr_entry r = e') \<or>
      find_fake (store_Write s e) (oe_id e') = None \<and> (\<exists>r. EvRemoved r \<in> set ([EvWritten e] @ T) \<and> fr_entry r = e' \<and>
        outbox_IsTerminal (fr_status r) \<and> (fr_status r = StatePublished \<longrightarrow> settled (set ([EvWritten e] @ T)) e'))"
    proof cases
      case 2
      have "find_fake (store_Write s e) (oe_id e') = find_fake s (oe_id e')"
        using no [OF 2] by (simp add: store_Write_def)
      moreover have "settled (set T) e' \<Longrightarrow> settled (set ([EvWritten e] @ T)) e'"
        by (erule settled_mono) auto
      moreover have "(\<exists>r. find_fake s (oe_id e') = Some r \<and> fr_entry r = e') \<or>
        find_fake s (oe_id e') = None \<and> (\<exists>r. EvRemoved r \<in> set T \<and> fr_entry r = e' \<and> outbox_IsTerminal (fr_status r) \<and>
          (fr_status r = StatePublished \<longrightarrow> settled (set T) e'))"
        using inv 2 unfolding store_inv_def written_ok_def by blast
      ultimately show ?thesis by auto
    qed (simp add: store_Write_def pending_row_def)
  qed
  moreover have "store_wf (store_Write s e)"
    unfolding store_Write_def by (rule store_wf_update [OF wf]) (simp add: pending_row_def)
  moreover have "trace_ok (insert (NEntry (oe_id e)) U) (EvWritten e # T)"
    using T by (auto simp: trace_ok_def)
  ultimately show ?thesis using ok old by (auto simp: store_inv_def store_Write_def split: if_splits)
qed

lemma claims_of_Nil: "claims_of i [] = 0"
  by (simp add: claims_of_def)

lemma claims_of_Cons: "claims_of i (EvClaimed ce # T) = (if oe_id (cl_Entry ce) = i then 1 else 0) + claims_of i T"
  by (simp add: claims_of_def)

lemma claims_of_batch:
  assumes "distinct (map (\<lambda>ce. oe_id (cl_Entry ce)) es)"
  shows "claims_of i (map EvClaimed es) = (if i \<in> (\<lambda>ce. oe_id (cl_Entry ce)) ` set es then 1 else 0)"
  using assms by (induction es) (auto simp: claims_of_Cons claims_of_Nil)

lemma store_inv_claim:
  assumes inv: "store_inv M U T s" and new: "NLease l \<notin> U" and out: "store_ClaimPending s now n l = (s', es)"
  shows "store_inv M (insert (NLease l) U) (map EvClaimed es @ T) s'"
proof -
  have wf: "store_wf s" and T: "trace_ok U T" and rows: "\<And>i r. find_fake s i = Some r \<Longrightarrow> out_row_ok M T r"
    using inv by (auto simp: store_inv_def)
  note res = claim_result [OF wf out]
  obtain ps where d: "distinct (map fst ps)" and p: "\<forall>(i, r) \<in> set ps. find_fake s i = Some r \<and> due now r"
    and f: "\<forall>i. find_fake s' i = (case map_of ps i of Some r \<Rightarrow> Some (claim_row now l r) | None \<Rightarrow> find_fake s i)"
    and es: "es = map (\<lambda>p. \<lparr>cl_Entry = fr_entry (snd p), cl_Attempts = fr_attempts (snd p), cl_LeaseID = l\<rparr>) ps"
    using res(2) by blast
  have id: "oe_id (fr_entry (snd p)) = fst p" if "p \<in> set ps" for p
    using that p store_wf_id [OF wf] by auto
  then have ids: "map (\<lambda>ce. oe_id (cl_Entry ce)) es = map fst ps" by (simp add: es)
  then have idset: "(\<lambda>ce. oe_id (cl_Entry ce)) ` set es = fst ` set ps" by (metis image_set)
  note cnt = claims_of_batch [of es, unfolded ids, OF d, unfolded idset]
  have "out_row_ok M (map EvClaimed es @ T) r'" if "find_fake s' i = Some r'" for i r'
  proof (cases "map_of ps i")
    case None
    then have "find_fake s i = Some r'" using that by (simp add: f)
    moreover from None have "i \<notin> fst ` set ps" by (simp add: map_of_eq_None_iff)
    ultimately show ?thesis using rows store_wf_id [OF wf] cnt by (intro out_row_ok_mono) auto
  next
    case (Some r)
    then have m: "(i, r) \<in> set ps" by (rule map_of_SomeD)
    then have r: "find_fake s i = Some r" "fr_status r = StatePending" using p by (auto simp: due_def split: if_splits)
    have r': "r' = claim_row now l r" using that Some by (simp add: f)
    have "EvClaimed \<lparr>cl_Entry = fr_entry r, cl_Attempts = fr_attempts r, cl_LeaseID = l\<rparr> \<in> set (map EvClaimed es @ T)"
      using m by (auto simp: es intro: rev_image_eqI)
    moreover have "i \<in> fst ` set ps" using m by (auto intro: rev_image_eqI)
    ultimately show ?thesis using rows [OF r(1)] r(2) id [OF m] cnt
      by (auto simp: out_row_ok_def r' claim_row_def claims_of_append)
  qed
  moreover have "trace_ok (insert (NLease l) U) (map EvClaimed es @ T)"
  proof -
    have new_ce: "cl_LeaseID ce = l \<and> NEntry (oe_id (cl_Entry ce)) \<in> U" if "ce \<in> set es" for ce
    proof -
      from that obtain i r where m: "(i, r) \<in> set ps" and ce: "ce = \<lparr>cl_Entry = fr_entry r, cl_Attempts = fr_attempts r, cl_LeaseID = l\<rparr>"
        by (auto simp: es)
      then have "out_row_ok M T r" using p rows by auto
      then show ?thesis using T by (simp add: ce out_row_ok_def trace_ok_def)
    qed
    have inj: "ce = ce'" if "ce \<in> set es" "ce' \<in> set es" "oe_id (cl_Entry ce) = oe_id (cl_Entry ce')" for ce ce'
      using d ids that by (metis distinct_map inj_onD)
    have old_ce: "cl_LeaseID ce \<noteq> l" if "EvClaimed ce \<in> set T" for ce using T new that by (auto simp: trace_ok_def)
    have "ce = ce'" if "EvClaimed ce \<in> set (map EvClaimed es @ T)" "EvClaimed ce' \<in> set (map EvClaimed es @ T)"
        and "oe_id (cl_Entry ce) = oe_id (cl_Entry ce')" "cl_LeaseID ce = cl_LeaseID ce'" for ce ce'
    proof -
      from that(1,2) consider "ce \<in> set es" "ce' \<in> set es" | "ce \<in> set es" "EvClaimed ce' \<in> set T"
        | "EvClaimed ce \<in> set T" "ce' \<in> set es" | "EvClaimed ce \<in> set T" "EvClaimed ce' \<in> set T" by auto
      then show ?thesis
      proof cases
        case 4
        with T that(3,4) show ?thesis unfolding trace_ok_def by blast
      qed (use inj that(3,4) new_ce old_ce in metis)+
    qed
    moreover have "NLease (cl_LeaseID ce) \<in> insert (NLease l) U \<and> NEntry (oe_id (cl_Entry ce)) \<in> insert (NLease l) U"
      if "EvClaimed ce \<in> set (map EvClaimed es @ T)" for ce using that new_ce T by (auto simp: trace_ok_def)
    moreover have "NEntry (oe_id e) \<in> insert (NLease l) U" if "EvWritten e \<in> set (map EvClaimed es @ T)" for e
      using that T by (auto simp: trace_ok_def)
    ultimately show ?thesis unfolding trace_ok_def by blast
  qed
  moreover have "written_ok (map EvClaimed es @ T) s'"
  proof (rule written_ok_mono)
    show "written_ok T s" using inv by (simp add: store_inv_def)
    fix i show "find_fake s' i = find_fake s i \<or>
        (\<exists>r r'. find_fake s i = Some r \<and> find_fake s' i = Some r' \<and> fr_entry r' = fr_entry r)"
      using p f by (cases "map_of ps i") (auto simp: claim_row_def dest!: map_of_SomeD)
  qed auto
  ultimately show ?thesis using res(1) by (simp add: store_inv_def)
qed

lemma store_inv_cleanup:
  assumes inv: "store_inv M U T s" and wf: "store_wf s'"
    and f: "\<And>i. find_fake s' i = find_fake s i \<or>
      find_fake s' i = None \<and> (\<exists>r. find_fake s i = Some r \<and> outbox_IsTerminal (fr_status r))"
  shows "store_inv M U (removed_rows s s' @ T) s'"
  unfolding store_inv_def
proof (intro conjI allI impI)
  let ?T = "removed_rows s s' @ T"
  have wfs: "store_wf s" and rows: "\<And>i r. find_fake s i = Some r \<Longrightarrow> out_row_ok M T r" using inv by (auto simp: store_inv_def)
  show "trace_ok U ?T" using inv by (intro trace_ok_plain) (auto simp: store_inv_def removed_rows_def)
  fix i r assume "find_fake s' i = Some r"
  then have "out_row_ok M T r" using f [of i] rows by auto
  then show "out_row_ok M ?T r" by (intro out_row_ok_mono claims_of_zero) (auto simp: removed_rows_def)
next
  let ?T = "removed_rows s s' @ T"
  show "written_ok ?T s'"
    unfolding written_ok_def
  proof (intro allI impI)
    fix e assume "EvWritten e \<in> set ?T"
    then have "EvWritten e \<in> set T" by (auto simp: removed_rows_def)
    with inv consider (row) r where "find_fake s (oe_id e) = Some r" "fr_entry r = e"
      | (gone) r where "find_fake s (oe_id e) = None" "EvRemoved r \<in> set T" "fr_entry r = e" "outbox_IsTerminal (fr_status r)"
          "fr_status r = StatePublished \<longrightarrow> settled (set T) e"
      unfolding store_inv_def written_ok_def by blast
    then show "(\<exists>r. find_fake s' (oe_id e) = Some r \<and> fr_entry r = e) \<or>
      find_fake s' (oe_id e) = None \<and> (\<exists>r. EvRemoved r \<in> set ?T \<and> fr_entry r = e \<and> outbox_IsTerminal (fr_status r) \<and>
        (fr_status r = StatePublished \<longrightarrow> settled (set ?T) e))"
    proof cases
      case row
      show ?thesis
      proof (cases "find_fake s' (oe_id e) = find_fake s (oe_id e)")
        case False
        with f [of "oe_id e"] row have n: "find_fake s' (oe_id e) = None" "outbox_IsTerminal (fr_status r)" by auto
        have "(oe_id e, r) \<in> set s" using row inv by (simp add: store_inv_def store_wf_find)
        then have "EvRemoved r \<in> set ?T" using n(1) by (auto simp: removed_rows_def intro!: rev_image_eqI)
        moreover have "out_row_ok M T r" using inv row(1) by (simp add: store_inv_def)
        then have "fr_status r = StatePublished \<longrightarrow> settled (set ?T) e"
          using row(2) by (auto simp: out_row_ok_def intro: settled_mono)
        ultimately show ?thesis using n row(2) by blast
      qed (use row in simp)
    next
      case gone
      then have "find_fake s' (oe_id e) = None" using f [of "oe_id e"] by auto
      moreover have "fr_status r = StatePublished \<longrightarrow> settled (set ?T) e" using gone(5) by (auto intro: settled_mono)
      ultimately show ?thesis using gone(2-4) by auto
    qed
  qed
qed (rule wf)

subsection \<open>Steps of the system\<close>

lemma held_step: "held c R \<Longrightarrow> held (cl_step c now op) R"
  unfolding held_def using step_receipts by fastforce

lemma worker_ok_mono:
  assumes "worker_ok M c T p" and "T \<subseteq> T'" and "\<And>R. held c R \<Longrightarrow> held c' R"
  shows "worker_ok M c' T' p"
  using assms unfolding worker_ok_def by (meson subset_trans)

lemma store_inv_mono: "store_inv M U T s \<Longrightarrow> U \<subseteq> U' \<Longrightarrow> store_inv M U' T s"
  by (auto simp: store_inv_def intro: trace_ok_mono)

lemma store_answer_cases: "fst (store_answer a s out) = fst out \<or> fst (store_answer a s out) = s"
  by (simp add: store_answer_def split: option.split)

lemma rprog_step_claimer:
  assumes "rprog_step now a (s, c) p = ((s', c'), evs, p')"
  shows "c' = (case claimer_op a p of None \<Rightarrow> c | Some op \<Rightarrow> cl_step c now op)"
proof (cases p)
  case (RCommit ref k)
  with assms show ?thesis by (cases ref) (simp_all add: claimer_commit_def del: cl_step.simps)
next
  case (RRelease ref k)
  with assms show ?thesis by (cases ref) (simp_all add: claimer_release_def del: cl_step.simps)
qed (use assms in \<open>auto simp: Let_def claimer_claim_def simp del: cl_step.simps split: prod.splits\<close>)

lemma rprog_step_held: "rprog_step now a (s, c) p = ((s', c'), evs, p') \<Longrightarrow> held c R \<Longrightarrow> held c' R"
  by (drule rprog_step_claimer) (simp add: held_step split: option.split)

lemma rprog_step_store:
  assumes inv: "store_inv M U T s" and M: "in_i64 M" and w: "worker_ok M c (set T) p"
    and new: "NLease (an_lease a) \<notin> U" and st: "rprog_step now a (s, c) p = ((s', c'), evs, p')"
  shows "store_inv M (insert (NLease (an_lease a)) U) (evs @ T) s'"
proof -
  let ?U = "insert (NLease (an_lease a)) U"
  have invU: "store_inv M ?U T s" by (rule store_inv_mono [OF inv]) auto
  have plain: "store_inv M ?U (evs @ T) s" if "\<And>ce. EvClaimed ce \<notin> set evs" "\<And>e. EvWritten e \<notin> set evs"
    using that by (rule store_inv_plain [OF invU])
  from w obtain K W R where ok: "prog_ok p M K W R" and K: "K \<subseteq> set T" and W: "EvClaimed ` W \<subseteq> set T"
    unfolding worker_ok_def by blast
  have ce: "EvClaimed ce \<in> set T" "settled K e \<Longrightarrow> settled (set T) e" if "lease_match W i l ce" for i l ce e
    using that W K by (auto simp: lease_match_def intro: settled_mono)
  show ?thesis
  proof (cases p)
    case (RClaimPending n k)
    obtain s1 es where out: "store_ClaimPending s now n (an_lease a) = (s1, es)" by fastforce
    have "store_inv M ?U (map EvClaimed es @ T) s1" by (rule store_inv_claim [OF inv new out])
    then show ?thesis using st invU by (auto simp: RClaimPending out store_answer_def Let_def split: option.splits if_splits)
  next
    case (RMarkPublished i l k)
    with ok obtain ce1 where c: "lease_match W i l ce1" "settled K (cl_Entry ce1)" by auto
    then have "store_inv M ?U T (fst (store_MarkPublished s now i l))"
      using store_inv_published [OF invU ce(1) [OF c(1)] ce(2) [OF c]] by (simp add: lease_match_def)
    then show ?thesis using st invU store_answer_cases [of a s "store_MarkPublished s now i l"]
      by (auto simp: RMarkPublished split: prod.splits)
  next
    case (RMarkRetry i l n t m k)
    with ok obtain ce1 where c: "lease_match W i l ce1" "n = i64 (cl_Attempts ce1 + 1)" "n < M" by auto
    then have "store_inv M ?U T (fst (store_MarkRetry s i l n t m))"
      using store_inv_retry [OF invU ce(1) [OF c(1)] c(2,3) M] by (simp add: lease_match_def)
    then show ?thesis using st invU store_answer_cases [of a s "store_MarkRetry s i l n t m"]
      by (auto simp: RMarkRetry split: prod.splits)
  next
    case (RMarkDead i l n m k)
    with ok obtain ce1 where c: "lease_match W i l ce1" "n = i64 (cl_Attempts ce1 + 1)" by auto
    then have "store_inv M ?U T (fst (store_MarkDead s now i l n m))"
      using store_inv_dead [OF invU ce(1) [OF c(1)] c(2) M] by (simp add: lease_match_def)
    then show ?thesis using st invU store_answer_cases [of a s "store_MarkDead s now i l n m"]
      by (auto simp: RMarkDead split: prod.splits)
  qed (use st plain in \<open>auto simp: Let_def delivery_events_def claim_events_def commit_events_def
      split: prod.splits receipt_ref.splits if_splits\<close>)
qed

lemma rprog_step_worker:
  assumes w: "worker_ok M c (set T) p" and st: "rprog_step now a (s, c) p = ((s', c'), evs, p')"
  shows "worker_ok M c' (set (evs @ T)) p'"
proof -
  from w obtain K W R where ok: "prog_ok p M K W R" and K: "K \<subseteq> set T" and W: "EvClaimed ` W \<subseteq> set T" and R: "held c R"
    unfolding worker_ok_def by blast
  have goal: ?thesis if "prog_ok p' M (K \<union> K') (W \<union> W') (R \<union> R')" "K' \<subseteq> set (evs @ T)" "EvClaimed ` W' \<subseteq> set (evs @ T)" "held c' R'" for K' W' R'
    unfolding worker_ok_def
  proof (intro exI conjI)
    show "prog_ok p' M (K \<union> K') (W \<union> W') (R \<union> R')" by (rule that(1))
    show "held c' (R \<union> R')" using rprog_step_held [OF st R] that(4) by (auto simp: held_def)
  qed (use that(2,3) K W in auto)
  have none: "held c' {}" by (simp add: held_def)
  show ?thesis
  proof (cases p)
    case (RClaimPending n k)
    obtain s1 es where out: "store_ClaimPending s now n (an_lease a) = (s1, es)" by fastforce
    show ?thesis
    proof (cases "an_fail a")
      case None
      then show ?thesis using ok st goal [of "{}" "set es" "{}"] none
        by (auto simp: RClaimPending out store_answer_def Let_def dest: spec [of _ "Inr es"])
    next
      case (Some err)
      then show ?thesis using ok st goal [of "{}" "{}" "{}"] none
        by (auto simp: RClaimPending out store_answer_def Let_def dest: spec [of _ "Inl err"])
    qed
  next
    case (RIdemClaim key l d k)
    obtain m st1 rc err where cl: "Claim (cl_map c) now key l d (an_token a) = (m, st1, rc, err)" by (metis prod_cases4)
    let ?ref = "case rc of InMemReceipt r \<Rightarrow> LiveRef (length (cl_receipts c)) | NonAcquiredReceipt \<Rightarrow> NonAcquiredRef | NilReceipt \<Rightarrow> NilRef"
    have p': "p' = k (st1, ?ref, err)" "evs = claim_events key st1" "c' = cl_step c now (ClClaim key l d (an_token a))"
      using st by (auto simp: RIdemClaim claimer_claim_def cl Let_def simp del: cl_step.simps)
    have ok': "prog_ok p' M (K \<union> set evs) W (case ?ref of LiveRef i \<Rightarrow> insert (i, key) R | _ \<Rightarrow> R)"
      using spec [OF ok [unfolded RIdemClaim prog_ok.simps], of "(st1, ?ref, err)"] by (simp add: p')
    show ?thesis
    proof (cases rc)
      case (InMemReceipt r)
      then have "held c' {(length (cl_receipts c), key)}"
        using Claim_cases [OF cl] by (auto simp: held_def p'(3) cl)
      with ok' InMemReceipt show ?thesis using goal [of "set evs" "{}" "{(length (cl_receipts c), key)}"] by simp
    qed (use ok' none goal [of "set evs" "{}" "{}"] in auto)
  next
    case (RPublish t b e k)
    then show ?thesis using ok st goal [of "set evs" "{}" "{}"] none by auto
  next
    case (RDispatch h e u k)
    then have "evs = delivery_events e (an_err a) @ [EvCalled e]" "p' = k (an_err a)" using st by simp_all
    moreover have "prog_ok (k (an_err a)) M (K \<union> set (delivery_events e (an_err a))) W R" using RDispatch ok by simp
    ultimately show ?thesis using none by (intro goal [of "set (delivery_events e (an_err a))" "{}" "{}"]) auto
  qed (use ok st goal [of "{}" "{}" "{}"] none in \<open>auto split: prod.splits\<close>)
qed

lemma rprog_step_origin:
  assumes inv: "store_inv M U T s" and o: "origin_ok (set T)" and w: "worker_ok M c (set T) p"
    and st: "rprog_step now a (s, c) p = ((s', c'), evs, p')"
  shows "origin_ok (set (evs @ T))"
proof -
  from w obtain K W R where ok: "prog_ok p M K W R" and W: "EvClaimed ` W \<subseteq> set T"
    unfolding worker_ok_def by blast
  have claimed: "EvWritten (cl_Entry ce) \<in> set T" if out: "store_ClaimPending s now n l = (s1, es)" and mem: "ce \<in> set es" for n l s1 es ce
  proof -
    obtain ps where "\<forall>(i, r) \<in> set ps. find_fake s i = Some r \<and> due now r"
      and "es = map (\<lambda>p. \<lparr>cl_Entry = fr_entry (snd p), cl_Attempts = fr_attempts (snd p), cl_LeaseID = l\<rparr>) ps"
      using claim_result(2) [OF _ out] inv unfolding store_inv_def by blast
    with mem obtain i r where "find_fake s i = Some r" "cl_Entry ce = fr_entry r" by auto
    then show ?thesis using inv by (auto simp: store_inv_def out_row_ok_def)
  qed
  have own: "\<exists>ce. EvClaimed ce \<in> set T \<and> cl_Entry ce = e" if "e \<in> cl_Entry ` W" for e using that W by auto
  have "(\<forall>ce. EvClaimed ce \<in> set evs \<longrightarrow> EvWritten (cl_Entry ce) \<in> set T) \<and>
      (\<forall>e. EvDelivered e \<in> set evs \<longrightarrow> (\<exists>ce. EvClaimed ce \<in> set T \<and> cl_Entry ce = e))"
  proof (cases p)
    case (RClaimPending n k)
    obtain s1 es where out: "store_ClaimPending s now n (an_lease a) = (s1, es)" by fastforce
    have "set evs \<subseteq> EvClaimed ` set es"
      using st by (auto simp: RClaimPending out Let_def split: prod.splits if_splits)
    then show ?thesis using claimed [OF out] by auto
  next
    case (RPublish t b e k)
    then show ?thesis using st ok own [of e] by (auto simp: delivery_events_def)
  next
    case (RDispatch h e u k)
    then show ?thesis using st ok own [of e] by (auto simp: delivery_events_def)
  qed (use st in \<open>auto simp: Let_def delivery_events_def claim_events_def commit_events_def
      split: prod.splits receipt_ref.splits if_splits\<close>)
  then show ?thesis using o unfolding origin_ok_def set_append by blast
qed

lemma rprog_step_claims:
  assumes inv: "claimer_inv c (set T)" and w: "worker_ok M c (set T) p"
    and st: "rprog_step now a (s, c) p = ((s', c'), evs, p')"
  shows "claimer_inv c' (set (evs @ T))"
proof -
  from w obtain K W R where ok: "prog_ok p M K W R" and K: "K \<subseteq> set T" and R: "held c R"
    unfolding worker_ok_def by blast
  have same: "claimer_inv c'' (set (evs @ T))"
    if "\<And>key. EvDeduped key \<in> set evs \<Longrightarrow> EvCommitted key \<in> set T"
      "\<And>key. EvCommitted key \<in> set evs \<Longrightarrow> \<exists>e. ClaimKeyFromEntry e = Some key \<and> EvDelivered e \<in> set T"
      "\<And>key e. cl_map c'' key = Some e \<Longrightarrow> ce_state e = ClaimDone \<Longrightarrow> EvCommitted key \<in> set (evs @ T)"
      "\<And>r. r \<in> set (cl_receipts c'') \<Longrightarrow> \<not> rc_used r \<Longrightarrow> rc_err r = None" for c''
    using inv that unfolding claimer_inv_def set_append by blast
  show ?thesis
  proof (cases p)
    case (RIdemClaim key l d k)
    obtain m st1 rc err where cl: "Claim (cl_map c) now key l d (an_token a) = (m, st1, rc, err)" by (metis prod_cases4)
    have e: "evs = claim_events key st1" "c' = cl_step c now (ClClaim key l d (an_token a))"
      using st by (auto simp: RIdemClaim claimer_claim_def cl Let_def simp del: cl_step.simps)
    have "EvCommitted key \<in> set T" if "st1 = ClaimDone"
      using cl inv that unfolding claimer_inv_def
      by (auto simp: Claim_def fresh_claim_def split: option.splits if_splits sum.splits)
    moreover have "EvCommitted k1 \<in> set T" if "cl_map c' k1 = Some e1" "ce_state e1 = ClaimDone" for k1 e1
      using step_entry [OF that(1) [unfolded e(2)]] that(2) inv unfolding claimer_inv_def by auto
    moreover have "\<forall>r \<in> set (cl_receipts c'). \<not> rc_used r \<longrightarrow> rc_err r = None"
      using inv Claim_cases [OF cl] by (cases rc) (auto simp: e(2) cl claimer_inv_def)
    ultimately show ?thesis by (intro same) (auto simp: e(1) claim_events_def split: if_splits)
  next
    case (RCommit ref k)
    show ?thesis
    proof (cases ref)
      case (LiveRef i)
      with ok RCommit obtain key e where i: "(i, key) \<in> R" "ClaimKeyFromEntry e = Some key" "EvDelivered e \<in> K" by auto
      then have r: "i < length (cl_receipts c)" "rc_key (cl_receipts c ! i) = key" using R by (auto simp: held_def)
      obtain m r1 err where cm: "Commit (cl_map c) now (cl_receipts c ! i) = (m, r1, err)" by (metis prod_cases3)
      have e: "evs = (if err = None then [EvCommitted key] else [])" "c' = cl_step c now (ClCommit i)"
        using st r by (auto simp: RCommit LiveRef claimer_commit_def commit_events_def cm Let_def simp del: cl_step.simps)
      have un: "\<not> rc_used (cl_receipts c ! i) \<Longrightarrow> rc_err (cl_receipts c ! i) = None" using inv r(1) by (simp add: claimer_inv_def)
      have "EvCommitted k1 \<in> set (evs @ T)" if m1: "cl_map c' k1 = Some e1" and dn: "ce_state e1 = ClaimDone" for k1 e1
        using step_entry [OF m1 [unfolded e(2)]]
      proof (elim disjE exE conjE)
        assume "cl_map c k1 = Some e1"
        then show ?thesis using dn inv by (auto simp: claimer_inv_def)
      next
        fix j e0 assume "ClCommit i = ClCommit j" "\<not> rc_used (cl_receipts c ! j)" "rc_key (cl_receipts c ! j) = k1"
          "owned (cl_map c) (cl_receipts c ! j) = Some e0"
        then show ?thesis using cm un r(2) by (auto simp: e(1) Commit_def)
      qed (use dn in auto)
      moreover have "\<forall>r \<in> set (cl_receipts c'). \<not> rc_used r \<longrightarrow> rc_err r = None"
        using inv r(1) cm by (auto simp: e(2) claimer_inv_def Commit_def Let_def split: if_splits option.splits dest!: set_update_subset_insert [THEN subsetD])
      ultimately show ?thesis using i K by (intro same) (auto simp: e(1) split: if_splits)
    qed (use st inv in \<open>auto simp: RCommit claimer_commit_def commit_events_def\<close>)
  next
    case (RRelease ref k)
    show ?thesis
    proof (cases ref)
      case (LiveRef i)
      have e: "evs = []" "c' = cl_step c now (ClRelease i)"
        using st by (auto simp: RRelease LiveRef claimer_release_def Let_def simp del: cl_step.simps)
      have "EvCommitted k1 \<in> set T" if "cl_map c' k1 = Some e1" "ce_state e1 = ClaimDone" for k1 e1
        using step_entry [OF that(1) [unfolded e(2)]] that(2) inv unfolding claimer_inv_def by auto
      moreover have "\<forall>r \<in> set (cl_receipts c'). \<not> rc_used r \<longrightarrow> rc_err r = None"
        using inv by (auto simp: e(2) claimer_inv_def Release_def Let_def split: if_splits option.splits dest!: set_update_subset_insert [THEN subsetD])
      ultimately show ?thesis by (intro same) (auto simp: e(1))
    qed (use st inv in \<open>auto simp: RRelease claimer_release_def\<close>)
  qed (use st inv in \<open>auto simp: Let_def claimer_inv_def delivery_events_def split: prod.splits if_splits\<close>)
qed

lemma claims_of_plain: "(\<And>ce. EvClaimed ce \<notin> set evs) \<Longrightarrow> claims_of i (evs @ T) = claims_of i T"
  using claims_of_zero [of evs i] by (simp add: claims_of_append)

lemma claims_bounded_row: "out_row_ok M T r \<Longrightarrow> int (claims_of (oe_id (fr_entry r)) T) \<le> M"
  by (auto simp: out_row_ok_def)

lemma rprog_step_bound:
  assumes wf: "store_wf s" and old: "\<forall>i. int (claims_of i T) \<le> M" and inv: "store_inv M U (evs @ T) s'"
    and st: "rprog_step now a (s, c) p = ((s', c'), evs, p')"
  shows "int (claims_of i (evs @ T)) \<le> M"
proof (cases "find_fake s' i")
  case (Some r)
  then have "out_row_ok M (evs @ T) r" "oe_id (fr_entry r) = i" using inv store_wf_id by (auto simp: store_inv_def)
  then show ?thesis using claims_bounded_row by blast
next
  case None
  have "oe_id (cl_Entry ce) \<noteq> i" if ev: "EvClaimed ce \<in> set evs" for ce
  proof (cases p)
    case (RClaimPending n k)
    obtain s1 es where out: "store_ClaimPending s now n (an_lease a) = (s1, es)" by fastforce
    have s': "s' = s1" "ce \<in> set es"
      using st ev by (auto simp: RClaimPending out Let_def store_answer_def split: option.splits if_splits)
    obtain ps where ps: "\<forall>(i, r) \<in> set ps. find_fake s i = Some r \<and> due now r"
        "\<forall>i. find_fake s1 i = (case map_of ps i of Some r \<Rightarrow> Some (claim_row now (an_lease a) r) | None \<Rightarrow> find_fake s i)"
        "es = map (\<lambda>p. \<lparr>cl_Entry = fr_entry (snd p), cl_Attempts = fr_attempts (snd p), cl_LeaseID = an_lease a\<rparr>) ps"
      using claim_result(2) [OF wf out] by blast
    with s'(2) obtain j r where j: "(j, r) \<in> set ps" "cl_Entry ce = fr_entry r" by auto
    then have "oe_id (cl_Entry ce) = j" "find_fake s j \<noteq> None" using ps(1) store_wf_id [OF wf] by auto
    moreover have "find_fake s1 i = None" using None s'(1) by simp
    then have "find_fake s i = None" using ps(2) by (auto split: option.splits)
    ultimately show ?thesis by auto
  qed (use st ev in \<open>auto simp: Let_def delivery_events_def claim_events_def commit_events_def
      split: prod.splits receipt_ref.splits if_splits\<close>)
  then show ?thesis using old claims_of_zero [of evs i] by (simp add: claims_of_append)
qed

lemma rinv_run:
  assumes inv: "rinv M U y" and M: "in_i64 M" and i: "i < length (ry_workers y)"
    and new: "op_names (SRun i a) \<inter> U = {}"
  shows "rinv M (U \<union> op_names (SRun i a)) (rstep r x y now (SRun i a))"
proof -
  obtain s' c' evs p' where st: "rprog_step now a (ry_store y, ry_claimer y) (ry_workers y ! i) = ((s', c'), evs, p')"
    by (metis prod.exhaust)
  have w: "worker_ok M (ry_claimer y) (set (ry_trace y)) (ry_workers y ! i)" using inv i by (simp add: rinv_def)
  have l: "NLease (an_lease a) \<notin> U" using new by auto
  have s: "store_inv M (U \<union> op_names (SRun i a)) (evs @ ry_trace y) s'"
    by (rule store_inv_mono [OF rprog_step_store [OF _ M w l st]]) (use inv in \<open>auto simp: rinv_def\<close>)
  have old: "worker_ok M c' (set (evs @ ry_trace y)) p" if "p \<in> set (ry_workers y)" for p
    by (rule worker_ok_mono [where c = "ry_claimer y" and T = "set (ry_trace y)"])
      (use inv that rprog_step_held [OF st] in \<open>auto simp: rinv_def\<close>)
  have ws: "\<forall>p \<in> set ((ry_workers y)[i := p']). worker_ok M c' (set (evs @ ry_trace y)) p"
    using old rprog_step_worker [OF w st] by (auto dest!: set_update_subset_insert [THEN subsetD])
  have "claimer_inv c' (set (evs @ ry_trace y))"
    by (rule rprog_step_claims [OF _ w st]) (use inv in \<open>simp add: rinv_def\<close>)
  moreover have "origin_ok (set (evs @ ry_trace y))"
    by (rule rprog_step_origin [OF _ _ w st]) (use inv in \<open>auto simp: rinv_def\<close>)
  moreover have "int (claims_of j (evs @ ry_trace y)) \<le> M" for j
    by (rule rprog_step_bound [OF _ _ s st]) (use inv in \<open>auto simp: rinv_def store_inv_def\<close>)
  ultimately show ?thesis using s ws i by (simp add: rinv_def st)
qed

lemma rinv_store:
  assumes "rinv M U y" and "store_inv M U' (evs @ ry_trace y) s" and "\<And>ev. ev \<in> set evs \<Longrightarrow> \<exists>r. ev = EvRemoved r \<or> ev = EvWritten (fr_entry r)"
  shows "rinv M U' (y\<lparr>ry_store := s, ry_trace := evs @ ry_trace y\<rparr>)"
proof -
  have no: "EvClaimed ce \<notin> set evs" "EvDelivered e \<notin> set evs" "EvCommitted k \<notin> set evs" "EvDeduped k \<notin> set evs" for ce e k
    using assms(3) by blast+
  have "origin_ok (set (evs @ ry_trace y))" using assms(1) no unfolding rinv_def origin_ok_def set_append by blast
  moreover have "claimer_inv (ry_claimer y) (set (evs @ ry_trace y))"
    using assms(1) no unfolding rinv_def claimer_inv_def set_append by blast
  moreover have "worker_ok M (ry_claimer y) (set (evs @ ry_trace y)) p" if "p \<in> set (ry_workers y)" for p
    by (rule worker_ok_mono [where c = "ry_claimer y" and T = "set (ry_trace y)"])
      (use assms(1) that in \<open>auto simp: rinv_def\<close>)
  moreover have "int (claims_of i (evs @ ry_trace y)) \<le> M" for i
    using assms(1) no(1) by (simp add: rinv_def claims_of_plain)
  ultimately show ?thesis using assms(2) by (simp add: rinv_def)
qed

lemma cleanup_wf:
  "store_wf s \<Longrightarrow> store_wf (fst (store_CleanupPublished s c n))" "store_wf s \<Longrightarrow> store_wf (fst (store_CleanupDead s c n))"
  by (simp_all add: store_CleanupPublished_def store_CleanupDead_def wf_delete_loop)

lemma rinv_cleanup:
  assumes inv: "rinv M U y" and s': "s' = fst (store_CleanupPublished (ry_store y) t n) \<or> s' = fst (store_CleanupDead (ry_store y) t n)"
  shows "rinv M U (y\<lparr>ry_store := s', ry_trace := removed_rows (ry_store y) s' @ ry_trace y\<rparr>)"
proof (rule rinv_store [OF inv])
  have wf: "store_wf (ry_store y)" using inv by (simp add: rinv_def store_inv_def)
  show "store_inv M U (removed_rows (ry_store y) s' @ ry_trace y) s'"
  proof (rule store_inv_cleanup)
    show "store_inv M U (ry_trace y) (ry_store y)" using inv by (simp add: rinv_def)
    show "store_wf s'" using s' cleanup_wf [OF wf] by auto
    fix i show "find_fake s' i = find_fake (ry_store y) i \<or>
      find_fake s' i = None \<and> (\<exists>r. find_fake (ry_store y) i = Some r \<and> outbox_IsTerminal (fr_status r))"
      using s' cleanup_result [OF wf, of t n i] by (auto simp: outbox_IsTerminal_def)
  qed
qed (auto simp: removed_rows_def)

lemma rinv_rest:
  "rinv M U y \<Longrightarrow> store_inv M U (ry_trace y) s \<Longrightarrow> rinv M U (y\<lparr>ry_store := s\<rparr>)"
  by (simp add: rinv_def)

lemma rinv_step:
  assumes inv: "rinv M U y" and M: "M = rf_MaxAttempts (rl_cfg r)" "in_i64 M" "0 < M" and new: "op_names op \<inter> U = {}"
  shows "rinv M (U \<union> op_names op) (rstep r x y now op)"
proof (cases op)
  case (SWrite e)
  have "rinv M (insert (NEntry (oe_id e)) U) (y\<lparr>ry_store := store_Write (ry_store y) e, ry_trace := [EvWritten e] @ ry_trace y\<rparr>)"
  proof (rule rinv_store [OF inv])
    show "store_inv M (insert (NEntry (oe_id e)) U) ([EvWritten e] @ ry_trace y) (store_Write (ry_store y) e)"
      using store_inv_write [OF _ _ M(3)] inv new by (simp add: rinv_def SWrite)
  qed (auto intro: exI [of _ "pending_row e 0"] simp: pending_row_def)
  then show ?thesis by (simp add: SWrite)
next
  case (SReorder s)
  then show ?thesis using inv by (auto intro!: rinv_rest store_inv_reorder [where s = "ry_store y"] simp: rinv_def)
next
  case SPoll
  have "worker_ok M (ry_claimer y) (set (ry_trace y)) (pollOnce r x)"
    unfolding worker_ok_def by (intro exI conjI, rule ok_pollOnce [OF M(1)]) (auto simp: held_def)
  then show ?thesis using inv by (auto simp: SPoll rinv_def)
next
  case (SRun i a)
  show ?thesis
  proof (cases "i < length (ry_workers y)")
    case True
    then show ?thesis using rinv_run [OF inv M(2)] new by (simp only: SRun)
  next
    case False
    then show ?thesis using inv by (auto simp: SRun rinv_def intro: store_inv_mono)
  qed
next
  case (SCrash i)
  then show ?thesis using inv by (auto simp: rinv_def dest: in_set_takeD in_set_dropD)
next
  case SReclaim
  then show ?thesis using inv store_inv_reclaim [OF _ M(2)] by (auto intro!: rinv_rest simp: M(1) [symmetric] rinv_def)
next
  case (SCleanupPublished t n)
  show ?thesis using rinv_cleanup [OF inv disjI1 [OF refl]] by (simp add: SCleanupPublished Let_def)
next
  case (SCleanupDead t n)
  show ?thesis using rinv_cleanup [OF inv disjI2 [OF refl]] by (simp add: SCleanupDead Let_def)
qed

lemma rinv_start: "0 < M \<Longrightarrow> rinv M {} rstart"
  by (auto simp: rinv_def rstart_def store_inv_def trace_ok_def written_ok_def origin_ok_def claimer_inv_def
      cl_start_def NewInMemClaimer_def NewFakeStore_def find_fake_def store_wf_def claims_of_def)

lemma rinv_exec:
  assumes "rinv M U y" and "M = rf_MaxAttempts (rl_cfg r)" "in_i64 M" "0 < M" and "fresh_names U ops"
  shows "\<exists>U'. rinv M U' (rexec r x y ops)"
  using assms(1,5)
proof (induction ops arbitrary: U y)
  case (Cons top ops)
  obtain t op where top: "top = (t, op)" by (cases top)
  have "rinv M (U \<union> op_names op) (rstep r x y t op)"
    by (rule rinv_step [OF Cons.prems(1) assms(2-4)]) (use Cons.prems(2) top in simp)
  with Cons show ?case by (simp add: top)
qed auto

end
