(* ===== verification/Outbox_Delivery.thy ===== *)
theory Outbox_Delivery
  imports Outbox_Relay
begin

text \<open>
  What the outbox promises as a whole. The theorems are about every interleaving (\<open>rexec\<close>) of producers,
  polls, reclaims, cleanups, crashes and failing calls of \<open>Outbox_Relay\<close>: nothing is lost, attempts are
  bounded, leases fence, processed commands are not acquired again, and an uninterrupted poll publishes
  its batch. The relay keeps the lease discipline (interpretation \<open>relay_leases\<close>).
\<close>

section \<open>Definitions\<close>

subsection \<open>Vocabulary of the properties\<close>

text \<open>
  An entry is processed when the broker or its handler accepted it, or when a handler accepted a command
  with the same claim key.
\<close>

definition processed :: "revent set \<Rightarrow> outbox_entry \<Rightarrow> bool" where
  "processed T e \<longleftrightarrow> EvDelivered e \<in> T \<or>
     (\<exists>key e'. ClaimKeyFromEntry e = Some key \<and> ClaimKeyFromEntry e' = Some key \<and> EvDelivered e' \<in> T)"

text \<open>The lease under which a row is in flight.\<close>

definition row_holder :: "rsys \<Rightarrow> string \<Rightarrow> rname option" where
  "row_holder y i =
     (case find_fake (ry_store y) i of
        Some row \<Rightarrow> if fr_status row = StateClaiming then Some (NLease (fr_leaseID row)) else None
      | None \<Rightarrow> None)"

definition relay_inv :: "relay \<Rightarrow> rname set \<Rightarrow> rsys \<Rightarrow> bool" where
  "relay_inv r U y \<longleftrightarrow>
     0 < rf_MaxAttempts (rl_cfg r) \<and> in_i64 (rf_MaxAttempts (rl_cfg r)) \<and> rinv (rf_MaxAttempts (rl_cfg r)) U y"

abbreviation all_names :: "(instant \<times> rop) list \<Rightarrow> rname set" where
  "all_names ops \<equiv> \<Union>(t, op) \<in> set ops. op_names op"

definition tokens :: "rname set \<Rightarrow> string set" where
  "tokens U = {t. NToken t \<in> U}"

text \<open>How often a claim key was acquired.\<close>

definition acquisitions :: "string \<Rightarrow> rsys \<Rightarrow> nat" where
  "acquisitions key y = length (filter (\<lambda>ev. ev = EvAcquired key) (ry_trace y))"

text \<open>How often a handler was called for a command with the claim key.\<close>

definition handler_calls :: "string \<Rightarrow> rsys \<Rightarrow> nat" where
  "handler_calls key y =
     length (filter (\<lambda>ev. case ev of EvCalled e \<Rightarrow> ClaimKeyFromEntry e = Some key | _ \<Rightarrow> False) (ry_trace y))"

text \<open>
  A program calls a handler only under an acquisition of the claim key of the command that has not been
  used for a call yet; \<open>A\<close> is the unused acquisition the program has.
\<close>

primrec calls_ok :: "rprog \<Rightarrow> string option \<Rightarrow> bool" where
  "calls_ok (RRet err) A = True"
| "calls_ok (RNow k) A = (\<forall>t. calls_ok (k t) None)"
| "calls_ok (RRand n k) A = (\<forall>j. calls_ok (k j) None)"
| "calls_ok (RClaimPending n k) A = (\<forall>res. calls_ok (k res) None)"
| "calls_ok (RPublish t b e k) A = (\<forall>err. calls_ok (k err) None)"
| "calls_ok (RIdemClaim key l d k) A =
     (\<forall>ans. calls_ok (k ans) (if fst ans = ClaimAcquired then Some key else None))"
| "calls_ok (RDispatch h e u k) A = (A \<noteq> None \<and> A = ClaimKeyFromEntry e \<and> (\<forall>err. calls_ok (k err) None))"
| "calls_ok (RCommit ref k) A = (\<forall>err. calls_ok (k err) None)"
| "calls_ok (RRelease ref k) A = (\<forall>err. calls_ok (k err) None)"
| "calls_ok (RMarkPublished i l k) A = (\<forall>res. calls_ok (k res) None)"
| "calls_ok (RMarkRetry i l n t m k) A = (\<forall>res. calls_ok (k res) None)"
| "calls_ok (RMarkDead i l n m k) A = (\<forall>res. calls_ok (k res) None)"

text \<open>The unused acquisitions of the workers and the calls made so far are covered by the acquisitions.\<close>

definition calls_inv :: "rsys \<Rightarrow> string option list \<Rightarrow> bool" where
  "calls_inv y As \<longleftrightarrow> list_all2 calls_ok (ry_workers y) As \<and>
     (\<forall>key. handler_calls key y + count_list As (Some key) \<le> acquisitions key y)"

text \<open>A worker that makes \<open>n\<close> steps without interruption, all answered in the same way.\<close>

fun drive :: "nat \<Rightarrow> instant \<Rightarrow> ranswer \<Rightarrow> (fake_store \<times> cl_sys) \<times> revent list \<times> rprog \<Rightarrow> (fake_store \<times> cl_sys) \<times> revent list \<times> rprog" where
  "drive 0 now a w = w"
| "drive (Suc n) now a (sc, tr, p) = (let (sc', evs, p') = rprog_step now a sc p in drive n now a (sc', evs @ tr, p'))"

text \<open>
  A row that a poll at \<open>now\<close> has to publish: pending, and not waiting for a later retry. Of two such rows
  one without a retry time goes first, then the one with the earlier retry time, then the older one.
\<close>

definition ready :: "instant \<Rightarrow> fake_row \<Rightarrow> bool" where
  "ready now row \<longleftrightarrow> fr_status row = StatePending \<and> (fr_nextRetryAt row = None \<or> the (fr_nextRetryAt row) \<le> now)"

definition goes_first :: "fake_row \<Rightarrow> fake_row \<Rightarrow> bool" where
  "goes_first r r' \<longleftrightarrow>
     fr_nextRetryAt r = None \<and> fr_nextRetryAt r' \<noteq> None \<or>
     fr_nextRetryAt r = fr_nextRetryAt r' \<and> oe_createdAt (fr_entry r) \<le> oe_createdAt (fr_entry r') \<or>
     (\<exists>t t'. fr_nextRetryAt r = Some t \<and> fr_nextRetryAt r' = Some t' \<and> t < t')"

text \<open>\<open>cs\<close> is a batch of at most \<open>n\<close> rows that are ready, the first ones, in their order.\<close>

definition first_ready :: "fake_store \<Rightarrow> instant \<Rightarrow> int \<Rightarrow> (string \<times> fake_row) list \<Rightarrow> bool" where
  "first_ready s now n cs \<longleftrightarrow>
     distinct (map fst cs) \<and>
     (\<forall>(i, row) \<in> set cs. find_fake s i = Some row \<and> ready now row) \<and>
     int (length cs) = min n (int (card {i. \<exists>row. find_fake s i = Some row \<and> ready now row})) \<and>
     sorted_wrt (\<lambda>p q. goes_first (snd p) (snd q)) cs \<and>
     (\<forall>i row. find_fake s i = Some row \<longrightarrow> ready now row \<longrightarrow> (i, row) \<notin> set cs \<longrightarrow>
        (\<forall>p \<in> set cs. goes_first (snd p) row))"

definition published_row :: "instant \<Rightarrow> string \<Rightarrow> fake_row \<Rightarrow> fake_row" where
  "published_row now l row = (claim_row now l row)\<lparr>fr_status := StatePublished, fr_publishedAt := Some now, fr_claimedAt := None\<rparr>"

definition ok_result :: "claimed_entry \<Rightarrow> publish_result" where
  "ok_result e = \<lparr>pu_entry = e, pu_err = None, pu_receipt = NilRef, pu_isCommand = False\<rparr>"

definition sample_relay :: relay where
  "sample_relay = WithCommandDispatch (NewRelay DefaultRelayConfig) (Some 0) [(''device.enqueue'', Some 7)] (Some 0)"

definition sample_env :: relay_env where
  "sample_env = \<lparr>env_MarshalEnvelope = (\<lambda>e. Inr (oe_payload e)), env_time_Parse = (\<lambda>s. Inl (ErrorsNew s)), env_SanitizeError = (\<lambda>e. [])\<rparr>"

definition second_command :: outbox_entry where
  "second_command = sample_command\<lparr>oe_id := ''evt-2'', oe_createdAt := 2, oe_metadata := [(CommandIDMetadataKey, ''c2'')]\<rparr>"

definition sample_event :: outbox_entry where
  "sample_event = sample_command\<lparr>oe_id := ''evt-3'', oe_eventType := ''device.online'', oe_metadata := []\<rparr>"

definition sample_answer :: "string \<Rightarrow> ranswer" where
  "sample_answer s = \<lparr>an_lease = s, an_token = Inr s, an_err = None, an_rand = 0, an_fail = None, an_applied = True\<rparr>"

text \<open>Worker \<open>i\<close> makes one step for each of the drawn names.\<close>

definition worker_runs :: "instant \<Rightarrow> nat \<Rightarrow> string list \<Rightarrow> (instant \<times> rop) list" where
  "worker_runs now i ns = map (\<lambda>s. (now, SRun i (sample_answer s))) ns"

text \<open>An event and a command are published.\<close>

definition sample_schedule :: "(instant \<times> rop) list" where
  "sample_schedule =
     [(0, SWrite sample_event), (0, SWrite sample_command), (1, SPoll)] @
     worker_runs 2 0 [''a1'', ''a2'', ''a3'', ''a4'', ''a5'', ''a6'', ''a7'']"

text \<open>
  Two commands are claimed in one poll. The handler of the second one fails with a passing error, and
  the store fails when the first one is marked as published. Reclaims and polls follow with the default
  configuration and no jitter.
\<close>

definition starved_schedule :: "(instant \<times> rop) list" where
  "starved_schedule =
     [(0, SWrite sample_command), (0, SWrite second_command), (0, SPoll)] @
     worker_runs (1 * second) 0 [''a1'', ''a2'', ''a3'', ''a4''] @
     [(1 * second, SRun 0 ((sample_answer ''a5'')\<lparr>an_err := Some (ErrorsNew ''try again'')\<rparr>)),
      (1 * second, SRun 0 (sample_answer ''a6'')),
      (1 * second, SRun 0 ((sample_answer ''a7'')\<lparr>an_fail := Some (ErrorsNew ''connection reset''), an_applied := False\<rparr>)),
      (62 * second, SReclaim), (72 * second, SPoll)] @
     worker_runs (72 * second) 1 [''b1'', ''b2'', ''b3'', ''b4'', ''b5'', ''b6'', ''b7''] @
     [(92 * second, SPoll)] @ worker_runs (92 * second) 2 [''c1'', ''c2'', ''c3'', ''c4'', ''c5''] @
     [(132 * second, SPoll)] @ worker_runs (132 * second) 3 [''d1'', ''d2'', ''d3'', ''d4'', ''d5''] @
     [(212 * second, SPoll)] @ worker_runs (212 * second) 4 [''e1'', ''e2'', ''e3'']"

text \<open>A second entry with the same claim key follows, and a cleanup after the retention period.\<close>

definition later_schedule :: "(instant \<times> rop) list" where
  "later_schedule =
     [(3, SWrite (sample_command\<lparr>oe_id := ''evt-4''\<rparr>)), (4, SPoll)] @ worker_runs 5 1 [''b1'', ''b2'', ''b3''] @
     [(80 * hour, SCleanupPublished (80 * hour) 1)]"

definition sample_state :: rsys where
  "sample_state = rexec sample_relay sample_env rstart sample_schedule"

definition sample_key :: string where
  "sample_key = the (ClaimKeyFromEntry sample_command)"

section \<open>Lemmas\<close>

lemma relay_cfg: "rl_cfg (WithCommandDispatch (NewRelay cfg) reg disp cl) = WithDefaults cfg"
  by (simp add: WithCommandDispatch_def NewRelay_def Let_def)

lemma default_attempts: "rf_MaxAttempts (WithDefaults cfg) = (if rf_MaxAttempts cfg \<le> 0 then 5 else rf_MaxAttempts cfg)"
  by (simp add: WithDefaults_def Let_def or_default_def DefaultRelayConfig_def)

lemma relay_limits:
  assumes "r = WithCommandDispatch (NewRelay cfg) reg disp cl" and "in_i64 (rf_MaxAttempts cfg)"
  shows "0 < rf_MaxAttempts (rl_cfg r)" and "in_i64 (rf_MaxAttempts (rl_cfg r))"
  using assms(2) by (simp_all add: assms(1) relay_cfg default_attempts in_i64_def min_i64_def max_i64_def)

lemma rinv_reached:
  assumes "r = WithCommandDispatch (NewRelay cfg) reg disp cl" and "in_i64 (rf_MaxAttempts cfg)" and "fresh_names {} ops"
  obtains U where "rinv (rf_MaxAttempts (rl_cfg r)) U (rexec r x rstart ops)"
  using rinv_exec [OF rinv_start refl] relay_limits [OF assms(1,2)] assms(3) by blast

lemma processed_settled: "claimer_inv c T \<Longrightarrow> settled T e \<Longrightarrow> processed T e"
  unfolding processed_def settled_def claimer_inv_def by blast

lemma prog_step_writes: "rprog_step now a (s, c) p = ((s', c'), evs, p') \<Longrightarrow> EvWritten e \<notin> set evs"
  by (cases p) (auto simp: Let_def delivery_events_def claim_events_def commit_events_def
      split: prod.splits receipt_ref.splits if_splits)

lemma step_writes:
  "EvWritten e \<in> set (ry_trace (rstep r x y now op)) \<longleftrightarrow> EvWritten e \<in> set (ry_trace y) \<or> op = SWrite e"
proof (cases op)
  case (SRun i a)
  obtain s' c' evs p' where "rprog_step now a (ry_store y, ry_claimer y) (ry_workers y ! i) = ((s', c'), evs, p')"
    by (metis prod.exhaust)
  with prog_step_writes [OF this] show ?thesis by (simp add: SRun)
qed (auto simp: Let_def removed_rows_def)

lemma exec_writes:
  "EvWritten e \<in> set (ry_trace (rexec r x y ops)) \<longleftrightarrow> EvWritten e \<in> set (ry_trace y) \<or> SWrite e \<in> snd ` set ops"
  by (induction r x y ops rule: rexec.induct) (auto simp: step_writes)

lemma rexec_append: "rexec r x y (xs @ ys) = rexec r x (rexec r x y xs) ys"
  by (induction r x y xs rule: rexec.induct) simp_all

lemma claim_holder:
  assumes "store_wf s" and "store_ClaimPending s now n l = (s', es)"
  shows "find_fake s' i = find_fake s i \<or> (\<exists>row. find_fake s' i = Some row \<and> fr_leaseID row = l)"
  using claim_result(2) [OF assms] by (auto simp: claim_row_def split: option.split)

lemma settle_holder:
  "find_fake (fst (store_MarkPublished s now j l)) i = find_fake s i \<or>
    (\<exists>row. find_fake (fst (store_MarkPublished s now j l)) i = Some row \<and> fr_status row \<noteq> StateClaiming)"
  "find_fake (fst (store_MarkRetry s j l a t m)) i = find_fake s i \<or>
    (\<exists>row. find_fake (fst (store_MarkRetry s j l a t m)) i = Some row \<and> fr_status row \<noteq> StateClaiming)"
  "find_fake (fst (store_MarkDead s now j l a m)) i = find_fake s i \<or>
    (\<exists>row. find_fake (fst (store_MarkDead s now j l a m)) i = Some row \<and> fr_status row \<noteq> StateClaiming)"
  by (auto simp: store_MarkPublished_def store_MarkRetry_def store_MarkDead_def split: option.split)

lemma reclaim_holder:
  assumes "store_wf s"
  shows "find_fake (fst (store_ReclaimStale s now ttl m b d n)) i = find_fake s i \<or>
    (\<exists>row. find_fake (fst (store_ReclaimStale s now ttl m b d n)) i = Some row \<and> fr_status row \<noteq> StateClaiming)"
proof -
  obtain I where a: "\<forall>i \<in> I. \<exists>r. find_fake s i = Some r \<and> fr_status r = StateClaiming"
    and f: "find_fake (fst (store_ReclaimStale s now ttl m b d n)) i =
      (if i \<in> I then map_option (reclaim_row now m b d) (find_fake s i) else find_fake s i)"
    using reclaim_result(2) [OF assms refl] by metis
  have "fr_status (reclaim_row now m b d row) \<noteq> StateClaiming" for row by (simp add: reclaim_row_def Let_def)
  then show ?thesis using a f by (cases "i \<in> I") auto
qed

text \<open>What one step of a program does to one row.\<close>

lemma rprog_step_row:
  assumes wf: "store_wf s" and st: "rprog_step now a (s, c) p = ((s', c'), evs, p')"
  shows "row_move (find_fake s i) (find_fake s' i) \<and>
    (find_fake s' i = find_fake s i \<or>
     (\<exists>row. find_fake s' i = Some row \<and> (fr_status row \<noteq> StateClaiming \<or> fr_leaseID row = an_lease a)))"
proof (cases p)
  case (RClaimPending n k)
  obtain s1 es where out: "store_ClaimPending s now n (an_lease a) = (s1, es)" by fastforce
  have "s' = s1 \<or> s' = s"
    using st store_answer_cases [of a s "(s1, es)"] by (auto simp: RClaimPending out Let_def split: prod.splits)
  then show ?thesis using claim_moves [OF wf out, of i] claim_holder [OF wf out, of i] by auto
next
  case (RMarkPublished j l k)
  then have "s' = fst (store_MarkPublished s now j l) \<or> s' = s"
    using st store_answer_cases [of a s "store_MarkPublished s now j l"] by (auto split: prod.splits)
  then show ?thesis using settle_moves(1) [of s i now j l] settle_holder(1) [of s now j l i] by auto
next
  case (RMarkRetry j l n t m k)
  then have "s' = fst (store_MarkRetry s j l n t m) \<or> s' = s"
    using st store_answer_cases [of a s "store_MarkRetry s j l n t m"] by (auto split: prod.splits)
  then show ?thesis using settle_moves(2) [of s i j l n t m] settle_holder(2) [of s j l n t m i] by auto
next
  case (RMarkDead j l n m k)
  then have "s' = fst (store_MarkDead s now j l n m) \<or> s' = s"
    using st store_answer_cases [of a s "store_MarkDead s now j l n m"] by (auto split: prod.splits)
  then show ?thesis using settle_moves(3) [of s i now j l n m] settle_holder(3) [of s now j l n m i] by auto
qed (use st in \<open>auto simp: Let_def split: prod.splits\<close>)

lemma rinv_entry_name:
  assumes "rinv M U y" and row: "find_fake (ry_store y) i = Some row"
  shows "NEntry i \<in> U"
proof -
  have "EvWritten (fr_entry row) \<in> set (ry_trace y)" "oe_id (fr_entry row) = i"
    using assms store_wf_id [of "ry_store y"] by (auto simp: rinv_def store_inv_def out_row_ok_def)
  then show ?thesis using assms(1) by (auto simp: rinv_def store_inv_def trace_ok_def)
qed

lemma write_is_new: "rinv M U y \<Longrightarrow> NEntry (oe_id e) \<notin> U \<Longrightarrow> find_fake (ry_store y) (oe_id e) = None"
  using rinv_entry_name by (cases "find_fake (ry_store y) (oe_id e)") auto

lemma rstep_row:
  assumes inv: "rinv M U y" and new: "op_names op \<inter> U = {}" and f: "f = find_fake (ry_store y) i"
    and f': "f' = find_fake (ry_store (rstep r x y now op)) i"
  shows "(row_move f f' \<or> f = None \<and> NEntry i \<in> op_names op) \<and>
    (f' = f \<or> f' = None \<or> (\<exists>row. f' = Some row \<and> (fr_status row \<noteq> StateClaiming \<or> NLease (fr_leaseID row) \<in> op_names op)))"
proof -
  have wf: "store_wf (ry_store y)" using inv by (simp add: rinv_def store_inv_def)
  show ?thesis
  proof (cases op)
    case (SWrite e)
    then have "find_fake (ry_store y) (oe_id e) = None" using write_is_new [OF inv] new by simp
    then show ?thesis by (simp add: f f' SWrite store_Write_def pending_row_def)
  next
    case (SReorder s)
    then show ?thesis using store_wf_reorder [OF wf, of s] by (simp add: f f')
  next
    case (SRun j a)
    obtain s' c' evs p' where st: "rprog_step now a (ry_store y, ry_claimer y) (ry_workers y ! j) = ((s', c'), evs, p')"
      by (metis prod.exhaust)
    then have "f' = find_fake s' i \<or> f' = f" by (simp add: f f' SRun)
    then show ?thesis using rprog_step_row [OF wf st, of i] by (auto simp: f [symmetric] SRun)
  next
    case SReclaim
    then have "f' = find_fake (fst (store_ReclaimStale (ry_store y) now (rf_ClaimTTL (rl_cfg r)) (rf_MaxAttempts (rl_cfg r))
         (rf_BaseRetryDelay (rl_cfg r)) (rf_MaxRetryDelay (rl_cfg r)) (rf_ReclaimBatchSize (rl_cfg r)))) i" by (simp add: f')
    then show ?thesis using reclaim_moves [OF wf] reclaim_holder [OF wf] f by metis
  next
    case (SCleanupPublished t n)
    then have "f' = find_fake (fst (store_CleanupPublished (ry_store y) (t - rf_RetentionPeriod (rl_cfg r)) n)) i"
      by (simp add: f' Let_def)
    then show ?thesis using cleanup_moves(1) [OF wf] cleanup_result(1) [OF wf] f by metis
  next
    case (SCleanupDead t n)
    then have "f' = find_fake (fst (store_CleanupDead (ry_store y) (t - rf_DeadRetentionPeriod (rl_cfg r)) n)) i"
      by (simp add: f' Let_def)
    then show ?thesis using cleanup_moves(2) [OF wf] cleanup_result(2) [OF wf] f by metis
  qed (simp_all add: f f')
qed

lemma rexec_foldl: "rexec r x y ops = foldl (\<lambda>y (t, op). rstep r x y t op) y ops"
  by (induction r x y ops rule: rexec.induct) simp_all

lemma fresh_names_run: "fresh_names U ops = fresh_run (\<lambda>(t, op). op_names op) U ops"
  by (induction U ops rule: fresh_names.induct) simp_all

interpretation relay_leases: lease_discipline "\<lambda>y (t, op). rstep r x y t op" "\<lambda>(t, op). op_names op" "relay_inv r" row_holder
  for r :: relay and x :: relay_env
proof unfold_locales
  fix U y and top :: "instant \<times> rop"
  assume "relay_inv r U y" "(case top of (t, op) \<Rightarrow> op_names op) \<inter> U = {}"
  then show "relay_inv r (U \<union> (case top of (t, op) \<Rightarrow> op_names op)) (case top of (t, op) \<Rightarrow> rstep r x y t op)"
    by (cases top) (simp add: relay_inv_def rinv_step)
next
  fix U y i l and top :: "instant \<times> rop"
  assume inv: "relay_inv r U y" and new: "(case top of (t, op) \<Rightarrow> op_names op) \<inter> U = {}"
    and h: "row_holder (case top of (t, op) \<Rightarrow> rstep r x y t op) i = Some l"
  obtain t op where top: "top = (t, op)" by (cases top)
  have "rinv (rf_MaxAttempts (rl_cfg r)) U y" "op_names op \<inter> U = {}" using inv new by (auto simp: relay_inv_def top)
  from rstep_row [OF this refl refl, of i r x t] h
  show "row_holder y i = Some l \<or> l \<in> (case top of (t, op) \<Rightarrow> op_names op)"
    by (auto simp: top row_holder_def split: option.splits if_splits)
qed

lemma relay_inv_reached:
  assumes "r = WithCommandDispatch (NewRelay cfg) reg disp cl" and "in_i64 (rf_MaxAttempts cfg)" and "fresh_names {} ops"
  shows "relay_inv r (all_names ops) (rexec r x rstart ops)"
  using relay_leases.inv_after_run [of r "{}" rstart ops x] relay_limits [OF assms(1,2)] rinv_start assms(3)
  by (simp add: relay_inv_def fresh_names_run rexec_foldl)

text \<open>A terminal row stays as it is until it is removed, and a removed row does not come back.\<close>

lemma terminal_row_step:
  assumes "rinv M U y" and "op_names op \<inter> U = {}" and "NEntry i \<in> U" and "find_fake (ry_store y) i \<in> {Some row, None}"
    and "outbox_IsTerminal (fr_status row)"
  shows "find_fake (ry_store (rstep r x y now op)) i \<in> {Some row, None}"
proof -
  have "row_move (find_fake (ry_store y) i) (find_fake (ry_store (rstep r x y now op)) i)"
    using rstep_row [OF assms(1,2) refl refl, of i r x now] assms(2,3) by auto
  then show ?thesis
    using assms(4,5) outbox_fsm.terminal_no_edge [of "fr_status row"]
    by (auto simp: row_move_def outbox_CanTransitionTo_def split: option.splits)
qed

lemma rinv_lease_name: "rinv M U y \<Longrightarrow> EvClaimed ce \<in> set (ry_trace y) \<Longrightarrow> NLease (cl_LeaseID ce) \<in> U"
  by (auto simp: rinv_def store_inv_def trace_ok_def)

subsection \<open>The claimer inside the relay\<close>

lemma claimer_op_no_extend: "claimer_op a p = Some op \<Longrightarrow> op \<noteq> ClExtend i ttl"
  by (induction a p rule: claimer_op.induct) auto

lemma claimer_op_token: "claimer_op a p = Some op \<Longrightarrow> op_token op \<subseteq> tokens (op_names (SRun i a))"
  by (induction a p rule: claimer_op.induct) (auto simp: op_token_def tokens_def split: sum.splits)

lemma claimer_rstep:
  "ry_claimer (rstep r x y now op) = ry_claimer y \<or>
   (\<exists>i a op'. op = SRun i a \<and> claimer_op a (ry_workers y ! i) = Some op' \<and> ry_claimer (rstep r x y now op) = cl_step (ry_claimer y) now op')"
proof (cases op)
  case (SRun i a)
  obtain s' c' evs p' where st: "rprog_step now a (ry_store y, ry_claimer y) (ry_workers y ! i) = ((s', c'), evs, p')"
    by (metis prod.exhaust)
  from rprog_step_claimer [OF st] show ?thesis by (auto simp: SRun st split: option.splits)
qed (auto simp: Let_def)

lemma cl_inv_rstep:
  assumes "cl_inv (tokens U) (ry_claimer y)" and "op_names op \<inter> U = {}"
  shows "cl_inv (tokens (U \<union> op_names op)) (ry_claimer (rstep r x y now op))"
  using claimer_rstep [of r x y now op]
proof (elim disjE exE conjE)
  assume "ry_claimer (rstep r x y now op) = ry_claimer y"
  then show ?thesis using assms(1) by (auto simp: tokens_def intro: cl_inv_mono)
next
  fix i a op' assume op: "op = SRun i a" and c: "claimer_op a (ry_workers y ! i) = Some op'"
    and s: "ry_claimer (rstep r x y now op) = cl_step (ry_claimer y) now op'"
  have "op_token op' \<subseteq> tokens (op_names op)" unfolding op by (rule claimer_op_token [OF c])
  then have "op_token op' \<inter> tokens U = {}" "tokens U \<union> op_token op' \<subseteq> tokens (U \<union> op_names op)"
    using assms(2) by (auto simp: tokens_def)
  then show ?thesis unfolding s using cl_inv_step [OF assms(1)] cl_inv_mono by blast
qed

lemma done_mark_rstep:
  assumes "cl_inv V (ry_claimer y)" and "cl_map (ry_claimer y) key = Some e" "ce_state e = ClaimDone" "now < ce_expiresAt e"
  shows "cl_map (ry_claimer (rstep r x y now op)) key = Some e"
  using claimer_rstep [of r x y now op] done_mark_step [OF assms] claimer_op_no_extend assms(2) by metis

lemma no_acquisition_rstep:
  assumes "cl_map (ry_claimer y) key = Some e" "ce_state e = ClaimDone" "now < ce_expiresAt e"
  shows "acquisitions key (rstep r x y now op) = acquisitions key y"
proof (cases op)
  case (SRun i a)
  obtain s' c' evs p' where st: "rprog_step now a (ry_store y, ry_claimer y) (ry_workers y ! i) = ((s', c'), evs, p')"
    by (metis prod.exhaust)
  have "EvAcquired key \<notin> set evs"
  proof (cases "ry_workers y ! i")
    case (RIdemClaim k l d g)
    then show ?thesis using st Claim_unexpired [of "cl_map (ry_claimer y)", OF assms(1,3), of l d "an_token a"] assms(2)
      by (cases "k = key") (auto simp: Let_def claimer_claim_def claim_events_def split: prod.splits if_splits)
  qed (use st in \<open>auto simp: Let_def delivery_events_def commit_events_def split: prod.splits receipt_ref.splits if_splits\<close>)
  then have "filter (\<lambda>ev. ev = EvAcquired key) evs = []" by (auto simp: filter_empty_conv)
  then show ?thesis by (simp add: SRun st acquisitions_def)
qed (auto simp: Let_def acquisitions_def removed_rows_def filter_empty_conv)

lemma done_mark_run:
  assumes "cl_inv (tokens U) (ry_claimer y)" and "fresh_names U ops" and "cl_map (ry_claimer y) key = Some e" "ce_state e = ClaimDone"
    and "\<forall>(t, op) \<in> set ops. t < ce_expiresAt e"
  shows "cl_map (ry_claimer (rexec r x y ops)) key = Some e \<and> acquisitions key (rexec r x y ops) = acquisitions key y"
  using assms
proof (induction ops arbitrary: U y)
  case (Cons top ops)
  obtain t op where top: "top = (t, op)" by (cases top)
  have h: "op_names op \<inter> U = {}" "fresh_names (U \<union> op_names op) ops" "t < ce_expiresAt e" "\<forall>(t, op) \<in> set ops. t < ce_expiresAt e"
    using Cons.prems(2,5) by (auto simp: top)
  from Cons.IH [OF cl_inv_rstep [OF Cons.prems(1) h(1)] h(2) done_mark_rstep [OF Cons.prems(1,3,4) h(3)] Cons.prems(4) h(4)]
    no_acquisition_rstep [OF Cons.prems(3,4) h(3)]
  show ?case by (simp add: top)
qed simp

lemma cl_inv_rexec:
  "cl_inv (tokens U) (ry_claimer y) \<Longrightarrow> fresh_names U ops \<Longrightarrow> cl_inv (tokens (U \<union> all_names ops)) (ry_claimer (rexec r x y ops))"
proof (induction ops arbitrary: U y)
  case (Cons top ops)
  obtain t op where top: "top = (t, op)" by (cases top)
  have h: "op_names op \<inter> U = {}" "fresh_names (U \<union> op_names op) ops" using Cons.prems(2) by (auto simp: top)
  from Cons.IH [OF cl_inv_rstep [OF Cons.prems(1) h(1)] h(2)] show ?case by (simp add: top Un_assoc)
qed simp

subsection \<open>Handler calls and acquisitions\<close>

lemma calls_ok_weaken: "calls_ok p None \<Longrightarrow> calls_ok p A"
  by (cases p) auto

lemma calls_settle_dead: "(\<And>stats err. calls_ok (k stats err) None) \<Longrightarrow> calls_ok (settle_dead res n m stats k) None"
  by (simp add: settle_dead_def split: option.split sum.split)

lemma calls_settle_retry: "(\<And>stats err. calls_ok (k stats err) None) \<Longrightarrow> calls_ok (settle_retry r res n m stats k) None"
  by (simp add: settle_retry_def retryDelay_def Let_def split: option.split sum.split)

lemma calls_settle_failed: "(\<And>stats err. calls_ok (k stats err) None) \<Longrightarrow> calls_ok (settle_failed r x res err stats k) None"
  by (simp add: settle_failed_def calls_settle_dead calls_settle_retry Let_def)

lemma calls_settle_published: "(\<And>stats err. calls_ok (k stats err) None) \<Longrightarrow> calls_ok (settle_published res stats k) None"
  by (simp add: settle_published_def split: option.split sum.split)

lemma calls_writeBackOne: "(\<And>stats err. calls_ok (k stats err) None) \<Longrightarrow> calls_ok (writeBackOne r x res stats k) None"
  by (simp add: writeBackOne_def handleFailedEntry_def calls_settle_failed calls_settle_published split: option.split)

lemma calls_writeBackResults:
  "(\<And>stats err. calls_ok (k stats err) None) \<Longrightarrow> calls_ok (writeBackResults r x results stats k) None"
  by (induction results arbitrary: stats) (simp_all add: calls_writeBackOne split: option.split)

lemma calls_dispatchCommand: "(\<And>res. calls_ok (k res) None) \<Longrightarrow> calls_ok (dispatchCommand x e fn k) None"
  by (auto simp: dispatchCommand_def claim_and_dispatch_def split: option.split sum.split claim_state.split
      intro: calls_ok_weaken)

lemma calls_publishBatch: "(\<And>results. calls_ok (k results) None) \<Longrightarrow> calls_ok (publishBatch r x es results k) None"
  by (induction es arbitrary: results)
    (simp_all add: publish_one_def calls_dispatchCommand split: option.split sum.split)

lemma calls_pollOnce: "calls_ok (pollOnce r x) None"
  by (simp add: pollOnce_def calls_publishBatch calls_writeBackResults split: sum.split)

text \<open>What one step of a program adds to the calls and to the acquisitions.\<close>

abbreviation calls_in :: "string \<Rightarrow> revent list \<Rightarrow> nat" where
  "calls_in key evs \<equiv> length (filter (\<lambda>ev. case ev of EvCalled e \<Rightarrow> ClaimKeyFromEntry e = Some key | _ \<Rightarrow> False) evs)"

lemma calls_prog_step:
  assumes "calls_ok p A" and "rprog_step now a (s, c) p = ((s', c'), evs, p')"
  shows "\<exists>A'. calls_ok p' A' \<and> (\<forall>key. calls_in key evs + (if A' = Some key then 1 else 0) \<le>
    length (filter (\<lambda>ev. ev = EvAcquired key) evs) + (if A = Some key then 1 else 0))"
proof (cases p)
  case (RIdemClaim key l d k)
  obtain c1 st rest where cl: "claimer_claim c now key l d (an_token a) = (c1, st, rest)" by (metis prod_cases3)
  have "calls_ok (k (st, rest)) (if st = ClaimAcquired then Some key else None)"
    using spec [OF assms(1) [unfolded RIdemClaim calls_ok.simps], of "(st, rest)"] by simp
  with assms(2) RIdemClaim cl show ?thesis
    by (intro exI [of _ "if st = ClaimAcquired then Some key else None"]) (auto simp: claim_events_def)
next
  case (RDispatch h e u k)
  with assms show ?thesis by (intro exI [of _ None]) (auto simp: delivery_events_def)
next
  case (RClaimPending n k)
  with assms show ?thesis by (intro exI [of _ None]) (auto simp: Let_def filter_empty_conv split: prod.splits)
qed (use assms in \<open>auto simp: delivery_events_def commit_events_def Let_def
    intro!: exI [of _ None] split: prod.splits receipt_ref.splits\<close>)

lemma count_list_update:
  "i < length xs \<Longrightarrow> count_list (xs[i := y]) x + (if xs ! i = x then 1 else 0) = count_list xs x + (if y = x then 1 else 0)"
proof (induction xs arbitrary: i)
  case (Cons z xs)
  show ?case
  proof (cases i)
    case (Suc j)
    with Cons.IH [of j] Cons.prems show ?thesis by (cases "y = x") auto
  qed simp
qed simp

lemma count_list_remove: "count_list (take i xs @ drop (Suc i) xs) x \<le> count_list xs x"
proof -
  have "count_list (drop (Suc i) xs) x \<le> count_list (drop i xs) x"
    by (cases "i < length xs") (simp_all add: Cons_nth_drop_Suc [symmetric])
  moreover have "count_list xs x = count_list (take i xs) x + count_list (drop i xs) x"
    by (metis append_take_drop_id count_list_append)
  ultimately show ?thesis by simp
qed

lemma calls_inv_step:
  assumes inv: "calls_inv y As"
  shows "\<exists>As'. calls_inv (rstep r x y now op) As'"
proof (cases op)
  case SPoll
  then show ?thesis using inv calls_pollOnce [of r x]
    by (intro exI [of _ "As @ [None]"]) (simp add: calls_inv_def list_all2_appendI handler_calls_def acquisitions_def)
next
  case (SRun i a)
  show ?thesis
  proof (cases "i < length (ry_workers y)")
    case True
    obtain s' c' evs p' where st: "rprog_step now a (ry_store y, ry_claimer y) (ry_workers y ! i) = ((s', c'), evs, p')"
      by (metis prod.exhaust)
    have len: "length As = length (ry_workers y)" using inv by (auto simp: calls_inv_def dest: list_all2_lengthD)
    have "calls_ok (ry_workers y ! i) (As ! i)" using inv True by (simp add: calls_inv_def list_all2_nthD)
    from calls_prog_step [OF this st] obtain A' where A': "calls_ok p' A'"
      "\<forall>key. calls_in key evs + (if A' = Some key then 1 else 0) \<le>
        length (filter (\<lambda>ev. ev = EvAcquired key) evs) + (if As ! i = Some key then 1 else 0)" by blast
    have "calls_inv (rstep r x y now op) (As[i := A'])"
      unfolding calls_inv_def
    proof (intro conjI allI)
      show "list_all2 calls_ok (ry_workers (rstep r x y now op)) (As[i := A'])"
        using inv A'(1) True by (simp add: SRun st calls_inv_def list_all2_update_cong)
      fix key
      have "handler_calls key y + count_list As (Some key) \<le> acquisitions key y" using inv by (simp add: calls_inv_def)
      moreover have "count_list (As[i := A']) (Some key) + (if As ! i = Some key then 1 else 0) =
          count_list As (Some key) + (if A' = Some key then 1 else 0)"
        by (rule count_list_update) (simp add: True len)
      ultimately show "handler_calls key (rstep r x y now op) + count_list (As[i := A']) (Some key) \<le> acquisitions key (rstep r x y now op)"
        using A'(2) [rule_format, of key] True by (simp add: SRun st handler_calls_def acquisitions_def)
    qed
    then show ?thesis ..
  qed (use inv SRun in auto)
next
  case (SCrash i)
  have "list_all2 calls_ok (take i (ry_workers y) @ drop (Suc i) (ry_workers y)) (take i As @ drop (Suc i) As)"
    using inv by (intro list_all2_appendI) (auto simp: calls_inv_def)
  moreover have "handler_calls key y + count_list (take i As @ drop (Suc i) As) (Some key) \<le> acquisitions key y" for key
    using inv count_list_remove [of i As "Some key"] by (meson add_left_mono calls_inv_def le_trans)
  ultimately show ?thesis
    by (intro exI [of _ "take i As @ drop (Suc i) As"]) (simp add: SCrash calls_inv_def handler_calls_def acquisitions_def)
qed (use inv in \<open>auto simp: calls_inv_def handler_calls_def acquisitions_def removed_rows_def Let_def filter_empty_conv comp_def\<close>)

lemma calls_inv_exec: "calls_inv y As \<Longrightarrow> \<exists>As'. calls_inv (rexec r x y ops) As'"
proof (induction ops arbitrary: y As)
  case (Cons top ops)
  obtain t op where top: "top = (t, op)" by (cases top)
  from calls_inv_step [OF Cons.prems] obtain As1 where "calls_inv (rstep r x y t op) As1" by blast
  from Cons.IH [OF this] show ?case by (simp add: top)
qed auto

lemma calls_covered: "handler_calls key (rexec r x rstart ops) \<le> acquisitions key (rexec r x rstart ops)"
proof -
  have "calls_inv rstart []" by (simp add: calls_inv_def rstart_def handler_calls_def acquisitions_def)
  from calls_inv_exec [OF this, of r x ops] obtain As where "calls_inv (rexec r x rstart ops) As" by blast
  then have "handler_calls key (rexec r x rstart ops) + count_list As (Some key) \<le> acquisitions key (rexec r x rstart ops)"
    unfolding calls_inv_def by blast
  then show ?thesis by simp
qed

lemma handler_calls_mono: "handler_calls key y \<le> handler_calls key (rexec r x y ops)"
proof (induction ops arbitrary: y)
  case (Cons top ops)
  obtain t op where top: "top = (t, op)" by (cases top)
  have "handler_calls key y \<le> handler_calls key (rstep r x y t op)"
    by (cases op) (auto simp: handler_calls_def Let_def split: prod.splits)
  with Cons [of "rstep r x y t op"] show ?case by (simp add: top)
qed simp

subsection \<open>An uninterrupted poll\<close>

lemma drive_publishBatch:
  assumes "rl_cmdDispatch r = []" and "an_err a = None" and "\<forall>e \<in> set es. \<exists>b. env_MarshalEnvelope x (cl_Entry e) = Inr b"
  shows "drive (length es + m) now a (sc, tr, publishBatch r x es rs k) =
    drive m now a (sc, rev (map (\<lambda>e. EvDelivered (cl_Entry e)) es) @ tr, k (rs @ map ok_result es))"
  using assms(3)
proof (induction es arbitrary: rs tr)
  case (Cons e es)
  obtain s c where sc: "sc = (s, c)" by (cases sc)
  obtain b where b: "env_MarshalEnvelope x (cl_Entry e) = Inr b" using Cons.prems by auto
  have "drive (length (e # es) + m) now a (sc, tr, publishBatch r x (e # es) rs k) =
      drive (length es + m) now a (sc, EvDelivered (cl_Entry e) # tr, publishBatch r x es (rs @ [ok_result e]) k)"
    using assms(1,2) b by (simp add: publish_one_def commandDispatchFor_def delivery_events_def ok_result_def sc)
  with Cons show ?case by simp
qed simp

lemma drive_writeBack:
  assumes "an_fail a = None" and "distinct (map fst ps)" and "\<forall>(i, row) \<in> set ps. find_fake s i = Some (claim_row now l row) \<and> oe_id (fr_entry row) = i"
    and "es = map (\<lambda>p. \<lparr>cl_Entry = fr_entry (snd p), cl_Attempts = fr_attempts (snd p), cl_LeaseID = l\<rparr>) ps"
  shows "\<exists>s' stats'. drive (length es + m) now a ((s, c), tr, writeBackResults r x (map ok_result es) stats k) =
      drive m now a ((s', c), tr, k stats' None) \<and>
    (\<forall>i. find_fake s' i = (case map_of ps i of Some row \<Rightarrow> Some (published_row now l row) | None \<Rightarrow> find_fake s i))"
  using assms(2-4)
proof (induction ps arbitrary: s es stats)
  case (Cons p ps)
  obtain i row where p: "p = (i, row)" by (cases p)
  define ces where "ces = map (\<lambda>p. \<lparr>cl_Entry = fr_entry (snd p), cl_Attempts = fr_attempts (snd p), cl_LeaseID = l\<rparr>) ps"
  define s1 where "s1 = AList.update i (published_row now l row) s"
  have f: "find_fake s i = Some (claim_row now l row)" "oe_id (fr_entry row) = i" using Cons.prems(2) by (auto simp: p)
  have h: "holds_lease s i l = Some (claim_row now l row)" using f by (simp add: holds_lease_iff claim_row_def)
  have step: "drive (length es + m) now a ((s, c), tr, writeBackResults r x (map ok_result es) stats k) =
      drive (length ces + m) now a ((s1, c), tr, writeBackResults r x (map ok_result ces) (bucket stats False incPublished) k)"
    using assms(1) f(2) h Cons.prems(3)
    by (simp add: p ces_def s1_def ok_result_def writeBackOne_def settle_published_def outbox_Transition_def
        outbox_CanTransitionTo_def store_answer_def store_MarkPublished_def published_row_def)
  have "j \<noteq> i" if "(j, row') \<in> set ps" for j row' using Cons.prems(1) that by (auto simp: p intro: rev_image_eqI)
  then have rest: "distinct (map fst ps)" "\<forall>(j, row) \<in> set ps. find_fake s1 j = Some (claim_row now l row) \<and> oe_id (fr_entry row) = j"
    using Cons.prems(1,2) by (auto simp: p s1_def)
  from Cons.IH [OF rest ces_def, of "bucket stats False incPublished"] obtain s' stats' where
      d: "drive (length ces + m) now a ((s1, c), tr, writeBackResults r x (map ok_result ces) (bucket stats False incPublished) k) =
        drive m now a ((s', c), tr, k stats' None)"
      and f': "\<forall>i. find_fake s' i = (case map_of ps i of Some row \<Rightarrow> Some (published_row now l row) | None \<Rightarrow> find_fake s1 i)" by blast
  have "map_of ps i = None" using Cons.prems(1) by (simp add: p map_of_eq_None_iff)
  then have "\<forall>j. find_fake s' j = (case map_of (p # ps) j of Some row \<Rightarrow> Some (published_row now l row) | None \<Rightarrow> find_fake s j)"
    using f' by (auto simp: p s1_def split: option.split)
  then show ?case using step d by auto
qed auto

lemma drive_poll:
  assumes "store_wf s" and "rl_cmdDispatch r = []" and "an_err a = None" "an_fail a = None"
    and "cs = claim_candidates s now (rf_BatchSize (rl_cfg r))"
    and "\<forall>(i, row) \<in> set cs. \<exists>b. env_MarshalEnvelope x (fr_entry row) = Inr b"
  shows "\<exists>s' tr. drive (1 + 2 * length cs) now a ((s, c), [], pollOnce r x) = ((s', c), tr, RRet None) \<and>
    List.map_filter (\<lambda>ev. case ev of EvDelivered e \<Rightarrow> Some e | _ \<Rightarrow> None) (rev tr) = map (\<lambda>p. fr_entry (snd p)) cs \<and>
    (\<forall>i. find_fake s' i = (case map_of cs i of Some row \<Rightarrow> Some (published_row now (an_lease a) row) | None \<Rightarrow> find_fake s i))"
proof -
  let ?es = "map (\<lambda>p. \<lparr>cl_Entry = fr_entry (snd p), cl_Attempts = fr_attempts (snd p), cl_LeaseID = an_lease a\<rparr>) cs"
  obtain s1 where out: "store_ClaimPending s now (rf_BatchSize (rl_cfg r)) (an_lease a) = (s1, ?es)"
    by (simp add: store_ClaimPending_def Let_def assms(5))
  have d: "distinct (map fst cs)" unfolding assms(5) by (rule candidates_distinct [OF assms(1)])
  have s1: "find_fake s1 i = (case map_of cs i of Some row \<Rightarrow> Some (claim_row now (an_lease a) row) | None \<Rightarrow> find_fake s i)" for i
    using out find_claim_fold [OF d] by (auto simp: store_ClaimPending_def Let_def assms(5))
  show ?thesis
  proof (cases "cs = []")
    case True
    then show ?thesis using out s1 assms(4)
      by (auto simp: pollOnce_def store_answer_def Let_def map_filter_def)
  next
    case False
    let ?w = "\<lambda>results. writeBackResults r x results \<lparr>ps_event = zero_outcomes, ps_command = zero_outcomes\<rparr> (\<lambda>stats err. RRet err)"
    have rows: "\<forall>(i, row) \<in> set cs. find_fake s1 i = Some (claim_row now (an_lease a) row) \<and> oe_id (fr_entry row) = i"
      using d candidates_mem [OF assms(1)] store_wf_id [OF assms(1)] by (auto simp: s1 assms(5))
    have "drive (1 + 2 * length cs) now a ((s, c), [], pollOnce r x) =
        drive (length ?es + length ?es) now a ((s1, c), map EvClaimed ?es, publishBatch r x ?es [] ?w)"
      using False out assms(4) by (simp add: pollOnce_def store_answer_def Let_def mult_2)
    also have "\<dots> = drive (length ?es + 0) now a ((s1, c), rev (map (\<lambda>e. EvDelivered (cl_Entry e)) ?es) @ map EvClaimed ?es, ?w (map ok_result ?es))"
    proof -
      have "\<forall>e \<in> set ?es. \<exists>b. env_MarshalEnvelope x (cl_Entry e) = Inr b" using assms(6) by fastforce
      from drive_publishBatch [OF assms(2,3) this, of "length ?es" now "(s1, c)" "map EvClaimed ?es" "[]" ?w]
      show ?thesis by simp
    qed
    finally have run: "drive (1 + 2 * length cs) now a ((s, c), [], pollOnce r x) = \<dots>" .
    let ?tr = "rev (map (\<lambda>e. EvDelivered (cl_Entry e)) ?es) @ map EvClaimed ?es"
    obtain s' where "drive (length ?es + 0) now a ((s1, c), ?tr, ?w (map ok_result ?es)) = ((s', c), ?tr, RRet None)"
      and "\<forall>i. find_fake s' i = (case map_of cs i of Some row \<Rightarrow> Some (published_row now (an_lease a) row) | None \<Rightarrow> find_fake s1 i)"
      using drive_writeBack [OF assms(4) d rows refl, of 0 c ?tr r x _ "\<lambda>stats err. RRet err"] by auto
    moreover have "List.map_filter (\<lambda>ev. case ev of EvDelivered e \<Rightarrow> Some e | _ \<Rightarrow> None) (rev ?tr) = map (\<lambda>p. fr_entry (snd p)) cs"
      by (simp add: map_filter_def comp_def rev_map)
    ultimately show ?thesis unfolding run by (intro exI conjI) (auto simp: s1 split: option.split)
  qed
qed

subsection \<open>The batch of a poll\<close>

lemma due_ready: "due now row \<longleftrightarrow> ready now row"
  by (auto simp: due_def ready_def split: option.splits)

lemma key_goes_first: "claim_key p \<le> claim_key q \<longleftrightarrow> goes_first (snd p) (snd q)"
  by (auto simp: claim_key_def goes_first_def less_eq_prod_def less_prod_def split: option.splits)

lemma candidates_take:
  "0 \<le> n \<Longrightarrow> claim_candidates s now n = take (nat n) (sort_key claim_key (filter (\<lambda>p. due now (snd p)) s))"
  by (auto simp: claim_candidates_def Let_def)

lemma candidates_first_ready:
  assumes wf: "store_wf s" and n: "0 \<le> n"
  shows "first_ready s now n (claim_candidates s now n)"
proof -
  define xs where "xs = sort_key claim_key (filter (\<lambda>p. due now (snd p)) s)"
  have cs: "claim_candidates s now n = take (nat n) xs" unfolding xs_def by (rule candidates_take [OF n])
  have mem: "(i, row) \<in> set xs \<longleftrightarrow> find_fake s i = Some row \<and> ready now row" for i row
    by (simp add: xs_def due_ready store_wf_find [OF wf])
  have srt: "sorted (map claim_key xs)" by (simp add: xs_def)
  have "card {i. \<exists>row. find_fake s i = Some row \<and> ready now row} = card (fst ` set xs)"
    by (intro arg_cong [where f = card]) (force simp: mem [symmetric])
  also have "\<dots> = length xs"
  proof -
    have "distinct (map fst (filter (\<lambda>p. due now (snd p)) s))" using wf by (simp add: store_wf_def distinct_map_filter)
    then have "distinct (map fst xs)"
      unfolding xs_def by (metis mset_eq_imp_distinct_iff mset_map mset_sort)
    then show ?thesis by (metis distinct_card length_map list.set_map)
  qed
  finally have "int (length (take (nat n) xs)) = min n (int (card {i. \<exists>row. find_fake s i = Some row \<and> ready now row}))"
    using n by simp
  moreover have "sorted_wrt (\<lambda>p q. goes_first (snd p) (snd q)) (take (nat n) xs)"
    using srt by (simp add: sorted_wrt_take sorted_wrt_map key_goes_first [symmetric])
  moreover have "goes_first (snd p) row" if "find_fake s i = Some row" "ready now row" "(i, row) \<notin> set (take (nat n) xs)" "p \<in> set (take (nat n) xs)" for i row p
    using sorted_take_drop [OF srt that(4) _ that(3)] that(1,2) mem key_goes_first [of p "(i, row)"] by simp
  moreover have "find_fake s i = Some row \<and> ready now row" if "(i, row) \<in> set (take (nat n) xs)" for i row
    using mem in_set_takeD [OF that] by blast
  ultimately show ?thesis
    using candidates_distinct [OF wf, of now n] unfolding first_ready_def cs by blast
qed

lemma new_relay_batch: "0 \<le> rf_BatchSize (rl_cfg (NewRelay cfg))" "rl_cmdDispatch (NewRelay cfg) = []"
  by (simp_all add: NewRelay_def WithDefaults_def or_default_def DefaultRelayConfig_def Let_def)

subsection \<open>Sample runs\<close>

lemma sample_fresh: "fresh_names {} sample_schedule" "fresh_names {} (sample_schedule @ later_schedule)"
    "fresh_names {} (sample_schedule @ take 5 later_schedule)"
  unfolding sample_schedule_def later_schedule_def worker_runs_def sample_answer_def sample_command_def sample_event_def by simp_all

lemma sample_limits: "in_i64 (rf_MaxAttempts DefaultRelayConfig)" "rf_MaxAttempts (rl_cfg sample_relay) = 5"
  by code_simp+

lemma sample_run:
  "map_option (\<lambda>row. fr_status row) (find_fake (ry_store sample_state) ''evt-3'') = Some StatePublished"
  "list_all (\<lambda>ev. case ev of EvRemoved row \<Rightarrow> False | _ \<Rightarrow> True) (ry_trace sample_state)"
  "EvDelivered sample_event \<in> set (ry_trace sample_state)"
  "EvClaimed \<lparr>cl_Entry = sample_event, cl_Attempts = 0, cl_LeaseID = ''a1''\<rparr> \<in> set (ry_trace sample_state)"
  "holds_lease (ry_store sample_state) ''evt-3'' ''a1'' = None"
  "cl_map (ry_claimer sample_state) sample_key = Some \<lparr>ce_state = ClaimDone, ce_token = ''a3'', ce_expiresAt = 2 + 24 * hour\<rparr>"
  "acquisitions sample_key sample_state = 1"
  "handler_calls sample_key sample_state = 1"
  by code_simp+

subsection \<open>Properties\<close>

text \<open>
  C12. The outbox loses nothing: under any interleaving of producers, polls, reclaims, cleanups, crashes
  and failing calls, every entry that was written is still in the store with its content, or was removed
  after it was published or dead-lettered; and an entry that is or was published has been accepted by
  the broker or its handler, or is a command of which a handler accepted one with the same claim key.
\<close>

theorem outbox_loses_nothing:
  assumes "r = WithCommandDispatch (NewRelay cfg) reg disp cl" and "in_i64 (rf_MaxAttempts cfg)" and "fresh_names {} ops"
    and "SWrite e \<in> snd ` set ops" and "y = rexec r x rstart ops"
  shows "\<exists>row. fr_entry row = e \<and>
    (find_fake (ry_store y) (oe_id e) = Some row \<or> EvRemoved row \<in> set (ry_trace y) \<and> outbox_IsTerminal (fr_status row)) \<and>
    (fr_status row = StatePublished \<longrightarrow> processed (set (ry_trace y)) e)"
proof -
  obtain U where inv: "rinv (rf_MaxAttempts (rl_cfg r)) U y" using rinv_reached [OF assms(1-3)] assms(5) by blast
  then have c: "settled (set (ry_trace y)) e \<Longrightarrow> processed (set (ry_trace y)) e" for e
    using processed_settled by (auto simp: rinv_def)
  have "EvWritten e \<in> set (ry_trace y)" using assms(4) by (simp add: assms(5) exec_writes)
  with inv consider (row) row where "find_fake (ry_store y) (oe_id e) = Some row" "fr_entry row = e"
    | (gone) row where "EvRemoved row \<in> set (ry_trace y)" "fr_entry row = e" "outbox_IsTerminal (fr_status row)"
        "fr_status row = StatePublished \<longrightarrow> settled (set (ry_trace y)) e"
    unfolding rinv_def store_inv_def written_ok_def by blast
  then show ?thesis
  proof cases
    case row
    then have "out_row_ok (rf_MaxAttempts (rl_cfg r)) (ry_trace y) row" using inv by (simp add: rinv_def store_inv_def)
    then show ?thesis using row c by (auto simp: out_row_ok_def)
  next
    case gone
    then show ?thesis using c by auto
  qed
qed

theorem outbox_loses_nothing_witness:
  "\<exists>row. find_fake (ry_store sample_state) ''evt-3'' = Some row \<and> fr_entry row = sample_event \<and> fr_status row = StatePublished \<and>
     processed (set (ry_trace sample_state)) sample_event"
proof -
  have "SWrite sample_event \<in> snd ` set sample_schedule" by (simp add: sample_schedule_def)
  from outbox_loses_nothing [OF sample_relay_def sample_limits(1) sample_fresh(1) this sample_state_def]
  obtain row where row: "fr_entry row = sample_event" "fr_status row = StatePublished \<longrightarrow> processed (set (ry_trace sample_state)) sample_event"
    "find_fake (ry_store sample_state) ''evt-3'' = Some row \<or> EvRemoved row \<in> set (ry_trace sample_state)"
    by (auto simp: sample_event_def)
  moreover have "EvRemoved row \<notin> set (ry_trace sample_state)" using sample_run(2) by (auto simp: list_all_iff)
  ultimately show ?thesis using sample_run(1) by auto
qed

text \<open>
  C14. The relay delivers only what was written, and tries each entry at most \<^verbatim>\<open>MaxAttempts\<close> times: every
  entry that the broker or a handler accepted was written by a producer, and no entry is ever claimed
  more often than the configured number of attempts, whether its attempts failed, crashed or succeeded.
\<close>

theorem relay_attempts_bounded:
  assumes "r = WithCommandDispatch (NewRelay cfg) reg disp cl" and "in_i64 (rf_MaxAttempts cfg)" and "fresh_names {} ops"
    and "y = rexec r x rstart ops"
  shows "(EvDelivered e \<in> set (ry_trace y) \<longrightarrow> SWrite e \<in> snd ` set ops) \<and>
    int (claims_of i (ry_trace y)) \<le> rf_MaxAttempts (rl_cfg r)"
proof -
  obtain U where inv: "rinv (rf_MaxAttempts (rl_cfg r)) U y" using rinv_reached [OF assms(1-3)] assms(4) by blast
  have "EvWritten e \<in> set (ry_trace y)" if "EvDelivered e \<in> set (ry_trace y)"
    using inv that unfolding rinv_def origin_ok_def by blast
  then show ?thesis using inv by (auto simp: rinv_def assms(4) exec_writes rstart_def)
qed

theorem relay_attempts_bounded_witness:
  "SWrite sample_event \<in> snd ` set sample_schedule \<and> int (claims_of ''evt-3'' (ry_trace sample_state)) \<le> 5"
  using relay_attempts_bounded [OF sample_relay_def sample_limits(1) sample_fresh(1) sample_state_def, of sample_event "''evt-3''"]
  by (simp add: sample_run sample_limits)

text \<open>
  C13. The relay is fenced: whatever happens later, a published or dead row never changes again until it
  is removed and does not come back, and once the lease of a claimed entry is lost (the row was
  reclaimed, claimed again or settled), every settlement under that lease is refused and changes nothing.
\<close>

theorem relay_leases_fence:
  assumes "r = WithCommandDispatch (NewRelay cfg) reg disp cl" and "in_i64 (rf_MaxAttempts cfg)"
    and "fresh_names {} (before @ later)" and "y = rexec r x rstart before" and "z = rexec r x y later"
  shows "(find_fake (ry_store y) i = Some row \<longrightarrow> outbox_IsTerminal (fr_status row) \<longrightarrow> find_fake (ry_store z) i \<in> {Some row, None}) \<and>
    (EvClaimed ce \<in> set (ry_trace y) \<longrightarrow> holds_lease (ry_store y) i (cl_LeaseID ce) = None \<longrightarrow>
      store_MarkPublished (ry_store z) now i (cl_LeaseID ce) = (ry_store z, False) \<and>
      store_MarkRetry (ry_store z) i (cl_LeaseID ce) n t m = (ry_store z, False) \<and>
      store_MarkDead (ry_store z) now i (cl_LeaseID ce) n m = (ry_store z, False))"
proof -
  let ?U = "all_names before"
  have fr: "fresh_names {} before" "fresh_run (\<lambda>(t, op). op_names op) ?U later"
    using assms(3) by (simp_all add: fresh_names_run fresh_run_append)
  have inv: "relay_inv r ?U y" using relay_inv_reached [OF assms(1,2) fr(1)] assms(4) by simp
  then have y: "rinv (rf_MaxAttempts (rl_cfg r)) ?U y" by (simp add: relay_inv_def)
  have z: "z = foldl (\<lambda>y (t, op). rstep r x y t op) y later" by (simp add: assms(5) rexec_foldl)
  have "find_fake (ry_store z) i \<in> {Some row, None}"
    if row: "find_fake (ry_store y) i = Some row" "outbox_IsTerminal (fr_status row)"
    unfolding z
  proof (rule relay_leases.kept_by_run [OF inv fr(2)])
    show "{NEntry i} \<subseteq> ?U" using rinv_entry_name [OF y row(1)] by simp
    fix U y and top :: "instant \<times> rop"
    assume h: "relay_inv r U y" "(case top of (t, op) \<Rightarrow> op_names op) \<inter> U = {}" "{NEntry i} \<subseteq> U"
      "find_fake (ry_store y) i \<in> {Some row, None}"
    obtain t op where top: "top = (t, op)" by (cases top)
    show "find_fake (ry_store (case top of (t, op) \<Rightarrow> rstep r x y t op)) i \<in> {Some row, None}"
      unfolding top prod.case by (rule terminal_row_step [OF _ _ _ h(4) row(2)]) (use h in \<open>auto simp: relay_inv_def top\<close>)
  qed (use row(1) in simp)
  moreover have "holds_lease (ry_store z) i (cl_LeaseID ce) = None"
    if "EvClaimed ce \<in> set (ry_trace y)" "holds_lease (ry_store y) i (cl_LeaseID ce) = None"
  proof -
    have "row_holder y i \<noteq> Some (NLease (cl_LeaseID ce))"
      using that(2) by (auto simp: row_holder_def holds_lease_def split: option.splits if_splits)
    with relay_leases.lost_stays_lost [OF inv fr(2) rinv_lease_name [OF y that(1)]] z
    have "row_holder z i \<noteq> Some (NLease (cl_LeaseID ce))" by simp
    then show ?thesis by (auto simp: row_holder_def holds_lease_def split: option.splits)
  qed
  ultimately show ?thesis by (auto simp: store_MarkPublished_def store_MarkRetry_def store_MarkDead_def)
qed

theorem relay_leases_fence_witness:
  "store_MarkPublished (ry_store (rexec sample_relay sample_env sample_state later_schedule)) 9 ''evt-3'' ''a1'' =
     (ry_store (rexec sample_relay sample_env sample_state later_schedule), False) \<and>
   (\<exists>row. find_fake (ry_store sample_state) ''evt-3'' = Some row \<and>
      find_fake (ry_store (rexec sample_relay sample_env sample_state later_schedule)) ''evt-3'' \<in> {Some row, None})"
proof -
  note fence = relay_leases_fence [OF sample_relay_def sample_limits(1) sample_fresh(2) sample_state_def refl, where i = "''evt-3''"]
  obtain row where row: "find_fake (ry_store sample_state) ''evt-3'' = Some row" "outbox_IsTerminal (fr_status row)"
    using sample_run(1) by (auto simp: outbox_IsTerminal_def)
  have "store_MarkPublished (ry_store (rexec sample_relay sample_env sample_state later_schedule)) 9 ''evt-3'' ''a1'' =
     (ry_store (rexec sample_relay sample_env sample_state later_schedule), False)"
    using fence [where ce = "\<lparr>cl_Entry = sample_event, cl_Attempts = 0, cl_LeaseID = ''a1''\<rparr>" and now = 9] sample_run(4,5) by simp
  with fence [where row = row] row show ?thesis by blast
qed

text \<open>
  C15. A command that was processed is not processed a second time while its done mark lasts. A handler is
  called only under an acquisition of the claim key of its command, once per acquisition; and from the
  commit of a key to the expiry of its done mark no relay acquires the key, however many entries with
  that key are written, however often they are retried, and whoever crashes. So all calls of handlers
  for the key belong to acquisitions from before, and when each of these has had its call, the handler
  is not called again.
\<close>

theorem processed_command_not_called_again:
  assumes "fresh_names {} (before @ later)" and "y = rexec r x rstart before" and "z = rexec r x y later"
    and "cl_map (ry_claimer y) key = Some e" "ce_state e = ClaimDone" and "\<forall>(t, op) \<in> set later. t < ce_expiresAt e"
  shows "cl_map (ry_claimer z) key = Some e \<and> acquisitions key z = acquisitions key y \<and>
    handler_calls key z \<le> acquisitions key y \<and>
    (handler_calls key y = acquisitions key y \<longrightarrow> handler_calls key z = handler_calls key y)"
proof -
  have fr: "fresh_names {} before" "fresh_names (all_names before) later"
    using assms(1) by (simp_all add: fresh_names_run fresh_run_append)
  have "cl_inv (tokens {}) (ry_claimer rstart)" using cl_inv_start by (simp add: rstart_def tokens_def)
  from cl_inv_rexec [OF this fr(1)] have "cl_inv (tokens (all_names before)) (ry_claimer y)" by (simp add: assms(2))
  from done_mark_run [OF this fr(2) assms(4-6)]
  have "cl_map (ry_claimer z) key = Some e" "acquisitions key z = acquisitions key y" by (simp_all add: assms(3))
  moreover have "handler_calls key z \<le> acquisitions key z"
    using calls_covered [of key r x "before @ later"] by (simp add: assms(2,3) rexec_append)
  moreover have "handler_calls key y \<le> handler_calls key z" unfolding assms(3) by (rule handler_calls_mono)
  ultimately show ?thesis by simp
qed

theorem processed_command_not_called_again_witness:
  "handler_calls sample_key (rexec sample_relay sample_env sample_state (take 5 later_schedule)) = 1"
proof -
  have "\<forall>(t, op) \<in> set (take 5 later_schedule). t < 2 + 24 * hour"
    by code_simp
  with processed_command_not_called_again [OF sample_fresh(3) sample_state_def refl sample_run(6)]
  show ?thesis by (simp add: sample_run(7,8))
qed

text \<open>
  C16. A poll makes progress: for a relay that dispatches no commands, when every entry that is ready can
  be encoded, the broker accepts and the store answers, a poll ends after one claim and two calls per
  entry without an error. It has handed to the broker the rows that are pending and not waiting for a
  later retry, up to the batch size, those without a retry time first, then by retry time, then by age;
  and it has marked exactly these rows as published.
\<close>

theorem poll_publishes_batch:
  assumes "store_wf s" and "r = NewRelay cfg" and "an_err a = None" "an_fail a = None"
    and "\<And>i row. find_fake s i = Some row \<Longrightarrow> ready now row \<Longrightarrow> \<exists>b. env_MarshalEnvelope x (fr_entry row) = Inr b"
  shows "\<exists>cs s' tr. first_ready s now (rf_BatchSize (rl_cfg r)) cs \<and>
    drive (1 + 2 * length cs) now a ((s, c), [], pollOnce r x) = ((s', c), tr, RRet None) \<and>
    List.map_filter (\<lambda>ev. case ev of EvDelivered e \<Rightarrow> Some e | _ \<Rightarrow> None) (rev tr) = map (\<lambda>p. fr_entry (snd p)) cs \<and>
    (\<forall>i. find_fake s' i = (case map_of cs i of Some row \<Rightarrow> Some (published_row now (an_lease a) row) | None \<Rightarrow> find_fake s i))"
proof -
  define cs where "cs = claim_candidates s now (rf_BatchSize (rl_cfg r))"
  have first: "first_ready s now (rf_BatchSize (rl_cfg r)) cs"
    unfolding cs_def assms(2) by (rule candidates_first_ready [OF assms(1) new_relay_batch(1)])
  then have "\<forall>(i, row) \<in> set cs. \<exists>b. env_MarshalEnvelope x (fr_entry row) = Inr b"
    using assms(5) unfolding first_ready_def by blast
  from drive_poll [OF assms(1) _ assms(3,4) cs_def this, of c] first new_relay_batch(2) assms(2) show ?thesis by auto
qed

theorem poll_publishes_batch_witness:
  "\<exists>s' tr. drive 3 5 (sample_answer ''l'') ((store_Write NewFakeStore sample_event, cl_start), [], pollOnce (NewRelay DefaultRelayConfig) sample_env) =
       ((s', cl_start), tr, RRet None) \<and>
     List.map_filter (\<lambda>ev. case ev of EvDelivered e \<Rightarrow> Some e | _ \<Rightarrow> None) (rev tr) = [sample_event] \<and>
     map_option (\<lambda>row. fr_status row) (find_fake s' ''evt-3'') = Some StatePublished"
proof -
  let ?s = "store_Write NewFakeStore sample_event" and ?row = "pending_row sample_event 0" and ?r = "NewRelay DefaultRelayConfig"
  have wf: "store_wf ?s" unfolding store_Write_def by (intro store_wf_update store_wf_new) (simp add: pending_row_def)
  have find: "find_fake ?s i = (if i = ''evt-3'' then Some ?row else None)" for i
    by (simp add: store_Write_def sample_event_def NewFakeStore_def find_fake_def)
  have ready: "ready 5 ?row" by (simp add: ready_def pending_row_def)
  have enc: "\<exists>b. env_MarshalEnvelope sample_env (fr_entry row) = Inr b" for row by (simp add: sample_env_def)
  have ans: "an_err (sample_answer ''l'') = None" "an_fail (sample_answer ''l'') = None" "an_lease (sample_answer ''l'') = ''l''"
    by (simp_all add: sample_answer_def)
  from poll_publishes_batch [OF wf refl ans(1,2) enc, of 5 DefaultRelayConfig cl_start, unfolded ans(3)]
  obtain cs s' tr where first: "first_ready ?s 5 (rf_BatchSize (rl_cfg ?r)) cs"
    and run: "drive (1 + 2 * length cs) 5 (sample_answer ''l'') ((?s, cl_start), [], pollOnce ?r sample_env) = ((s', cl_start), tr, RRet None)"
    and out: "List.map_filter (\<lambda>ev. case ev of EvDelivered e \<Rightarrow> Some e | _ \<Rightarrow> None) (rev tr) = map (\<lambda>p. fr_entry (snd p)) cs"
    and s': "\<forall>i. find_fake s' i = (case map_of cs i of Some row \<Rightarrow> Some (published_row 5 ''l'' row) | None \<Rightarrow> find_fake ?s i)"
    by blast
  have "{i. \<exists>row. find_fake ?s i = Some row \<and> ready 5 row} = {''evt-3''}" using ready by (auto simp: find)
  moreover have "rf_BatchSize (rl_cfg ?r) = 100" by code_simp
  ultimately have "length cs = 1" using first by (simp add: first_ready_def)
  then obtain i row where cs: "cs = [(i, row)]" by (metis length_Suc_conv length_0_conv One_nat_def prod.exhaust)
  with first have "cs = [(''evt-3'', ?row)]" by (auto simp: first_ready_def find split: if_splits)
  with run out s' show ?thesis by (auto simp: numeral_3_eq_3 pending_row_def published_row_def)
qed

text \<open>
  A failed write-back dead-letters another command: when the store fails while a poll settles one
  command, the poll returns and leaves the claims of the remaining commands of the batch held for the
  claim lease of five minutes; under the default configuration the remaining attempts of such a command
  all find the claim busy within that time, so it is dead-lettered after one call of its handler and
  a single passing error.
\<close>

lemma failed_writeback_starves_command:
  "(let y = rexec sample_relay sample_env rstart starved_schedule
    in map_option (\<lambda>row. (fr_status row, fr_attempts row)) (find_fake (ry_store y) ''evt-2'') = Some (StateDead, 5) \<and>
       map_option (\<lambda>row. fr_status row) (find_fake (ry_store y) ''evt-1'') = Some StatePublished \<and>
       map_option (\<lambda>key. acquisitions key y) (ClaimKeyFromEntry second_command) = Some 1)"
  by code_simp

end
