(* ===== verification/Outbox_Maintenance.thy ===== *)
theory Outbox_Maintenance
  imports Outbox_Relay
begin

text \<open>
  The background passes of the outbox relay (\<^verbatim>\<open>framework/runtime/outbox/relay.go\<close>): \<^verbatim>\<open>reclaimStale\<close>, \<^verbatim>\<open>cleanup\<close>,
  the computation of the next cleanup time, the budget bookkeeping of the three loops and the health
  probes.

  A pass is a function of the store and of the answers its calls get: the reading of the clock, whether
  the context was cancelled, and for a failing call whether it took effect. Here a pass runs on the
  store alone; the interleavings of its single calls with everything else are in \<open>Outbox_Relay\<close>. The
  drain loops of \<^verbatim>\<open>cleanup\<close> end because a full batch makes the store smaller (\<open>termination\<close> of
  \<open>cleanup_drain\<close>).
\<close>

section \<open>Definitions\<close>

record call_answer =
  ca_now :: instant
  ca_cancelled :: bool
  ca_fail :: "goerr option"
  ca_applied :: bool

definition reclaimMaxIterations :: nat where
  "reclaimMaxIterations = 16"

text \<open>The first argument counts the iterations that are left.\<close>

fun reclaim_passes :: "nat \<Rightarrow> relay \<Rightarrow> (nat \<Rightarrow> call_answer) \<Rightarrow> fake_store \<Rightarrow> int \<Rightarrow> fake_store \<times> int \<times> goerr option" where
  "reclaim_passes 0 r ans s cnt = (s, cnt, None)"
| "reclaim_passes (Suc k) r ans s cnt =
     (let a = ans k; cfg = rl_cfg r; batch = rf_ReclaimBatchSize cfg in
      if ca_cancelled a then (s, cnt, None)
      else let (s', n) = store_ReclaimStale s (ca_now a) (rf_ClaimTTL cfg) (rf_MaxAttempts cfg)
                           (rf_BaseRetryDelay cfg) (rf_MaxRetryDelay cfg) batch in
        case ca_fail a of
          Some err \<Rightarrow> ((if ca_applied a then s' else s), cnt, Some err)
        | None \<Rightarrow> if n < batch then (s', cnt + n, None) else reclaim_passes k r ans s' (cnt + n))"

definition reclaimStale :: "relay \<Rightarrow> (nat \<Rightarrow> call_answer) \<Rightarrow> fake_store \<Rightarrow> fake_store \<times> int \<times> goerr option" where
  "reclaimStale r ans s = reclaim_passes reclaimMaxIterations r ans s 0"

definition batchLimit :: int where
  "batchLimit = 1000"

definition cleanup_call :: "bool \<Rightarrow> instant \<Rightarrow> fake_store \<Rightarrow> fake_store \<times> int" where
  "cleanup_call dead cutoff s =
     (if dead then store_CleanupDead s cutoff batchLimit else store_CleanupPublished s cutoff batchLimit)"

text \<open>One of the two drain loops of \<^verbatim>\<open>cleanup\<close>; the calls are numbered from \<open>i\<close>.\<close>

function cleanup_drain ::
  "bool \<Rightarrow> instant \<Rightarrow> (nat \<Rightarrow> call_answer) \<Rightarrow> nat \<Rightarrow> fake_store \<Rightarrow> int \<Rightarrow> fake_store \<times> int \<times> goerr option" where
  "cleanup_drain dead cutoff ans i s cnt =
     (let (s', n) = cleanup_call dead cutoff s in
      case ca_fail (ans i) of
        Some err \<Rightarrow> ((if ca_applied (ans i) then s' else s), cnt, Some err)
      | None \<Rightarrow> if n < batchLimit then (s', cnt + n, None) else cleanup_drain dead cutoff ans (Suc i) s' (cnt + n))"
  by pat_completeness auto
termination
  by (relation "measure (\<lambda>(dead, cutoff, ans, i, s, cnt). length s)")
    (auto simp: cleanup_call_def batchLimit_def dest: cleanup_shrinks split: if_splits)

definition relay_cleanup ::
  "relay \<Rightarrow> instant \<Rightarrow> instant \<Rightarrow> (nat \<Rightarrow> call_answer) \<Rightarrow> (nat \<Rightarrow> call_answer) \<Rightarrow> fake_store \<Rightarrow>
   fake_store \<times> int \<times> int \<times> goerr option" where
  "relay_cleanup r now1 now2 ans1 ans2 s =
     (let publishedCutoff = now1 - rf_RetentionPeriod (rl_cfg r) in
      case cleanup_drain False publishedCutoff ans1 0 s 0 of
        (s1, n1, Some err) \<Rightarrow> (s1, n1, 0, Some err)
      | (s1, totalPublished, None) \<Rightarrow>
          let deadCutoff = now2 - rf_DeadRetentionPeriod (rl_cfg r) in
          (case cleanup_drain True deadCutoff ans2 0 s1 0 of
             (s2, n2, Some err) \<Rightarrow> (s2, totalPublished, n2, Some err)
           | (s2, totalDead, None) \<Rightarrow> (s2, totalPublished, totalDead, None)))"

subsection \<open>The time of the next cleanup\<close>

definition defaultCleanupWaitFloor :: duration where
  "defaultCleanupWaitFloor = 5 * second"

definition cleanupWaitCeiling :: duration where
  "cleanupWaitCeiling = 1 * hour"

definition cleanupWaitFloor :: "relay \<Rightarrow> duration" where
  "cleanupWaitFloor r =
     (if rf_CleanupWaitFloor (rl_cfg r) > 0 then rf_CleanupWaitFloor (rl_cfg r) else defaultCleanupWaitFloor)"

definition oldestOrZero :: "instant option res \<Rightarrow> instant option" where
  "oldestOrZero ans = (case ans of Inl err \<Rightarrow> None | Inr found \<Rightarrow> found)"

definition shorten_wait :: "instant \<Rightarrow> duration \<Rightarrow> instant option \<Rightarrow> duration \<Rightarrow> duration" where
  "shorten_wait now retention at wait =
     (case at of
        None \<Rightarrow> wait
      | Some t \<Rightarrow> let d = time_Sub (t + retention) now in if d < wait then d else wait)"

text \<open>The last two arguments are the answers of \<^verbatim>\<open>OldestEligibleAt\<close> for published and for dead rows.\<close>

definition nextCleanupWait :: "relay \<Rightarrow> instant \<Rightarrow> instant option res \<Rightarrow> instant option res \<Rightarrow> duration" where
  "nextCleanupWait r now pub dead =
     (let wait = cleanupWaitCeiling;
          wait = shorten_wait now (rf_RetentionPeriod (rl_cfg r)) (oldestOrZero pub) wait;
          wait = shorten_wait now (rf_DeadRetentionPeriod (rl_cfg r)) (oldestOrZero dead) wait;
          floor = cleanupWaitFloor r
      in if wait < floor then floor else wait)"

subsection \<open>Budgets and probes\<close>

definition record_budget :: "failure_budget option \<Rightarrow> goerr option \<Rightarrow> failure_budget option" where
  "record_budget b err = map_option (\<lambda>b. fst (Record b err)) b"

text \<open>What an iteration of each loop does with the result of its pass.\<close>

definition pollLoop_tick :: "relay \<Rightarrow> goerr option \<Rightarrow> relay" where
  "pollLoop_tick r err = r\<lparr>rl_pollBudget := record_budget (rl_pollBudget r) err\<rparr>"

definition reclaimLoop_tick :: "relay \<Rightarrow> goerr option \<Rightarrow> relay" where
  "reclaimLoop_tick r err = r\<lparr>rl_reclaimBudget := record_budget (rl_reclaimBudget r) err\<rparr>"

definition cleanupLoop_tick :: "relay \<Rightarrow> goerr option \<Rightarrow> relay" where
  "cleanupLoop_tick r err = r\<lparr>rl_cleanupBudget := record_budget (rl_cleanupBudget r) err\<rparr>"

definition probe_of :: "string \<Rightarrow> failure_budget option \<Rightarrow> (string \<times> goerr option option) list" where
  "probe_of name b = (case b of None \<Rightarrow> [] | Some b \<Rightarrow> [(name, Checker b)])"

definition relay_Probes :: "relay \<Rightarrow> (string \<times> goerr option option) list" where
  "relay_Probes r =
     probe_of ''outbox_relay_poll'' (rl_pollBudget r) @
     probe_of ''outbox_relay_reclaim'' (rl_reclaimBudget r) @
     probe_of ''outbox_relay_cleanup'' (rl_cleanupBudget r)"

subsection \<open>Vocabulary of the properties\<close>

definition expired :: "bool \<Rightarrow> instant \<Rightarrow> fake_row \<Rightarrow> bool" where
  "expired dead cutoff row \<longleftrightarrow>
     (if dead then fr_status row = StateDead \<and> (\<exists>t. fr_deadAt row = Some t \<and> t < cutoff)
      else fr_status row = StatePublished \<and> (\<exists>t. fr_publishedAt row = Some t \<and> t < cutoff))"

definition stale :: "relay \<Rightarrow> instant \<Rightarrow> fake_row \<Rightarrow> bool" where
  "stale r now row \<longleftrightarrow>
     fr_status row = StateClaiming \<and> (\<exists>t. fr_claimedAt row = Some t \<and> t < now - rf_ClaimTTL (rl_cfg r))"

definition drop_rows :: "(fake_row \<Rightarrow> bool) \<Rightarrow> fake_row option \<Rightarrow> fake_row option" where
  "drop_rows P f = (case f of Some row \<Rightarrow> if P row then None else f | None \<Rightarrow> None)"

definition stale_ids :: "relay \<Rightarrow> instant \<Rightarrow> fake_store \<Rightarrow> string list" where
  "stale_ids r now s = eligibleIDsByTimeAsc s StateClaiming (now - rf_ClaimTTL (rl_cfg r)) fr_claimedAt"

abbreviation reclaimed :: "relay \<Rightarrow> instant \<Rightarrow> fake_row \<Rightarrow> fake_row" where
  "reclaimed r now \<equiv> reclaim_row now (rf_MaxAttempts (rl_cfg r)) (rf_BaseRetryDelay (rl_cfg r)) (rf_MaxRetryDelay (rl_cfg r))"

definition ok_calls :: "instant \<Rightarrow> nat \<Rightarrow> call_answer" where
  "ok_calls now i = \<lparr>ca_now = now, ca_cancelled = False, ca_fail = None, ca_applied = True\<rparr>"

definition sample_store :: fake_store where
  "sample_store =
     [(''evt-1'', (pending_row (sample_command\<lparr>oe_id := ''evt-1''\<rparr>) 0)\<lparr>fr_status := StatePublished, fr_publishedAt := Some 1\<rparr>),
      (''evt-2'', (pending_row (sample_command\<lparr>oe_id := ''evt-2''\<rparr>) 0)\<lparr>fr_status := StateClaiming, fr_claimedAt := Some 1, fr_leaseID := ''l''\<rparr>),
      (''evt-3'', pending_row (sample_command\<lparr>oe_id := ''evt-3''\<rparr>) 0)]"

section \<open>Lemmas\<close>

declare cleanup_drain.simps [simp del]

lemma batch_pos: "0 < batchLimit"
  by (simp add: batchLimit_def)

text \<open>A cleanup call removes only expired rows, and all of them if it removes less than a batch.\<close>

lemma cleanup_call_result:
  assumes wf: "store_wf s" and out: "cleanup_call dead cutoff s = (s', n)"
  shows "store_wf s'" and "find_fake s' i = find_fake s i \<or> find_fake s' i = drop_rows (expired dead cutoff) (find_fake s i)"
    and "n < batchLimit \<Longrightarrow> find_fake s' i = drop_rows (expired dead cutoff) (find_fake s i)"
proof -
  define ids where "ids = (if dead then eligibleIDsByTimeAsc s StateDead cutoff fr_deadAt else eligibleIDsByTimeAsc s StatePublished cutoff fr_publishedAt)"
  have d: "delete_loop batchLimit ids s 0 = (s', n)"
    using out by (auto simp: ids_def cleanup_call_def store_CleanupDead_def store_CleanupPublished_def)
  show "store_wf s'" using wf_delete_loop [OF wf, of batchLimit ids 0] by (simp add: d)
  have mem: "j \<in> set ids \<longleftrightarrow> (\<exists>row. find_fake s j = Some row \<and> expired dead cutoff row)" for j
    using eligible_mem [OF wf] by (auto simp: ids_def expired_def)
  have f: "find_fake s' j = (if j \<in> set (take (nat batchLimit) ids) then None else find_fake s j)" for j
    using find_delete_loop [of batchLimit ids s 0 j] by (simp add: d)
  then show "find_fake s' i = find_fake s i \<or> find_fake s' i = drop_rows (expired dead cutoff) (find_fake s i)"
    using mem [of i] by (auto simp: drop_rows_def dest: in_set_takeD split: option.splits)
  assume "n < batchLimit"
  then have "take (nat batchLimit) ids = ids"
    using delete_loop_count [of batchLimit ids s 0] batch_pos by (simp add: d)
  then show "find_fake s' i = drop_rows (expired dead cutoff) (find_fake s i)"
    using f [of i] mem [of i] by (auto simp: drop_rows_def split: option.splits)
qed

lemma drop_rows_again:
  "f' = f \<or> f' = drop_rows P f \<Longrightarrow> drop_rows P f' = drop_rows P f"
  by (auto simp: drop_rows_def split: option.splits)

lemma cleanup_drain_removes:
  assumes "store_wf s" and "\<forall>j. ca_fail (ans j) = None" and "cleanup_drain dead cutoff ans i s cnt = (s', n, err)"
  shows "err = None \<and> store_wf s' \<and> (\<forall>j. find_fake s' j = drop_rows (expired dead cutoff) (find_fake s j))"
  using assms
proof (induction dead cutoff ans i s cnt rule: cleanup_drain.induct)
  case (1 dead cutoff ans i s cnt)
  obtain s1 k where call: "cleanup_call dead cutoff s = (s1, k)" by fastforce
  note res = cleanup_call_result [OF "1.prems"(1) call]
  show ?case
  proof (cases "k < batchLimit")
    case True
    then show ?thesis using "1.prems"(2,3) res by (simp add: call cleanup_drain.simps)
  next
    case False
    then have "cleanup_drain dead cutoff ans (Suc i) s1 (cnt + k) = (s', n, err)" using "1.prems"(2,3) by (simp add: call cleanup_drain.simps [of _ _ _ i])
    from "1.IH" [OF refl call [symmetric] _ _ res(1) "1.prems"(2) this] False "1.prems"(2)
    have "err = None \<and> store_wf s' \<and> (\<forall>j. find_fake s' j = drop_rows (expired dead cutoff) (find_fake s1 j))" by simp
    then show ?thesis using drop_rows_again [OF res(2)] by simp
  qed
qed

lemma reclaim_loop_count: "snd (reclaim_loop f n ids s c) = (if c \<ge> n then c else min n (c + int (length ids)))"
  by (induction f n ids s c rule: reclaim_loop.induct) (auto split: option.split)

lemma stale_ids_mem: "store_wf s \<Longrightarrow> i \<in> set (stale_ids r now s) \<longleftrightarrow> (\<exists>row. find_fake s i = Some row \<and> stale r now row)"
  using eligible_mem by (auto simp: stale_ids_def stale_def)

lemma reclaimed_not_stale: "\<not> stale r now (reclaimed r t row)"
  by (simp add: stale_def reclaim_row_def Let_def)

lemma reclaim_call_result:
  assumes wf: "store_wf s"
    and out: "store_ReclaimStale s now (rf_ClaimTTL (rl_cfg r)) (rf_MaxAttempts (rl_cfg r)) (rf_BaseRetryDelay (rl_cfg r))
      (rf_MaxRetryDelay (rl_cfg r)) b = (s', n)"
  shows "store_wf s'" and "n = (if b \<le> 0 then 0 else min b (int (length (stale_ids r now s))))"
    and "find_fake s' i = (if i \<in> set (take (nat b) (stale_ids r now s)) then map_option (reclaimed r now) (find_fake s i) else find_fake s i)"
proof -
  have o: "reclaim_loop (reclaimed r now) b (stale_ids r now s) s 0 = (s', n)"
    using out by (simp add: store_ReclaimStale_def stale_ids_def Let_def)
  show "store_wf s'" using wf_reclaim_loop [of "reclaimed r now", OF reclaim_row_entry wf] o by (metis fst_conv)
  show "n = (if b \<le> 0 then 0 else min b (int (length (stale_ids r now s))))"
    using reclaim_loop_count [of "reclaimed r now" b "stale_ids r now s" s 0] by (simp add: o)
  show "find_fake s' i = (if i \<in> set (take (nat b) (stale_ids r now s)) then map_option (reclaimed r now) (find_fake s i) else find_fake s i)"
    using find_reclaim_loop [OF eligible_distinct [OF wf], of "reclaimed r now" b StateClaiming "now - rf_ClaimTTL (rl_cfg r)" fr_claimedAt s 0] o
    by (simp add: stale_ids_def)
qed

lemma stale_ids_after:
  assumes wf: "store_wf s"
    and out: "store_ReclaimStale s now (rf_ClaimTTL (rl_cfg r)) (rf_MaxAttempts (rl_cfg r)) (rf_BaseRetryDelay (rl_cfg r))
      (rf_MaxRetryDelay (rl_cfg r)) b = (s', n)"
  shows "length (stale_ids r now s') = length (stale_ids r now s) - nat b"
proof -
  note res = reclaim_call_result [OF wf out]
  have d: "distinct (stale_ids r now s)" "distinct (stale_ids r now s')"
    unfolding stale_ids_def using wf res(1) by (simp_all add: eligible_distinct)
  have "set (stale_ids r now s') = set (drop (nat b) (stale_ids r now s))"
  proof (intro set_eqI)
    fix i
    have "i \<in> set (stale_ids r now s) \<longleftrightarrow> i \<in> set (take (nat b) (stale_ids r now s)) \<or> i \<in> set (drop (nat b) (stale_ids r now s))"
      by (metis Un_iff append_take_drop_id set_append)
    moreover have "set (take (nat b) (stale_ids r now s)) \<inter> set (drop (nat b) (stale_ids r now s)) = {}"
      using d(1) by (metis append_take_drop_id distinct_append)
    moreover have "i \<in> set (stale_ids r now s') \<longleftrightarrow>
        i \<notin> set (take (nat b) (stale_ids r now s)) \<and> i \<in> set (stale_ids r now s)"
      using reclaimed_not_stale by (auto simp: stale_ids_mem [OF wf] stale_ids_mem [OF res(1)] res(3))
    ultimately show "i \<in> set (stale_ids r now s') \<longleftrightarrow> i \<in> set (drop (nat b) (stale_ids r now s))" by blast
  qed
  then show ?thesis using d distinct_card distinct_drop by (metis length_drop)
qed

lemma reclaim_passes_recover:
  assumes "store_wf s" and "\<forall>j. ca_now (ans j) = now \<and> \<not> ca_cancelled (ans j) \<and> ca_fail (ans j) = None"
    and "b = rf_ReclaimBatchSize (rl_cfg r)" "0 < b" and "int (length (stale_ids r now s)) < int k * b"
    and "reclaim_passes k r ans s cnt = (s', n, err)"
  shows "err = None \<and> n = cnt + int (length (stale_ids r now s)) \<and>
    (\<forall>i. find_fake s' i = map_option (\<lambda>row. if stale r now row then reclaimed r now row else row) (find_fake s i))"
  using assms(1,5,6)
proof (induction k arbitrary: s cnt)
  case (Suc k)
  obtain s1 n1 where out: "store_ReclaimStale s now (rf_ClaimTTL (rl_cfg r)) (rf_MaxAttempts (rl_cfg r)) (rf_BaseRetryDelay (rl_cfg r))
      (rf_MaxRetryDelay (rl_cfg r)) b = (s1, n1)" by fastforce
  note res = reclaim_call_result [OF Suc.prems(1) out]
  have n1: "n1 = min b (int (length (stale_ids r now s)))" using res(2) assms(4) by simp
  have step: "reclaim_passes (Suc k) r ans s cnt = (if n1 < b then (s1, cnt + n1, None) else reclaim_passes k r ans s1 (cnt + n1))"
    using assms(2) out by (simp add: assms(3) [symmetric] Let_def)
  have row: "find_fake s1 i = map_option (\<lambda>row. if stale r now row then reclaimed r now row else row) (find_fake s i) \<or>
      \<not> n1 < b \<and> find_fake s1 i = find_fake s i" for i
  proof (cases "i \<in> set (take (nat b) (stale_ids r now s))")
    case True
    then have "i \<in> set (stale_ids r now s)" by (rule in_set_takeD)
    then show ?thesis using True by (auto simp: stale_ids_mem [OF Suc.prems(1)] res(3))
  next
    case False
    then have "n1 < b \<Longrightarrow> i \<notin> set (stale_ids r now s)" by (simp add: n1)
    then show ?thesis using False by (cases "find_fake s i") (auto simp: stale_ids_mem [OF Suc.prems(1)] res(3))
  qed
  show ?case
  proof (cases "n1 < b")
    case True
    then have "s' = s1" "n = cnt + n1" "err = None" using step Suc.prems(3) by (simp_all del: reclaim_passes.simps)
    moreover have "n1 = int (length (stale_ids r now s))" using True n1 by simp
    ultimately show ?thesis using row True by simp
  next
    case False
    then have l: "int (length (stale_ids r now s1)) = int (length (stale_ids r now s)) - b" "n1 = b"
      using stale_ids_after [OF Suc.prems(1) out] n1 assms(4) by auto
    have "int (length (stale_ids r now s1)) < int k * b" using l(1) Suc.prems(2) by (simp add: algebra_simps)
    from Suc.IH [OF res(1) this, of "cnt + n1"] Suc.prems(3) [unfolded step] False
    have IH: "err = None" "n = cnt + n1 + int (length (stale_ids r now s1))"
        "\<forall>i. find_fake s' i = map_option (\<lambda>row. if stale r now row then reclaimed r now row else row) (find_fake s1 i)" by auto
    have "find_fake s' i = map_option (\<lambda>row. if stale r now row then reclaimed r now row else row) (find_fake s i)" for i
      using IH(3) row [of i] reclaimed_not_stale by (cases "find_fake s i") auto
    then show ?thesis using IH(1,2) l by simp
  qed
qed (use assms(4) in simp)

lemma nextCleanupWait_bounds:
  "cleanupWaitFloor r \<le> nextCleanupWait r now pub dead" "0 < cleanupWaitFloor r"
  "nextCleanupWait r now pub dead \<le> max (cleanupWaitFloor r) cleanupWaitCeiling"
  by (auto simp: nextCleanupWait_def shorten_wait_def Let_def cleanupWaitFloor_def defaultCleanupWaitFloor_def duration_defs split: option.split)

lemma nextCleanupWait_in_time:
  assumes "pub = Inr (Some t)"
  shows "nextCleanupWait r now pub dead \<le> max (cleanupWaitFloor r) (time_Sub (t + rf_RetentionPeriod (rl_cfg r)) now)"
  by (auto simp: assms nextCleanupWait_def shorten_wait_def oldestOrZero_def Let_def split: option.split)

subsection \<open>Properties\<close>

lemma sample_store_wf: "store_wf sample_store"
  by (auto simp: store_wf_def sample_store_def find_fake_def pending_row_def)

text \<open>
  C40. A cleanup pass ends and removes exactly the rows whose retention is over: when no call fails, the
  published rows older than the retention period and the dead rows older than the dead retention period
  are gone afterwards, however many batches they fill, and every other row is as it was.
\<close>

theorem cleanup_removes_expired:
  assumes "store_wf s" and "\<forall>j. ca_fail (ans1 j) = None" and "\<forall>j. ca_fail (ans2 j) = None"
    and "relay_cleanup r now1 now2 ans1 ans2 s = (s', n1, n2, err)"
  shows "err = None \<and> (\<forall>i. find_fake s' i =
    drop_rows (\<lambda>row. expired False (now1 - rf_RetentionPeriod (rl_cfg r)) row \<or> expired True (now2 - rf_DeadRetentionPeriod (rl_cfg r)) row)
      (find_fake s i))"
proof -
  let ?c1 = "now1 - rf_RetentionPeriod (rl_cfg r)" and ?c2 = "now2 - rf_DeadRetentionPeriod (rl_cfg r)"
  obtain s1 m1 e1 where d1: "cleanup_drain False ?c1 ans1 0 s 0 = (s1, m1, e1)" by (metis prod_cases3)
  note r1 = cleanup_drain_removes [OF assms(1,2) d1]
  obtain s2 m2 e2 where d2: "cleanup_drain True ?c2 ans2 0 s1 0 = (s2, m2, e2)" by (metis prod_cases3)
  note r2 = cleanup_drain_removes [OF _ assms(3) d2]
  have "err = None" "s' = s2" using assms(4) d1 d2 r1 r2 by (auto simp: relay_cleanup_def Let_def split: option.splits)
  then show ?thesis using r1 r2 by (auto simp: drop_rows_def split: option.split)
qed

theorem cleanup_removes_expired_witness:
  "\<exists>s' n1 n2. relay_cleanup (NewRelay DefaultRelayConfig) (80 * hour) (80 * hour) (ok_calls 0) (ok_calls 0) sample_store = (s', n1, n2, None) \<and>
     find_fake s' ''evt-1'' = None \<and> find_fake s' ''evt-2'' = find_fake sample_store ''evt-2'' \<and>
     find_fake s' ''evt-3'' = find_fake sample_store ''evt-3''"
proof -
  let ?r = "NewRelay DefaultRelayConfig"
  obtain s' n1 n2 err where out: "relay_cleanup ?r (80 * hour) (80 * hour) (ok_calls 0) (ok_calls 0) sample_store = (s', n1, n2, err)"
    by (metis prod_cases4)
  have "rf_RetentionPeriod (rl_cfg ?r) = 72 * hour" "rf_DeadRetentionPeriod (rl_cfg ?r) = 720 * hour" by code_simp+
  with cleanup_removes_expired [OF sample_store_wf _ _ out] out show ?thesis
    by (auto simp: ok_calls_def drop_rows_def expired_def sample_store_def find_fake_def pending_row_def duration_defs)
qed

text \<open>
  A reclaim pass recovers every stale claim within its iteration cap: when no call fails and fewer
  than sixteen batches of rows are stale, each of them is pending again with one attempt more (or dead,
  if its attempts are used up), no other row changes, and the pass reports their number.
\<close>

theorem reclaim_recovers_stale:
  assumes "store_wf s" and "\<forall>j. ca_now (ans j) = now \<and> \<not> ca_cancelled (ans j) \<and> ca_fail (ans j) = None"
    and "0 < rf_ReclaimBatchSize (rl_cfg r)" and "int (length (stale_ids r now s)) < 16 * rf_ReclaimBatchSize (rl_cfg r)"
    and "reclaimStale r ans s = (s', n, err)"
  shows "err = None \<and> n = int (length (stale_ids r now s)) \<and>
    (\<forall>i. find_fake s' i = map_option (\<lambda>row. if stale r now row then reclaimed r now row else row) (find_fake s i))"
  using reclaim_passes_recover [OF assms(1,2) refl assms(3), of reclaimMaxIterations 0 s' n err] assms(4,5)
  by (simp add: reclaimStale_def reclaimMaxIterations_def)

theorem reclaim_recovers_stale_witness:
  "\<exists>s' row. reclaimStale (NewRelay DefaultRelayConfig) (ok_calls (61 * second)) sample_store = (s', 1, None) \<and>
     find_fake s' ''evt-2'' = Some row \<and> fr_status row = StatePending \<and> fr_attempts row = 1 \<and>
     find_fake s' ''evt-1'' = find_fake sample_store ''evt-1''"
proof -
  let ?r = "NewRelay DefaultRelayConfig" and ?now = "61 * second"
  obtain s' n err where out: "reclaimStale ?r (ok_calls ?now) sample_store = (s', n, err)" by (metis prod_cases3)
  have st: "stale_ids ?r ?now sample_store = [''evt-2'']" by code_simp
  have row: "(case find_fake sample_store ''evt-2'' of Some row \<Rightarrow>
      stale ?r ?now row \<and> fr_status (reclaimed ?r ?now row) = StatePending \<and> fr_attempts (reclaimed ?r ?now row) = 1 | None \<Rightarrow> False)"
    "(case find_fake sample_store ''evt-1'' of Some row \<Rightarrow> \<not> stale ?r ?now row | None \<Rightarrow> False)"
    by (simp_all add: sample_store_def find_fake_def stale_def pending_row_def NewRelay_def WithDefaults_def or_default_def
        DefaultRelayConfig_def Let_def reclaim_row_def duration_defs i64_def)
  have "rf_ReclaimBatchSize (rl_cfg ?r) = 1000" by code_simp
  with reclaim_recovers_stale [OF sample_store_wf _ _ _ out] st row out show ?thesis
    by (auto simp: ok_calls_def split: option.splits)
qed

end
