(* ===== verification/Event_Consumer.thy ===== *)
theory Event_Consumer
  imports Outbox_Core Idempotency Exp_Backoff "HOL-Library.Word"
begin

text \<open>
  The consumer base (\<^verbatim>\<open>framework/kernel/outbox/consumer_base.go\<close>, \<^verbatim>\<open>subscription.go\<close>, \<^verbatim>\<open>result.go\<close> and the result
  types of \<^verbatim>\<open>outbox.go\<close>): it wraps a business handler with an idempotency claim, retries with backoff, and a
  lease renewal that runs beside the handler.

  The processing of one delivery is a program \<open>cprog\<close>: each node is one call or wait whose answer comes
  from outside (the claimer, the handler, the context, a timer, a random source), with the rest of the
  processing as a function of the answer. \<open>CRenewStart\<close> and \<open>CRenewStop\<close> bracket the life of the renewal
  goroutine, whose ticks interleave with the program in \<open>Event_Bus\<close>. A wait answers with the context error
  if the context ended first. Logging, metrics and observers are left out.
\<close>

section \<open>Definitions\<close>

subsection \<open>Results and subscriptions\<close>

datatype disposition = DispositionAck | DispositionRequeue | DispositionReject | DispositionOther nat

definition disposition_Valid :: "disposition \<Rightarrow> bool" where
  "disposition_Valid d = (case d of DispositionOther n \<Rightarrow> False | _ \<Rightarrow> True)"

definition disposition_String :: "disposition \<Rightarrow> string" where
  "disposition_String d =
     (case d of
        DispositionAck \<Rightarrow> ''ack''
      | DispositionRequeue \<Rightarrow> ''requeue''
      | DispositionReject \<Rightarrow> ''reject''
      | DispositionOther n \<Rightarrow> if n = 0 then ''invalid'' else ''disposition('' @ show_nat n @ '')'')"

record handle_result =
  hr_Disposition :: disposition
  hr_Err :: "goerr option"

record delivery_outcome =
  do_Disposition :: disposition
  do_Err :: "goerr option"
  do_ProcessReason :: string

definition result_Ack :: handle_result where
  "result_Ack = \<lparr>hr_Disposition = DispositionAck, hr_Err = None\<rparr>"

definition result_Requeue :: "goerr option \<Rightarrow> handle_result" where
  "result_Requeue err = \<lparr>hr_Disposition = DispositionRequeue, hr_Err = err\<rparr>"

definition result_Reject :: "goerr option \<Rightarrow> handle_result" where
  "result_Reject err = \<lparr>hr_Disposition = DispositionReject, hr_Err = err\<rparr>"

definition ProcessReasonRetryExhausted :: string where
  "ProcessReasonRetryExhausted = ''retry_exhausted''"

definition RejectSettlementResult :: "delivery_outcome \<Rightarrow> string" where
  "RejectSettlementResult outcome =
     (if do_ProcessReason outcome = ProcessReasonRetryExhausted then ''retry_exhausted'' else ''success'')"

record subscription =
  su_Topic :: string
  su_ConsumerGroup :: string
  su_CellID :: string
  su_SliceID :: string
  su_ContractID :: string
  su_ContractKind :: string
  su_ContractTransport :: string
  su_BrokerDelaySchedule :: "duration list"

definition subscription_Validate :: "subscription \<Rightarrow> unit res" where
  "subscription_Validate s =
     (if su_Topic s = [] then Inl (invalid ''outbox: subscription Topic must not be empty'')
      else if su_ConsumerGroup s = [] then Inl (invalid ''outbox: subscription ConsumerGroup must not be empty'')
      else if su_CellID s = [] then Inl (invalid ''outbox: subscription CellID must not be empty'')
      else if su_ContractID s = [] then Inl (invalid ''outbox: subscription ContractID must not be empty'')
      else if su_ContractKind s = [] then Inl (invalid ''outbox: subscription ContractKind must not be empty'')
      else if su_ContractTransport s = [] then Inl (invalid ''outbox: subscription ContractTransport must not be empty'')
      else if list_ex (\<lambda>d. d \<le> 0) (su_BrokerDelaySchedule s)
        then Inl (invalid ''outbox: subscription BrokerDelaySchedule entries must be positive durations'')
      else Inr ())"

definition IdempotencyNamespace :: "subscription \<Rightarrow> string" where
  "IdempotencyNamespace s = su_ConsumerGroup s"

definition ObservabilityID :: "subscription \<Rightarrow> string" where
  "ObservabilityID s = su_CellID s"

subsection \<open>Configuration\<close>

datatype claim_policy = ClaimPolicyFailClosed | ClaimPolicyFailOpen | ClaimPolicyOther nat

definition claim_policy_Valid :: "claim_policy \<Rightarrow> bool" where
  "claim_policy_Valid p = (case p of ClaimPolicyOther n \<Rightarrow> False | _ \<Rightarrow> True)"

definition claim_policy_String :: "claim_policy \<Rightarrow> string" where
  "claim_policy_String p =
     (case p of
        ClaimPolicyFailClosed \<Rightarrow> ''fail-closed''
      | ClaimPolicyFailOpen \<Rightarrow> ''fail-open''
      | ClaimPolicyOther n \<Rightarrow> ''unknown('' @ show_nat n @ '')'')"

definition backoffJitterDivisor :: int where
  "backoffJitterDivisor = 2"

definition leaseRenewalDivisor :: int where
  "leaseRenewalDivisor = 3"

definition defaultConsumerBaseRetryBaseDelay :: duration where
  "defaultConsumerBaseRetryBaseDelay = 1 * second"

definition defaultConsumerBaseMaxRetryDelay :: duration where
  "defaultConsumerBaseMaxRetryDelay = 30 * second"

record consumer_config =
  cc_RetryCount :: int
  cc_RetryBaseDelay :: duration
  cc_IdempotencyTTL :: duration
  cc_LeaseTTL :: duration
  cc_ClaimPolicy :: claim_policy
  cc_ClaimRetryCount :: int
  cc_ClaimRetryBaseDelay :: duration
  cc_MaxRetryDelay :: duration
  cc_LeaseRenewalInterval :: duration

definition SetDefaults :: "consumer_config \<Rightarrow> consumer_config" where
  "SetDefaults c =
     (let c = (if cc_RetryCount c \<le> 0 then c\<lparr>cc_RetryCount := 3\<rparr> else c);
          c = (if cc_RetryBaseDelay c \<le> 0 then c\<lparr>cc_RetryBaseDelay := defaultConsumerBaseRetryBaseDelay\<rparr> else c);
          c = (if cc_IdempotencyTTL c \<le> 0 then c\<lparr>cc_IdempotencyTTL := DefaultTTL\<rparr> else c);
          c = (if cc_LeaseTTL c \<le> 0 then c\<lparr>cc_LeaseTTL := DefaultLeaseTTL\<rparr> else c);
          c = (if cc_ClaimRetryCount c \<le> 0 then c\<lparr>cc_ClaimRetryCount := cc_RetryCount c\<rparr> else c);
          c = (if cc_ClaimRetryBaseDelay c \<le> 0 then c\<lparr>cc_ClaimRetryBaseDelay := cc_RetryBaseDelay c\<rparr> else c);
          c = (if cc_MaxRetryDelay c \<le> 0 then c\<lparr>cc_MaxRetryDelay := defaultConsumerBaseMaxRetryDelay\<rparr> else c)
      in if cc_LeaseRenewalInterval c = 0
         then c\<lparr>cc_LeaseRenewalInterval := go_div (cc_LeaseTTL c) leaseRenewalDivisor\<rparr> else c)"

definition NewConsumerBase :: "consumer_config \<Rightarrow> consumer_config res" where
  "NewConsumerBase c =
     (case cc_ClaimPolicy c of
        ClaimPolicyOther n \<Rightarrow> Inl (ErrorsNew (''outbox: invalid ClaimPolicy '' @ show_nat n @ '' (valid range: 0..1)''))
      | _ \<Rightarrow> Inr (SetDefaults c))"

subsection \<open>Processing as a program\<close>

datatype cprog =
    CEnd
  | CClaim string duration duration "claim_state \<times> receipt_ref \<times> goerr option \<Rightarrow> cprog"
  | CHandle outbox_entry "handle_result \<Rightarrow> cprog"
  | CCtxErr "goerr option \<Rightarrow> cprog"
  | CSleep duration "goerr option \<Rightarrow> cprog"
  | CCryptoRand "64 word option \<Rightarrow> cprog"
  | CRandN int "int \<Rightarrow> cprog"
  | CRenewStart receipt_ref cprog
  | CRenewStop "bool \<Rightarrow> cprog"
  | CCommit receipt_ref "goerr option \<Rightarrow> cprog"
  | CRelease receipt_ref "goerr option \<Rightarrow> cprog"
  | CDeadLetter string outbox_entry "goerr option" cprog

text \<open>The bytes read from the random source, or \<open>None\<close> if reading failed.\<close>

definition cryptoRandInt64N :: "64 word option \<Rightarrow> int \<Rightarrow> int" where
  "cryptoRandInt64N raw n =
     (if n \<le> 0 then 0
      else case raw of
             None \<Rightarrow> 0
           | Some b \<Rightarrow> uint (take_bit 63 b) mod n)"

definition deliveryFrom :: "handle_result \<Rightarrow> delivery_outcome" where
  "deliveryFrom r = \<lparr>do_Disposition = hr_Disposition r, do_Err = hr_Err r, do_ProcessReason = []\<rparr>"

definition requeueResult :: "goerr option \<Rightarrow> delivery_outcome" where
  "requeueResult err = \<lparr>do_Disposition = DispositionRequeue, do_Err = err, do_ProcessReason = []\<rparr>"

definition isPermanentRejection :: "handle_result \<Rightarrow> bool" where
  "isPermanentRejection r = (hr_Disposition r = DispositionReject)"

definition brokerDelayPassthrough :: "subscription \<Rightarrow> bool" where
  "brokerDelayPassthrough sub = (length (su_BrokerDelaySchedule sub) > 0)"

text \<open>The wait after a failed claim; the continuation gets the context error if the wait was aborted.\<close>

definition claimWait :: "consumer_config \<Rightarrow> int \<Rightarrow> (goerr option \<Rightarrow> cprog) \<Rightarrow> cprog" where
  "claimWait c attempt k =
     (let base = ExponentialDelay (cc_ClaimRetryBaseDelay c) (cc_MaxRetryDelay c) attempt;
          wait = (\<lambda>jitter. CSleep (min (i64 (base + jitter)) (cc_MaxRetryDelay c)) k)
      in if base > 0
         then CCryptoRand (\<lambda>raw. wait (cryptoRandInt64N raw (i64 (go_div base backoffJitterDivisor + 1))))
         else wait 0)"

text \<open>\<open>n\<close> is the configured number of attempts and \<open>left\<close> the number of those still to make.\<close>

fun claim_attempts ::
  "consumer_config \<Rightarrow> string \<Rightarrow> nat \<Rightarrow> nat \<Rightarrow> goerr option \<Rightarrow> (claim_state \<times> receipt_ref \<times> goerr option \<Rightarrow> cprog) \<Rightarrow> cprog" where
  "claim_attempts c key n 0 lastErr k = k (ClaimAcquired, NilRef, lastErr)"
| "claim_attempts c key n (Suc left) lastErr k =
     CClaim key (cc_LeaseTTL c) (cc_IdempotencyTTL c) (\<lambda>(state, receipt, err).
       case err of
         None \<Rightarrow> k (state, receipt, None)
       | Some err \<Rightarrow>
           CCtxErr (\<lambda>cerr.
             if cerr \<noteq> None then k (ClaimAcquired, NilRef, cerr)
             else if left > 0 then
               claimWait c (int (n - Suc left)) (\<lambda>cerr.
                 if cerr \<noteq> None then k (ClaimAcquired, NilRef, cerr) else claim_attempts c key n left (Some err) k)
             else claim_attempts c key n left (Some err) k))"

definition claimWithRetry ::
  "consumer_config \<Rightarrow> string \<Rightarrow> (claim_state \<times> receipt_ref \<times> goerr option \<Rightarrow> cprog) \<Rightarrow> cprog" where
  "claimWithRetry c key k = claim_attempts c key (nat (cc_ClaimRetryCount c)) (nat (cc_ClaimRetryCount c)) None k"

text \<open>The continuation gets the context error if the wait was aborted.\<close>

definition waitBackoff :: "consumer_config \<Rightarrow> int \<Rightarrow> (goerr option \<Rightarrow> cprog) \<Rightarrow> cprog" where
  "waitBackoff c attempt k =
     CCtxErr (\<lambda>cerr.
       if cerr \<noteq> None then k cerr
       else CSleep (ExponentialDelay (cc_RetryBaseDelay c) (cc_MaxRetryDelay c) attempt) k)"

fun retry_attempts ::
  "consumer_config \<Rightarrow> outbox_entry \<Rightarrow> nat \<Rightarrow> nat \<Rightarrow> handle_result \<Rightarrow> (delivery_outcome \<Rightarrow> cprog) \<Rightarrow> cprog" where
  "retry_attempts c entry n 0 lastResult k =
     CCtxErr (\<lambda>cerr.
       if cerr \<noteq> None then k (requeueResult cerr)
       else k \<lparr>do_Disposition = DispositionReject, do_Err = hr_Err lastResult,
               do_ProcessReason = ProcessReasonRetryExhausted\<rparr>)"
| "retry_attempts c entry n (Suc left) lastResult k =
     CHandle entry (\<lambda>lastResult.
       if hr_Disposition lastResult = DispositionAck then k (deliveryFrom lastResult)
       else if isPermanentRejection lastResult then k (deliveryFrom lastResult)
       else if left > 0 then
         waitBackoff c (int (n - Suc left)) (\<lambda>cerr.
           if cerr \<noteq> None then k (requeueResult cerr) else retry_attempts c entry n left lastResult k)
       else retry_attempts c entry n left lastResult k)"

definition retryLoop ::
  "consumer_config \<Rightarrow> outbox_entry \<Rightarrow> bool \<Rightarrow> (delivery_outcome \<Rightarrow> cprog) \<Rightarrow> cprog" where
  "retryLoop c entry passthrough k =
     (if passthrough then CHandle entry (\<lambda>r. k (deliveryFrom r))
      else retry_attempts c entry (nat (cc_RetryCount c)) (nat (cc_RetryCount c))
             \<lparr>hr_Disposition = DispositionOther 0, hr_Err = None\<rparr> k)"

definition runWithRenewal ::
  "consumer_config \<Rightarrow> outbox_entry \<Rightarrow> receipt_ref \<Rightarrow> bool \<Rightarrow> (delivery_outcome \<Rightarrow> cprog) \<Rightarrow> cprog" where
  "runWithRenewal c entry receipt passthrough k =
     (if cc_LeaseRenewalInterval c \<le> 0 \<or> receipt = NilRef then retryLoop c entry passthrough k
      else CRenewStart receipt (retryLoop c entry passthrough (\<lambda>result.
        CRenewStop (\<lambda>leaseLost.
          if leaseLost \<and> do_Disposition result = DispositionAck
          then k \<lparr>do_Disposition = DispositionRequeue, do_Err = Some ErrLeaseExpired, do_ProcessReason = do_ProcessReason result\<rparr>
          else k result))))"

definition handleClaimState ::
  "consumer_config \<Rightarrow> outbox_entry \<Rightarrow> claim_state \<Rightarrow> receipt_ref \<Rightarrow> bool \<Rightarrow> (delivery_outcome \<times> receipt_ref \<Rightarrow> cprog) \<Rightarrow> cprog" where
  "handleClaimState c entry state receipt passthrough k =
     (case state of
        ClaimDone \<Rightarrow> k (deliveryFrom result_Ack, NilRef)
      | ClaimBusy \<Rightarrow> CSleep (cc_RetryBaseDelay c) (\<lambda>_. k (deliveryFrom (result_Requeue None), NilRef))
      | _ \<Rightarrow> runWithRenewal c entry receipt passthrough (\<lambda>result. k (result, receipt)))"

definition consumer_key :: "subscription \<Rightarrow> outbox_entry \<Rightarrow> string" where
  "consumer_key sub entry = su_ConsumerGroup sub @ '':'' @ oe_id entry"

definition consumer_Wrap ::
  "consumer_config \<Rightarrow> subscription \<Rightarrow> outbox_entry \<Rightarrow> (delivery_outcome \<times> receipt_ref \<Rightarrow> cprog) \<Rightarrow> cprog" where
  "consumer_Wrap c sub entry k =
     (let passthrough = brokerDelayPassthrough sub; key = consumer_key sub entry in
      if cc_ClaimPolicy c = ClaimPolicyFailOpen then
        CClaim key (cc_LeaseTTL c) (cc_IdempotencyTTL c) (\<lambda>(state, receipt, err).
          if err \<noteq> None then retryLoop c entry passthrough (\<lambda>result. k (result, NilRef))
          else handleClaimState c entry state receipt passthrough k)
      else
        claimWithRetry c key (\<lambda>(state, receipt, err).
          if err \<noteq> None then k (deliveryFrom (result_Requeue err), NilRef)
          else handleClaimState c entry state receipt passthrough k))"

text \<open>One tick of the renewal goroutine: the claimer after it, and whether the lease turned out to be lost.\<close>

definition leaseRenewal_tick :: "consumer_config \<Rightarrow> cl_sys \<Rightarrow> instant \<Rightarrow> receipt_ref \<Rightarrow> cl_sys \<times> bool" where
  "leaseRenewal_tick c cl now ref =
     (case ref of
        LiveRef i \<Rightarrow>
          (case Extend (cl_map cl) now (cl_receipts cl ! i) (cc_LeaseTTL c) of
             (m, err) \<Rightarrow> (cl_step cl now (ClExtend i (cc_LeaseTTL c)),
                         (case err of Some e \<Rightarrow> errors_Is e ErrLeaseExpired | None \<Rightarrow> False)))
      | _ \<Rightarrow> (cl, False))"

end
