(* ===== verification/Event_Bus.thy ===== *)
theory Event_Bus
  imports Event_Consumer
begin

text \<open>
  The in-memory event bus (\<^verbatim>\<open>framework/runtime/eventbus/eventbus.go\<close>): publishing to consumer groups, the
  delivery loop of a subscriber with its retries, settlements and dead letters, and the interleavings of
  the subscribers of a bus, whose deliveries run through the consumer base (\<open>Event_Consumer\<close>) over one
  claimer (\<open>Idempotency\<close>).

  A subscriber is a goroutine with a buffered channel; it takes an entry when its last delivery is over.
  The decoding of the envelope is an argument of the model. The nested Go maps of groups are one
  association list over (topic, group). The ready channels and the logging are left out; the context of a
  subscriber is cancelled at any time by the answers of its waits.

  \<^verbatim>\<open>Publish\<close> holds the bus lock for reading, so the subscriptions do not change while it runs, but other
  publications and the subscribers do. \<open>BPublish\<close> is a publication that nothing interrupts. The steps of a
  publication that is interrupted are the advance of a round-robin counter (\<open>BCount\<close>) and the send to one
  subscriber (\<open>BSend\<close>), which the schedules may contain in any order; so what is shown for all schedules
  holds for every interleaving of publications.
\<close>

section \<open>Definitions\<close>

subsection \<open>The delivery loop\<close>

definition bus_maxRetries :: nat where
  "bus_maxRetries = 3"

definition bus_baseRetryDelay :: duration where
  "bus_baseRetryDelay = 100 * millisecond"

definition bus_maxRetryDelay :: duration where
  "bus_maxRetryDelay = 30 * second"

definition bus_retryDelay :: "nat \<Rightarrow> (duration \<Rightarrow> cprog) \<Rightarrow> cprog" where
  "bus_retryDelay attempt k =
     (let base = ExponentialDelay bus_baseRetryDelay bus_maxRetryDelay (int attempt)
      in CRandN bus_baseRetryDelay (\<lambda>jitter. k (i64 (base + jitter))))"

definition nextAttemptDelay :: "duration list \<Rightarrow> nat \<Rightarrow> (duration \<Rightarrow> cprog) \<Rightarrow> cprog" where
  "nextAttemptDelay schedule attempt k =
     (if length schedule > 0 then k (schedule ! attempt) else bus_retryDelay attempt k)"

definition releaseSettlement :: "receipt_ref \<Rightarrow> cprog \<Rightarrow> cprog" where
  "releaseSettlement st p = (if st \<noteq> NilRef then CRelease st (\<lambda>_. p) else p)"

text \<open>The continuation gets whether the delivery is over, and the error to report when retries run out.\<close>

definition handleRequeue :: "delivery_outcome \<Rightarrow> receipt_ref \<Rightarrow> (bool \<Rightarrow> goerr option \<Rightarrow> cprog) \<Rightarrow> cprog" where
  "handleRequeue res st k = releaseSettlement st (k False (do_Err res))"

definition handleInvalidDisposition :: "delivery_outcome \<Rightarrow> receipt_ref \<Rightarrow> (bool \<Rightarrow> goerr option \<Rightarrow> cprog) \<Rightarrow> cprog" where
  "handleInvalidDisposition res st k = releaseSettlement st (k False (do_Err res))"

definition processResult ::
  "string \<Rightarrow> outbox_entry \<Rightarrow> delivery_outcome \<Rightarrow> receipt_ref \<Rightarrow> (bool \<Rightarrow> goerr option \<Rightarrow> cprog) \<Rightarrow> cprog" where
  "processResult topic entry res st k =
     (case do_Disposition res of
        DispositionAck \<Rightarrow>
          if st \<noteq> NilRef then
            CCommit st (\<lambda>commitErr.
              if commitErr \<noteq> None then releaseSettlement st (k False commitErr) else k True None)
          else k True None
      | DispositionReject \<Rightarrow> releaseSettlement st (CDeadLetter topic entry (do_Err res) (k True None))
      | DispositionRequeue \<Rightarrow> handleRequeue res st k
      | DispositionOther n \<Rightarrow> handleInvalidDisposition res st k)"

definition delivery_budget :: "duration list \<Rightarrow> nat" where
  "delivery_budget schedule = (if length schedule > 0 then length schedule + 1 else bus_maxRetries)"

text \<open>\<open>handler\<close> is the wrapped handler applied to the entry.\<close>

fun delivery_attempts ::
  "duration list \<Rightarrow> string \<Rightarrow> outbox_entry \<Rightarrow> ((delivery_outcome \<times> receipt_ref \<Rightarrow> cprog) \<Rightarrow> cprog) \<Rightarrow> nat \<Rightarrow> nat \<Rightarrow> cprog" where
  "delivery_attempts schedule topic entry handler n 0 = CEnd"
| "delivery_attempts schedule topic entry handler n (Suc left) =
     handler (\<lambda>(res, st).
       processResult topic entry res st (\<lambda>over err.
         if over then CEnd
         else if left = 0 then CDeadLetter topic entry err CEnd
         else nextAttemptDelay schedule (n - Suc left) (\<lambda>delay.
           CSleep delay (\<lambda>cerr.
             if cerr \<noteq> None then CEnd else delivery_attempts schedule topic entry handler n left))))"

definition handleWithRetry ::
  "duration list \<Rightarrow> string \<Rightarrow> outbox_entry \<Rightarrow> ((delivery_outcome \<times> receipt_ref \<Rightarrow> cprog) \<Rightarrow> cprog) \<Rightarrow> cprog" where
  "handleWithRetry schedule topic entry handler =
     delivery_attempts schedule topic entry handler (delivery_budget schedule) (delivery_budget schedule)"

text \<open>What a subscriber of the pipeline runs for one entry.\<close>

definition deliver :: "consumer_config \<Rightarrow> subscription \<Rightarrow> outbox_entry \<Rightarrow> cprog" where
  "deliver c sub entry = handleWithRetry (su_BrokerDelaySchedule sub) (su_Topic sub) entry (consumer_Wrap c sub entry)"

subsection \<open>The bus\<close>

record dead_letter =
  dl_Topic :: string
  dl_Entry :: "outbox_entry option"
  dl_LastErr :: "goerr option"

record bus_sub =
  bs_sub :: subscription
  bs_ch :: "outbox_entry list"
  bs_prog :: cprog
  bs_renew :: "receipt_ref option"
  bs_lost :: bool
  bs_left :: bool

record group_state =
  gs_subs :: "nat list"
  gs_rrIdx :: "64 word"

record event_bus =
  eb_groups :: "((string \<times> string) \<times> group_state) list"
  eb_subs :: "bus_sub list"
  eb_bufSize :: int
  eb_closed :: bool
  eb_deadLetters :: "dead_letter list"

definition bus_New :: "int \<Rightarrow> event_bus" where
  "bus_New bufSize =
     \<lparr>eb_groups = [], eb_subs = [], eb_bufSize = (if bufSize > 0 then bufSize else 256), eb_closed = False, eb_deadLetters = []\<rparr>"

definition errBusClosed :: goerr where
  "errBusClosed = Errcode KindInternal ErrBusClosed ''eventbus: bus is closed''"

text \<open>A send to a full channel drops the entry.\<close>

definition bus_send :: "outbox_entry \<Rightarrow> event_bus \<Rightarrow> nat \<Rightarrow> event_bus" where
  "bus_send entry b i =
     (let s = eb_subs b ! i in
      if int (length (bs_ch s)) < eb_bufSize b
      then b\<lparr>eb_subs := (eb_subs b)[i := s\<lparr>bs_ch := bs_ch s @ [entry]\<rparr>]\<rparr> else b)"

definition broadcast :: "outbox_entry \<Rightarrow> event_bus \<Rightarrow> group_state \<Rightarrow> event_bus" where
  "broadcast entry b gs = foldl (bus_send entry) b (gs_subs gs)"

definition rr_target :: "group_state \<Rightarrow> nat" where
  "rr_target gs = gs_subs gs ! unat (gs_rrIdx gs mod of_nat (length (gs_subs gs)))"

definition roundRobin :: "outbox_entry \<Rightarrow> event_bus \<Rightarrow> string \<times> string \<Rightarrow> group_state \<Rightarrow> event_bus" where
  "roundRobin entry b key gs =
     bus_send entry (b\<lparr>eb_groups := AList.update key (gs\<lparr>gs_rrIdx := gs_rrIdx gs + 1\<rparr>) (eb_groups b)\<rparr>) (rr_target gs)"

definition dispatchToGroup :: "outbox_entry \<Rightarrow> event_bus \<Rightarrow> string \<times> string \<Rightarrow> group_state \<Rightarrow> event_bus" where
  "dispatchToGroup entry b key gs = (if snd key = [] then broadcast entry b gs else roundRobin entry b key gs)"

definition appendRawDeadLetter :: "string \<Rightarrow> goerr \<Rightarrow> event_bus \<Rightarrow> event_bus" where
  "appendRawDeadLetter topic err b =
     b\<lparr>eb_deadLetters := eb_deadLetters b @ [\<lparr>dl_Topic = topic, dl_Entry = None, dl_LastErr = Some err\<rparr>]\<rparr>"

definition appendDeadLetter :: "string \<Rightarrow> outbox_entry \<Rightarrow> goerr option \<Rightarrow> event_bus \<Rightarrow> event_bus" where
  "appendDeadLetter topic entry err b =
     b\<lparr>eb_deadLetters := eb_deadLetters b @ [\<lparr>dl_Topic = topic, dl_Entry = Some entry, dl_LastErr = err\<rparr>]\<rparr>"

definition bus_Publish :: "(string \<Rightarrow> bytes \<Rightarrow> outbox_entry res) \<Rightarrow> event_bus \<Rightarrow> string \<Rightarrow> bytes \<Rightarrow> event_bus \<times> goerr option" where
  "bus_Publish UnmarshalEnvelope b topic payload =
     (if eb_closed b then (b, Some errBusClosed)
      else case UnmarshalEnvelope topic payload of
             Inl err \<Rightarrow> (appendRawDeadLetter topic err b, Some err)
           | Inr entry \<Rightarrow>
               (foldl (\<lambda>b (key, gs). if length (gs_subs gs) = 0 then b else dispatchToGroup entry b key gs) b
                  (filter (\<lambda>(key, gs). fst key = topic) (eb_groups b)), None))"

definition bus_Subscribe :: "event_bus \<Rightarrow> subscription \<Rightarrow> event_bus \<times> goerr option" where
  "bus_Subscribe b sub =
     (if eb_closed b then (b, Some errBusClosed)
      else let key = (su_Topic sub, su_ConsumerGroup sub);
               gs = (case map_of (eb_groups b) key of None \<Rightarrow> \<lparr>gs_subs = [], gs_rrIdx = 0\<rparr> | Some gs \<Rightarrow> gs);
               i = length (eb_subs b)
           in (b\<lparr>eb_subs := eb_subs b @ [\<lparr>bs_sub = sub, bs_ch = [], bs_prog = CEnd, bs_renew = None, bs_lost = False, bs_left = False\<rparr>],
                 eb_groups := AList.update key (gs\<lparr>gs_subs := gs_subs gs @ [i]\<rparr>) (eb_groups b)\<rparr>, None))"

definition removeSub :: "event_bus \<Rightarrow> nat \<Rightarrow> event_bus" where
  "removeSub b i =
     (let key = (su_Topic (bs_sub (eb_subs b ! i)), su_ConsumerGroup (bs_sub (eb_subs b ! i))) in
      case map_of (eb_groups b) key of
        None \<Rightarrow> b
      | Some gs \<Rightarrow>
          if i \<notin> set (gs_subs gs) then b
          else let subs = remove1 i (gs_subs gs) in
            if length subs = 0 then b\<lparr>eb_groups := AList.delete key (eb_groups b)\<rparr>
            else b\<lparr>eb_groups := AList.update key (gs\<lparr>gs_subs := subs\<rparr>) (eb_groups b)\<rparr>)"

definition bus_Close :: "event_bus \<Rightarrow> event_bus" where
  "bus_Close b = b\<lparr>eb_closed := True\<rparr>"

definition bus_Health :: "event_bus \<Rightarrow> string" where
  "bus_Health b = (if eb_closed b then ''closed'' else ''healthy'')"

definition DeadLetterLen :: "event_bus \<Rightarrow> int" where
  "DeadLetterLen b = int (length (eb_deadLetters b))"

definition DrainDeadLetters :: "event_bus \<Rightarrow> event_bus \<times> dead_letter list" where
  "DrainDeadLetters b = (b\<lparr>eb_deadLetters := []\<rparr>, eb_deadLetters b)"

subsection \<open>Interleavings\<close>

text \<open>What happened, newest first: claims acquired, commits that took effect, and the entries that the handler of a consumer group was called with.\<close>

datatype cevent = CEvAcquired string | CEvCommitted string | CEvHandled string string

record esys =
  ey_bus :: event_bus
  ey_claimer :: cl_sys
  ey_trace :: "cevent list"

record canswer =
  cn_token :: "string res"
  cn_res :: handle_result
  cn_ctx :: "goerr option"
  cn_raw :: "64 word option"
  cn_rand :: int

definition ctxCanceled :: goerr where
  "ctxCanceled = ErrorsNew ''context canceled''"

definition ctx_answer :: "canswer \<Rightarrow> bus_sub \<Rightarrow> goerr option" where
  "ctx_answer a w = (if bs_lost w then Some ctxCanceled else cn_ctx a)"

definition commit_effect :: "cl_sys \<Rightarrow> instant \<Rightarrow> receipt_ref \<Rightarrow> cevent list" where
  "commit_effect c now ref =
     (case ref of
        LiveRef i \<Rightarrow>
          if \<not> rc_used (cl_receipts c ! i) \<and> snd (claimer_commit c now ref) = None
          then [CEvCommitted (rc_key (cl_receipts c ! i))] else []
      | _ \<Rightarrow> [])"

text \<open>One step of a subscriber: the claimer, what happened, the dead letters to add, and the subscriber.\<close>

fun cprog_step ::
  "instant \<Rightarrow> canswer \<Rightarrow> cl_sys \<Rightarrow> bus_sub \<Rightarrow> cprog \<Rightarrow> cl_sys \<times> cevent list \<times> (event_bus \<Rightarrow> event_bus) \<times> bus_sub" where
  "cprog_step now a c w CEnd = (c, [], (\<lambda>b. b), w)"
| "cprog_step now a c w (CClaim key l d k) =
     (let (c', st, rest) = claimer_claim c now key l d (cn_token a)
      in (c', (if st = ClaimAcquired then [CEvAcquired key] else []), (\<lambda>b. b), w\<lparr>bs_prog := k (st, rest)\<rparr>))"
| "cprog_step now a c w (CHandle e k) =
     (c, [CEvHandled (su_ConsumerGroup (bs_sub w)) (oe_id e)], (\<lambda>b. b), w\<lparr>bs_prog := k (cn_res a)\<rparr>)"
| "cprog_step now a c w (CCtxErr k) = (c, [], (\<lambda>b. b), w\<lparr>bs_prog := k (ctx_answer a w)\<rparr>)"
| "cprog_step now a c w (CSleep d k) = (c, [], (\<lambda>b. b), w\<lparr>bs_prog := k (ctx_answer a w)\<rparr>)"
| "cprog_step now a c w (CCryptoRand k) = (c, [], (\<lambda>b. b), w\<lparr>bs_prog := k (cn_raw a)\<rparr>)"
| "cprog_step now a c w (CRandN n k) = (c, [], (\<lambda>b. b), w\<lparr>bs_prog := k (cn_rand a mod n)\<rparr>)"
| "cprog_step now a c w (CRenewStart ref p) = (c, [], (\<lambda>b. b), w\<lparr>bs_prog := p, bs_renew := Some ref, bs_lost := False\<rparr>)"
| "cprog_step now a c w (CRenewStop k) = (c, [], (\<lambda>b. b), w\<lparr>bs_prog := k (bs_lost w), bs_renew := None, bs_lost := False\<rparr>)"
| "cprog_step now a c w (CCommit ref k) =
     (let (c', err) = claimer_commit c now ref
      in (c', commit_effect c now ref, (\<lambda>b. b), w\<lparr>bs_prog := k err\<rparr>))"
| "cprog_step now a c w (CRelease ref k) =
     (let (c', err) = claimer_release c now ref in (c', [], (\<lambda>b. b), w\<lparr>bs_prog := k err\<rparr>))"
| "cprog_step now a c w (CDeadLetter t e err p) = (c, [], appendDeadLetter t e err, w\<lparr>bs_prog := p\<rparr>)"

datatype bop =
    BPublish string bytes
  | BCount "string \<times> string"
  | BSend outbox_entry nat
  | BSubscribe subscription
  | BTake nat
  | BRun nat canswer
  | BTick nat
  | BLeave nat
  | BClose

definition bus_count :: "event_bus \<Rightarrow> string \<times> string \<Rightarrow> event_bus" where
  "bus_count b key =
     (case map_of (eb_groups b) key of
        None \<Rightarrow> b
      | Some gs \<Rightarrow> b\<lparr>eb_groups := AList.update key (gs\<lparr>gs_rrIdx := gs_rrIdx gs + 1\<rparr>) (eb_groups b)\<rparr>)"

definition set_sub :: "event_bus \<Rightarrow> nat \<Rightarrow> bus_sub \<Rightarrow> event_bus" where
  "set_sub b i w = b\<lparr>eb_subs := (eb_subs b)[i := w]\<rparr>"

fun bstep ::
  "consumer_config \<Rightarrow> (string \<Rightarrow> bytes \<Rightarrow> outbox_entry res) \<Rightarrow> esys \<Rightarrow> instant \<Rightarrow> bop \<Rightarrow> esys" where
  "bstep cfg unm y now (BPublish topic payload) = y\<lparr>ey_bus := fst (bus_Publish unm (ey_bus y) topic payload)\<rparr>"
| "bstep cfg unm y now (BCount key) = y\<lparr>ey_bus := bus_count (ey_bus y) key\<rparr>"
| "bstep cfg unm y now (BSend entry i) =
     (if i < length (eb_subs (ey_bus y)) then y\<lparr>ey_bus := bus_send entry (ey_bus y) i\<rparr> else y)"
| "bstep cfg unm y now (BSubscribe sub) = y\<lparr>ey_bus := fst (bus_Subscribe (ey_bus y) sub)\<rparr>"
| "bstep cfg unm y now (BTake i) =
     (if i < length (eb_subs (ey_bus y)) then
        let w = eb_subs (ey_bus y) ! i in
        case (bs_prog w, bs_ch w) of
          (CEnd, entry # rest) \<Rightarrow>
            if bs_left w then y else y\<lparr>ey_bus := set_sub (ey_bus y) i (w\<lparr>bs_ch := rest, bs_prog := deliver cfg (bs_sub w) entry\<rparr>)\<rparr>
        | _ \<Rightarrow> y
      else y)"
| "bstep cfg unm y now (BRun i a) =
     (if i < length (eb_subs (ey_bus y)) then
        let w = eb_subs (ey_bus y) ! i; (c, evs, f, w') = cprog_step now a (ey_claimer y) w (bs_prog w)
        in \<lparr>ey_bus = f (set_sub (ey_bus y) i w'), ey_claimer = c, ey_trace = evs @ ey_trace y\<rparr>
      else y)"
| "bstep cfg unm y now (BTick i) =
     (if i < length (eb_subs (ey_bus y)) then
        let w = eb_subs (ey_bus y) ! i in
        case bs_renew w of
          None \<Rightarrow> y
        | Some ref \<Rightarrow>
            if bs_lost w then y
            else let (c, lost) = leaseRenewal_tick cfg (ey_claimer y) now ref
                 in y\<lparr>ey_claimer := c, ey_bus := set_sub (ey_bus y) i (w\<lparr>bs_lost := lost\<rparr>)\<rparr>
      else y)"
| "bstep cfg unm y now (BLeave i) =
     (if i < length (eb_subs (ey_bus y)) then
        let w = eb_subs (ey_bus y) ! i in
        case bs_prog w of
          CEnd \<Rightarrow> y\<lparr>ey_bus := removeSub (set_sub (ey_bus y) i (w\<lparr>bs_left := True\<rparr>)) i\<rparr>
        | _ \<Rightarrow> y
      else y)"
| "bstep cfg unm y now BClose = y\<lparr>ey_bus := bus_Close (ey_bus y)\<rparr>"

fun bexec :: "consumer_config \<Rightarrow> (string \<Rightarrow> bytes \<Rightarrow> outbox_entry res) \<Rightarrow> esys \<Rightarrow> (instant \<times> bop) list \<Rightarrow> esys" where
  "bexec cfg unm y [] = y"
| "bexec cfg unm y ((now, op) # ops) = bexec cfg unm (bstep cfg unm y now op) ops"

definition bstart :: "int \<Rightarrow> esys" where
  "bstart bufSize = \<lparr>ey_bus = bus_New bufSize, ey_claimer = cl_start, ey_trace = []\<rparr>"

subsection \<open>Vocabulary of the properties\<close>

definition sub_key :: "event_bus \<Rightarrow> nat \<Rightarrow> string \<times> string" where
  "sub_key b i = (su_Topic (bs_sub (eb_subs b ! i)), su_ConsumerGroup (bs_sub (eb_subs b ! i)))"

text \<open>Each group has its own key and its members, each of them once; a subscriber is only in the group of its topic and consumer group.\<close>

definition bus_wf :: "event_bus \<Rightarrow> bool" where
  "bus_wf b \<longleftrightarrow>
     distinct (map fst (eb_groups b)) \<and>
     (\<forall>(key, gs) \<in> set (eb_groups b). gs_subs gs \<noteq> [] \<and> distinct (gs_subs gs) \<and>
        (\<forall>i \<in> set (gs_subs gs). i < length (eb_subs b) \<and> sub_key b i = key))"

text \<open>The subscribers a publication to a topic is meant for: all members of the unnamed group, and one member of each named group.\<close>

definition group_targets :: "string \<times> string \<Rightarrow> group_state \<Rightarrow> nat set" where
  "group_targets key gs = (if snd key = [] then set (gs_subs gs) else {rr_target gs})"

definition publish_targets :: "event_bus \<Rightarrow> string \<Rightarrow> nat set" where
  "publish_targets b topic = (\<Union>(key, gs) \<in> set (eb_groups b). if fst key = topic then group_targets key gs else {})"

definition has_room :: "event_bus \<Rightarrow> nat \<Rightarrow> bool" where
  "has_room b i = (int (length (bs_ch (eb_subs b ! i))) < eb_bufSize b)"

text \<open>The subscribers after an entry was put into the channels of \<open>I\<close> that have room.\<close>

definition sent :: "outbox_entry \<Rightarrow> nat set \<Rightarrow> event_bus \<Rightarrow> bus_sub list" where
  "sent e I b = map (\<lambda>i. let w = eb_subs b ! i in if i \<in> I \<and> has_room b i then w\<lparr>bs_ch := bs_ch w @ [e]\<rparr> else w) [0..<length (eb_subs b)]"

text \<open>The groups after a publication: the counters of the named groups that were served moved on.\<close>

definition served :: "(string \<times> string) set \<Rightarrow> ((string \<times> string) \<times> group_state) list \<Rightarrow> ((string \<times> string) \<times> group_state) list" where
  "served K = map (\<lambda>(key, gs). (key, if key \<in> K \<and> snd key \<noteq> [] then gs\<lparr>gs_rrIdx := gs_rrIdx gs + 1\<rparr> else gs))"

definition sample_sub :: "string \<Rightarrow> subscription" where
  "sample_sub grp = \<lparr>su_Topic = ''order.placed'', su_ConsumerGroup = grp, su_CellID = ''ordercell'', su_SliceID = [],
     su_ContractID = ''order.placed.v1'', su_ContractKind = ''event'', su_ContractTransport = ''amqp'', su_BrokerDelaySchedule = []\<rparr>"

definition sample_consumer :: consumer_config where
  "sample_consumer = SetDefaults \<lparr>cc_RetryCount = 0, cc_RetryBaseDelay = 0, cc_IdempotencyTTL = 0, cc_LeaseTTL = 0,
     cc_ClaimPolicy = ClaimPolicyFailClosed, cc_ClaimRetryCount = 0, cc_ClaimRetryBaseDelay = 0, cc_MaxRetryDelay = 0, cc_LeaseRenewalInterval = 0\<rparr>"

definition sample_order :: outbox_entry where
  "sample_order = sample_command\<lparr>oe_id := ''evt-9'', oe_eventType := ''order.placed''\<rparr>"

definition sample_unmarshal :: "string \<Rightarrow> bytes \<Rightarrow> outbox_entry res" where
  "sample_unmarshal topic payload = Inr (if payload = [] then sample_order else sample_order\<lparr>oe_id := ''eu:evt-9''\<rparr>)"

definition sample_cn :: "string \<Rightarrow> canswer" where
  "sample_cn s = \<lparr>cn_token = Inr s, cn_res = result_Ack, cn_ctx = None, cn_raw = None, cn_rand = 0\<rparr>"

text \<open>Two subscribers compete in one group and a third one stands alone; the first one processes the event.\<close>

definition sample_subscriptions :: "(instant \<times> bop) list" where
  "sample_subscriptions = [(0, BSubscribe (sample_sub ''audit'')), (0, BSubscribe (sample_sub ''audit'')), (0, BSubscribe (sample_sub []))]"

definition sample_processing :: "(instant \<times> bop) list" where
  "sample_processing = sample_subscriptions @ [(1, BPublish ''order.placed'' []), (2, BTake 0)] @
     map (\<lambda>s. (3, BRun 0 (sample_cn s))) [''t1'', ''t2'', ''t3'', ''t4'', ''t5'']"

definition sample_redelivery :: "(instant \<times> bop) list" where
  "sample_redelivery = [(4, BPublish ''order.placed'' []), (5, BTake 1), (6, BRun 1 (sample_cn ''u1'')), (7, BTick 0), (7, BRun 1 (sample_cn ''u2''))]"

definition sample_bus :: "(instant \<times> bop) list \<Rightarrow> esys" where
  "sample_bus ops = bexec sample_consumer sample_unmarshal (bstart 8) ops"

section \<open>Lemmas\<close>

subsection \<open>Vocabulary of the properties\<close>

lemma sent_empty [simp]: "sent e {} b = eb_subs b"
  by (simp add: sent_def map_nth)

lemma length_sent [simp]: "length (sent e I b) = length (eb_subs b)"
  by (simp add: sent_def)

lemma nth_sent: "i < length (eb_subs b) \<Longrightarrow> sent e I b ! i =
  (if i \<in> I \<and> has_room b i then (eb_subs b ! i)\<lparr>bs_ch := bs_ch (eb_subs b ! i) @ [e]\<rparr> else eb_subs b ! i)"
  by (simp add: sent_def Let_def)

lemma send_bufSize [simp]: "eb_bufSize (bus_send e b i) = eb_bufSize b" "eb_groups (bus_send e b i) = eb_groups b"
  "eb_closed (bus_send e b i) = eb_closed b" "eb_deadLetters (bus_send e b i) = eb_deadLetters b"
  by (simp_all add: bus_send_def Let_def)

lemma send_sent:
  assumes "eb_subs b' = sent e I b" "eb_bufSize b' = eb_bufSize b" "i \<notin> I" "i < length (eb_subs b)"
  shows "eb_subs (bus_send e b' i) = sent e (insert i I) b"
proof (rule nth_equalityI)
  show "length (eb_subs (bus_send e b' i)) = length (sent e (insert i I) b)" using assms(1) by (simp add: bus_send_def Let_def)
  fix k assume "k < length (eb_subs (bus_send e b' i))"
  then have k: "k < length (eb_subs b)" using assms(1) by (simp add: bus_send_def Let_def split: if_splits)
  have room: "(int (length (bs_ch (eb_subs b' ! i))) < eb_bufSize b') = has_room b i"
    using assms by (simp add: has_room_def nth_sent)
  show "eb_subs (bus_send e b' i) ! k = sent e (insert i I) b ! k"
    using assms k room by (cases "k = i") (auto simp: bus_send_def Let_def nth_sent)
qed

lemma foldl_send_sent:
  "distinct is \<Longrightarrow> set is \<inter> I = {} \<Longrightarrow> set is \<subseteq> {..<length (eb_subs b)} \<Longrightarrow> eb_subs b' = sent e I b \<Longrightarrow> eb_bufSize b' = eb_bufSize b \<Longrightarrow>
   eb_subs (foldl (bus_send e) b' is) = sent e (I \<union> set is) b \<and> eb_bufSize (foldl (bus_send e) b' is) = eb_bufSize b \<and>
   eb_groups (foldl (bus_send e) b' is) = eb_groups b' \<and> eb_closed (foldl (bus_send e) b' is) = eb_closed b' \<and>
   eb_deadLetters (foldl (bus_send e) b' is) = eb_deadLetters b'"
proof (induction "is" arbitrary: I b')
  case (Cons i "is")
  from Cons.prems have "eb_subs (bus_send e b' i) = sent e (insert i I) b" by (intro send_sent) auto
  from Cons.IH [OF _ _ _ this] Cons.prems show ?case by auto
qed simp

lemma rr_target_in: "gs_subs gs \<noteq> [] \<Longrightarrow> length (gs_subs gs) < 2 ^ 64 \<Longrightarrow> rr_target gs \<in> set (gs_subs gs)"
  unfolding rr_target_def
  by (rule nth_mem) (simp add: unat_mod unsigned_of_nat take_bit_nat_eq_self)

lemma served_empty [simp]: "served {} gss = gss"
  by (simp add: served_def)

lemma fst_served [simp]: "map fst (served K gss) = map fst gss"
  by (induction gss) (auto simp: served_def)

lemma served_broadcast: "snd key = [] \<Longrightarrow> served (insert key K) gss = served K gss"
  by (induction gss) (auto simp: served_def)

lemma served_notin: "key \<notin> fst ` set gss \<Longrightarrow> served (insert key K) gss = served K gss"
  by (induction gss) (auto simp: served_def)

lemma served_update:
  "distinct (map fst gss) \<Longrightarrow> (key, gs) \<in> set gss \<Longrightarrow> key \<notin> K \<Longrightarrow> snd key \<noteq> [] \<Longrightarrow>
   AList.update key (gs\<lparr>gs_rrIdx := gs_rrIdx gs + 1\<rparr>) (served K gss) = served (insert key K) gss"
proof (induction gss)
  case (Cons x gss)
  obtain k g where x: "x = (k, g)" by (cases x)
  show ?case
  proof (cases "k = key")
    case True
    with Cons.prems have "gs = g" "key \<notin> fst ` set gss" by (auto simp: x image_iff)
    moreover from this(2) have "served (insert key K) gss = served K gss" by (rule served_notin)
    ultimately show ?thesis using True Cons.prems by (simp add: x served_def)
  next
    case False
    with Cons show ?thesis by (auto simp: x served_def)
  qed
qed simp

lemma bus_wfD:
  assumes "bus_wf b" "(key, gs) \<in> set (eb_groups b)"
  shows "gs_subs gs \<noteq> []" "distinct (gs_subs gs)" "\<And>i. i \<in> set (gs_subs gs) \<Longrightarrow> i < length (eb_subs b) \<and> sub_key b i = key"
  using assms by (auto simp: bus_wf_def)

lemma group_targets_in: "gs_subs gs \<noteq> [] \<Longrightarrow> length (gs_subs gs) < 2 ^ 64 \<Longrightarrow> group_targets key gs \<subseteq> set (gs_subs gs)"
  by (simp add: group_targets_def rr_target_in)

lemma wf_group_size: "bus_wf b \<Longrightarrow> (key, gs) \<in> set (eb_groups b) \<Longrightarrow> length (gs_subs gs) \<le> length (eb_subs b)"
proof -
  assume "bus_wf b" "(key, gs) \<in> set (eb_groups b)"
  then have "set (gs_subs gs) \<subseteq> {..<length (eb_subs b)}" "distinct (gs_subs gs)" by (auto dest: bus_wfD)
  then show ?thesis by (metis card_lessThan card_mono distinct_card finite_lessThan)
qed

lemma dispatch_sent:
  assumes wf: "bus_wf b" and size: "length (eb_subs b) < 2 ^ 64" and g: "(key, gs) \<in> set (eb_groups b)"
    and b': "eb_subs b' = sent e I b" "eb_bufSize b' = eb_bufSize b" "eb_groups b' = served K (eb_groups b)"
    and new: "key \<notin> K" "\<And>i. i \<in> I \<Longrightarrow> sub_key b i \<noteq> key"
  shows "eb_subs (dispatchToGroup e b' key gs) = sent e (I \<union> group_targets key gs) b \<and>
    eb_bufSize (dispatchToGroup e b' key gs) = eb_bufSize b \<and>
    eb_groups (dispatchToGroup e b' key gs) = served (insert key K) (eb_groups b) \<and>
    eb_closed (dispatchToGroup e b' key gs) = eb_closed b' \<and> eb_deadLetters (dispatchToGroup e b' key gs) = eb_deadLetters b'"
proof -
  note d = bus_wfD [OF wf g]
  have disj: "set (gs_subs gs) \<inter> I = {}" using d(3) new(2) by auto
  have sub: "set (gs_subs gs) \<subseteq> {..<length (eb_subs b)}" using d(3) by auto
  show ?thesis
  proof (cases "snd key = []")
    case True
    from foldl_send_sent [OF d(2) disj sub b'(1,2)] show ?thesis
      by (simp add: True dispatchToGroup_def broadcast_def group_targets_def b'(3) served_broadcast)
  next
    case False
    let ?b = "b'\<lparr>eb_groups := AList.update key (gs\<lparr>gs_rrIdx := gs_rrIdx gs + 1\<rparr>) (eb_groups b')\<rparr>"
    have t: "rr_target gs \<in> set (gs_subs gs)" using rr_target_in [OF d(1)] wf_group_size [OF wf g] size by simp
    have "eb_subs (bus_send e ?b (rr_target gs)) = sent e (insert (rr_target gs) I) b"
      by (rule send_sent) (use b' t disj sub in auto)
    then show ?thesis
      using False b' served_update [OF _ g new(1) False] wf
      by (simp add: dispatchToGroup_def roundRobin_def group_targets_def bus_wf_def)
  qed
qed

lemma dispatch_all:
  assumes "bus_wf b" "length (eb_subs b) < 2 ^ 64" "set gss \<subseteq> set (eb_groups b)" "distinct (map fst gss)" "fst ` set gss \<inter> K = {}"
    and "eb_subs b' = sent e I b" "eb_bufSize b' = eb_bufSize b" "eb_groups b' = served K (eb_groups b)" "\<And>i. i \<in> I \<Longrightarrow> sub_key b i \<in> K"
  defines "f \<equiv> \<lambda>b (key, gs). if length (gs_subs gs) = 0 then b else dispatchToGroup e b key gs"
  shows "eb_subs (foldl f b' gss) = sent e (I \<union> (\<Union>(key, gs) \<in> set gss. group_targets key gs)) b \<and>
    eb_bufSize (foldl f b' gss) = eb_bufSize b \<and> eb_groups (foldl f b' gss) = served (K \<union> fst ` set gss) (eb_groups b) \<and>
    eb_closed (foldl f b' gss) = eb_closed b' \<and> eb_deadLetters (foldl f b' gss) = eb_deadLetters b'"
  using assms(3-9)
proof (induction gss arbitrary: b' I K)
  case (Cons x gss)
  obtain key gs where x: "x = (key, gs)" by (cases x)
  have g: "(key, gs) \<in> set (eb_groups b)" "key \<notin> K" using Cons.prems by (auto simp: x)
  have new: "i \<in> I \<Longrightarrow> sub_key b i \<noteq> key" for i using Cons.prems(7) g(2) by blast
  note step = dispatch_sent [OF assms(1,2) g(1) Cons.prems(4-6) g(2) new]
  have f: "f b' (key, gs) = dispatchToGroup e b' key gs" using bus_wfD(1) [OF assms(1) g(1)] by (simp add: f_def)
  have t: "sub_key b i = key" if "i \<in> group_targets key gs" for i
    using that group_targets_in [OF bus_wfD(1) [OF assms(1) g(1)]] bus_wfD(3) [OF assms(1) g(1)] wf_group_size [OF assms(1) g(1)] assms(2) by fastforce
  have "eb_subs (foldl f (f b' x) gss) = sent e ((I \<union> group_targets key gs) \<union> (\<Union>(key, gs) \<in> set gss. group_targets key gs)) b \<and>
    eb_bufSize (foldl f (f b' x) gss) = eb_bufSize b \<and> eb_groups (foldl f (f b' x) gss) = served (insert key K \<union> fst ` set gss) (eb_groups b) \<and>
    eb_closed (foldl f (f b' x) gss) = eb_closed (f b' x) \<and> eb_deadLetters (foldl f (f b' x) gss) = eb_deadLetters (f b' x)"
    by (rule Cons.IH) (use Cons.prems step t in \<open>auto simp: x f\<close>)
  then show ?case using step by (simp add: f x Un_assoc)
qed simp

lemma served_topic:
  "served (fst ` set (filter (\<lambda>(key, gs). fst key = topic) gss)) gss = served {key. fst key = topic} gss"
  by (auto simp: served_def image_iff)

lemma publish_sent:
  assumes "bus_wf b" "length (eb_subs b) < 2 ^ 64" "\<not> eb_closed b" "unm topic payload = Inr e"
  shows "\<exists>b'. bus_Publish unm b topic payload = (b', None) \<and> eb_subs b' = sent e (publish_targets b topic) b \<and>
    eb_bufSize b' = eb_bufSize b \<and> eb_groups b' = served {key. fst key = topic} (eb_groups b) \<and>
    eb_closed b' = eb_closed b \<and> eb_deadLetters b' = eb_deadLetters b"
proof -
  let ?gss = "filter (\<lambda>(key, gs). fst key = topic) (eb_groups b)"
  have "distinct (map fst ?gss)" using assms(1) by (auto simp: bus_wf_def distinct_map inj_on_def)
  moreover have "(\<Union>(key, gs) \<in> set ?gss. group_targets key gs) = publish_targets b topic"
    by (auto simp: publish_targets_def split: if_splits)
  ultimately show ?thesis
    using dispatch_all [OF assms(1,2), of ?gss "{}" b e "{}"] assms(3,4) served_topic [of topic "eb_groups b"]
    by (auto simp: bus_Publish_def)
qed

lemma bus_wf_subs:
  assumes "bus_wf b" "length (eb_subs b') = length (eb_subs b)" "\<And>i. i < length (eb_subs b) \<Longrightarrow> bs_sub (eb_subs b' ! i) = bs_sub (eb_subs b ! i)"
    and "map (\<lambda>(key, gs). (key, gs_subs gs)) (eb_groups b') = map (\<lambda>(key, gs). (key, gs_subs gs)) (eb_groups b)"
  shows "bus_wf b'"
proof -
  have m: "(key, ss) \<in> set (map (\<lambda>(key, gs). (key, gs_subs gs)) (eb_groups b)) \<longleftrightarrow> (\<exists>gs. (key, gs) \<in> set (eb_groups b') \<and> ss = gs_subs gs)" for key ss
    unfolding assms(4) [symmetric] by force
  have "map fst (eb_groups b') = map fst (eb_groups b)"
    using arg_cong [OF assms(4), of "map fst"] by (simp add: comp_def split_def)
  moreover have "gs_subs gs \<noteq> [] \<and> distinct (gs_subs gs) \<and> (\<forall>i \<in> set (gs_subs gs). i < length (eb_subs b') \<and> sub_key b' i = key)"
    if g: "(key, gs) \<in> set (eb_groups b')" for key gs
  proof -
    from g m [of key "gs_subs gs"] obtain gs' where "(key, gs') \<in> set (eb_groups b)" "gs_subs gs' = gs_subs gs" by force
    with bus_wfD [OF assms(1), of key gs'] assms(2,3) show ?thesis by (auto simp: sub_key_def)
  qed
  ultimately show ?thesis using assms(1) by (auto simp: bus_wf_def)
qed

lemma bexec_foldl: "bexec cfg unm y ops = foldl (\<lambda>y (t, op). bstep cfg unm y t op) y ops"
  by (induction cfg unm y ops rule: bexec.induct) simp_all

lemma bexec_append: "bexec cfg unm y (xs @ ys) = bexec cfg unm (bexec cfg unm y xs) ys"
  by (simp add: bexec_foldl)

lemma removeSub_subs [simp]: "eb_subs (removeSub b i) = eb_subs b"
  by (simp add: removeSub_def Let_def split: option.split)

lemma bus_wf_New: "bus_wf (bus_New n)"
  by (simp add: bus_wf_def bus_New_def)

lemma map_of_group: "bus_wf b \<Longrightarrow> map_of (eb_groups b) key = Some gs \<longleftrightarrow> (key, gs) \<in> set (eb_groups b)"
  by (simp add: bus_wf_def)

lemma set_update: "distinct (map fst al) \<Longrightarrow> set (AList.update k v al) = insert (k, v) {x \<in> set al. fst x \<noteq> k}"
  by (induction al) (auto simp: image_iff)

lemma bus_wf_update:
  assumes "bus_wf b" and "gs_subs gs \<noteq> []" "distinct (gs_subs gs)" "\<And>i. i \<in> set (gs_subs gs) \<Longrightarrow> i < length (eb_subs b) \<and> sub_key b i = key"
  shows "bus_wf (b\<lparr>eb_groups := AList.update key gs (eb_groups b)\<rparr>)"
  using assms by (auto simp: bus_wf_def set_update distinct_update sub_key_def)

lemma bus_wf_Subscribe:
  assumes "bus_wf b"
  shows "bus_wf (fst (bus_Subscribe b sub))"
proof (cases "eb_closed b")
  case False
  let ?w = "\<lparr>bs_sub = sub, bs_ch = [], bs_prog = CEnd, bs_renew = None, bs_lost = False, bs_left = False\<rparr>"
  let ?b = "b\<lparr>eb_subs := eb_subs b @ [?w]\<rparr>" and ?key = "(su_Topic sub, su_ConsumerGroup sub)"
  let ?gs = "case map_of (eb_groups b) ?key of None \<Rightarrow> \<lparr>gs_subs = [], gs_rrIdx = 0\<rparr> | Some gs \<Rightarrow> gs"
  have keys: "sub_key ?b i = sub_key b i" if "i < length (eb_subs b)" for i using that by (simp add: sub_key_def nth_append)
  have wf: "bus_wf ?b" using assms keys by (fastforce simp: bus_wf_def)
  have old: "distinct (gs_subs ?gs)" "\<And>i. i \<in> set (gs_subs ?gs) \<Longrightarrow> i < length (eb_subs b) \<and> sub_key b i = ?key"
  proof -
    have "distinct (gs_subs ?gs) \<and> (\<forall>i \<in> set (gs_subs ?gs). i < length (eb_subs b) \<and> sub_key b i = ?key)"
    proof (cases "map_of (eb_groups b) ?key")
      case (Some gs)
      then have "(?key, gs) \<in> set (eb_groups b)" by (rule map_of_SomeD)
      from bus_wfD(2,3) [OF assms this] Some show ?thesis by simp
    qed simp
    then show "distinct (gs_subs ?gs)" "\<And>i. i \<in> set (gs_subs ?gs) \<Longrightarrow> i < length (eb_subs b) \<and> sub_key b i = ?key" by blast+
  qed
  have "bus_wf (?b\<lparr>eb_groups := AList.update ?key (?gs\<lparr>gs_subs := gs_subs ?gs @ [length (eb_subs b)]\<rparr>) (eb_groups ?b)\<rparr>)"
  proof (rule bus_wf_update [OF wf])
    fix i assume "i \<in> set (gs_subs (?gs\<lparr>gs_subs := gs_subs ?gs @ [length (eb_subs b)]\<rparr>))"
    then show "i < length (eb_subs ?b) \<and> sub_key ?b i = ?key"
      using old(2) [of i] keys [of i] by (auto simp: sub_key_def nth_append)
  qed (use old in auto)
  then show ?thesis using False by (simp add: bus_Subscribe_def Let_def)
qed (simp add: assms bus_Subscribe_def)

lemma bus_wf_removeSub:
  assumes "bus_wf b"
  shows "bus_wf (removeSub b i)"
proof (cases "map_of (eb_groups b) (sub_key b i)")
  case None
  then show ?thesis using assms by (simp add: removeSub_def sub_key_def Let_def)
next
  case (Some gs)
  then have g: "(sub_key b i, gs) \<in> set (eb_groups b)" using map_of_group [OF assms] by blast
  note d = bus_wfD [OF assms g]
  have del: "bus_wf (b\<lparr>eb_groups := AList.delete (sub_key b i) (eb_groups b)\<rparr>)"
    using assms by (auto simp: bus_wf_def AList.delete_eq sub_key_def distinct_map inj_on_def)
  have "bus_wf (b\<lparr>eb_groups := AList.update (sub_key b i) (gs\<lparr>gs_subs := remove1 i (gs_subs gs)\<rparr>) (eb_groups b)\<rparr>)"
    if "remove1 i (gs_subs gs) \<noteq> []"
    by (rule bus_wf_update [OF assms]) (use that d in \<open>auto dest: notin_set_remove1 in_set_remove1\<close>)
  with del Some assms show ?thesis by (auto simp: removeSub_def sub_key_def Let_def)
qed

lemma bus_wf_Publish:
  assumes "bus_wf b" "length (eb_subs b) < 2 ^ 64"
  shows "bus_wf (fst (bus_Publish unm b topic payload)) \<and> length (eb_subs (fst (bus_Publish unm b topic payload))) = length (eb_subs b)"
proof (cases "eb_closed b \<or> (\<exists>err. unm topic payload = Inl err)")
  case True
  have "bus_wf (appendRawDeadLetter topic err b)" for err
    by (rule bus_wf_subs [OF assms(1)]) (simp_all add: appendRawDeadLetter_def)
  with True show ?thesis using assms(1) by (auto simp: bus_Publish_def appendRawDeadLetter_def split: sum.split)
next
  case False
  then obtain e where e: "\<not> eb_closed b" "unm topic payload = Inr e" by (cases "unm topic payload") auto
  from publish_sent [where unm = unm, OF assms e] obtain b' where b': "bus_Publish unm b topic payload = (b', None)"
    "eb_subs b' = sent e (publish_targets b topic) b" "eb_groups b' = served {key. fst key = topic} (eb_groups b)" by blast
  have "bus_wf b'"
    by (rule bus_wf_subs [OF assms(1)]) (auto simp: b' nth_sent served_def split: prod.split)
  then show ?thesis by (simp add: b')
qed

lemma cprog_step_sub: "cprog_step now a c w p = (c', evs, f, w') \<Longrightarrow> bs_sub w' = bs_sub w \<and> (\<exists>dl. \<forall>b. f b = b\<lparr>eb_deadLetters := eb_deadLetters b @ dl\<rparr>)"
  by (cases p) (auto simp: Let_def appendDeadLetter_def split: prod.splits intro: exI [of _ "[]"])

lemma bus_wf_set_sub:
  assumes "bus_wf b" "bs_sub w = bs_sub (eb_subs b ! i)"
  shows "bus_wf (set_sub b i w)"
proof (rule bus_wf_subs [OF assms(1)])
  fix k assume "k < length (eb_subs b)"
  then show "bs_sub (eb_subs (set_sub b i w) ! k) = bs_sub (eb_subs b ! k)"
    using assms(2) by (cases "k = i") (simp_all add: set_sub_def)
qed (simp_all add: set_sub_def)

lemma bus_wf_send: "bus_wf b \<Longrightarrow> bus_wf (bus_send e b i)"
proof (rule bus_wf_subs)
  fix k assume "k < length (eb_subs b)"
  then show "bs_sub (eb_subs (bus_send e b i) ! k) = bs_sub (eb_subs b ! k)"
    by (cases "k = i") (simp_all add: bus_send_def Let_def)
qed (simp_all add: bus_send_def Let_def)

lemma bus_wf_count:
  assumes "bus_wf b"
  shows "bus_wf (bus_count b key)"
proof (cases "map_of (eb_groups b) key")
  case (Some gs)
  note d = bus_wfD [OF assms map_of_SomeD [OF Some]]
  have "bus_wf (b\<lparr>eb_groups := AList.update key (gs\<lparr>gs_rrIdx := gs_rrIdx gs + 1\<rparr>) (eb_groups b)\<rparr>)"
    by (rule bus_wf_update [OF assms]) (use d in auto)
  with Some show ?thesis by (simp add: bus_count_def)
qed (simp add: assms bus_count_def)

text \<open>The parts of an uninterrupted publication are these steps.\<close>

lemma dispatch_steps:
  assumes "\<forall>i \<in> set (gs_subs gs). i < length (eb_subs (ey_bus y))" and "gs_subs gs \<noteq> []" "length (gs_subs gs) < 2 ^ 64"
    and "map_of (eb_groups (ey_bus y)) key = Some gs"
  shows "y\<lparr>ey_bus := dispatchToGroup e (ey_bus y) key gs\<rparr> =
    bexec cfg unm y (if snd key = [] then map (\<lambda>i. (now, BSend e i)) (gs_subs gs) else [(now, BCount key), (now, BSend e (rr_target gs))])"
proof (cases "snd key = []")
  case True
  have "y\<lparr>ey_bus := foldl (bus_send e) (ey_bus y) is\<rparr> = bexec cfg unm y (map (\<lambda>i. (now, BSend e i)) is)"
    if "\<forall>i \<in> set is. i < length (eb_subs (ey_bus y))" for "is" and y :: esys
    using that
  proof (induction "is" arbitrary: y)
    case (Cons i "is")
    have "length (eb_subs (bus_send e (ey_bus y) i)) = length (eb_subs (ey_bus y))" by (simp add: bus_send_def Let_def)
    with Cons.IH [of "y\<lparr>ey_bus := bus_send e (ey_bus y) i\<rparr>"] Cons.prems show ?case by simp
  qed simp
  with True assms(1) show ?thesis by (simp add: dispatchToGroup_def broadcast_def)
next
  case False
  have "rr_target gs \<in> set (gs_subs gs)" using rr_target_in [OF assms(2,3)] .
  with False assms(1,4) show ?thesis by (simp add: dispatchToGroup_def roundRobin_def bus_count_def)
qed

lemma bus_wf_bstep:
  assumes wf: "bus_wf (ey_bus y)" and size: "length (eb_subs (ey_bus y)) < 2 ^ 64"
  shows "bus_wf (ey_bus (bstep cfg unm y now op)) \<and> length (eb_subs (ey_bus (bstep cfg unm y now op))) \<le> Suc (length (eb_subs (ey_bus y)))"
proof (cases op)
  case (BPublish topic payload)
  then show ?thesis using bus_wf_Publish [OF assms, of unm topic payload] by simp
next
  case (BCount key)
  then show ?thesis using bus_wf_count [OF wf, of key] by (simp add: bus_count_def split: option.split)
next
  case (BSend e i)
  then show ?thesis using wf bus_wf_send [OF wf, of e i] by (simp add: bus_send_def Let_def)
next
  case (BSubscribe sub)
  then show ?thesis using bus_wf_Subscribe [OF wf, of sub] by (simp add: bus_Subscribe_def Let_def)
next
  case (BRun i a)
  let ?w = "eb_subs (ey_bus y) ! i"
  obtain c' evs f w' where st: "cprog_step now a (ey_claimer y) ?w (bs_prog ?w) = (c', evs, f, w')" by (metis prod_cases4)
  from cprog_step_sub [OF st] obtain dl where w: "bs_sub w' = bs_sub ?w" and f: "\<And>b. f b = b\<lparr>eb_deadLetters := eb_deadLetters b @ dl\<rparr>" by blast
  have "bus_wf (f (set_sub (ey_bus y) i w'))"
    by (rule bus_wf_subs [OF bus_wf_set_sub [OF wf w]]) (simp_all add: f)
  then show ?thesis using wf st by (simp add: BRun Let_def f set_sub_def)
next
  case (BTake i)
  then show ?thesis using wf by (auto simp: Let_def bus_wf_set_sub split: cprog.split list.split) (simp add: set_sub_def)
next
  case (BTick i)
  then show ?thesis using wf by (auto simp: Let_def bus_wf_set_sub split: option.split prod.split) (simp add: set_sub_def)
next
  case (BLeave i)
  then show ?thesis using wf by (auto simp: Let_def bus_wf_set_sub bus_wf_removeSub split: cprog.split) (simp add: set_sub_def)
next
  case BClose
  have "bus_wf (bus_Close (ey_bus y))" by (rule bus_wf_subs [OF wf]) (simp_all add: bus_Close_def)
  then show ?thesis using BClose by (simp add: bus_Close_def)
qed

lemma bus_wf_bexec:
  "bus_wf (ey_bus y) \<Longrightarrow> length (eb_subs (ey_bus y)) + length ops < 2 ^ 64 \<Longrightarrow>
   bus_wf (ey_bus (bexec cfg unm y ops)) \<and> length (eb_subs (ey_bus (bexec cfg unm y ops))) \<le> length (eb_subs (ey_bus y)) + length ops"
proof (induction ops arbitrary: y)
  case (Cons top ops)
  obtain t op where top: "top = (t, op)" by (cases top)
  from bus_wf_bstep [OF Cons.prems(1), of cfg unm t op] Cons.prems(2)
  have s: "bus_wf (ey_bus (bstep cfg unm y t op))" "length (eb_subs (ey_bus (bstep cfg unm y t op))) \<le> Suc (length (eb_subs (ey_bus y)))" by auto
  from Cons.IH [OF s(1)] s(2) Cons.prems(2) show ?case by (simp only: top bexec.simps) simp
qed simp

subsection \<open>Properties of publishing\<close>

lemma rr_target_of_group:
  assumes wf: "bus_wf b" and size: "length (eb_subs b) < 2 ^ 64" and g: "(key, gs) \<in> set (eb_groups b)" "fst key = topic"
  shows "publish_targets b topic \<inter> set (gs_subs gs) = group_targets key gs"
proof -
  have in_group: "group_targets k g \<subseteq> set (gs_subs g)" if "(k, g) \<in> set (eb_groups b)" for k g
    using group_targets_in [OF bus_wfD(1) [OF wf that]] wf_group_size [OF wf that] size by simp
  have same: "g = gs" if "(key, g) \<in> set (eb_groups b)" for g
    using wf that g(1) by (simp add: bus_wf_def) (metis eq_key_imp_eq_value)
  show ?thesis
  proof (intro equalityI subsetI IntI)
    fix i assume "i \<in> publish_targets b topic \<inter> set (gs_subs gs)"
    then obtain k g' where k: "(k, g') \<in> set (eb_groups b)" "i \<in> group_targets k g'" and i: "i \<in> set (gs_subs gs)"
      by (auto simp: publish_targets_def split: if_splits)
    have "k = key" using bus_wfD(3) [OF wf k(1), of i] bus_wfD(3) [OF wf g(1) i] in_group [OF k(1)] k(2) by auto
    with k same show "i \<in> group_targets key gs" by blast
  next
    fix i assume i: "i \<in> group_targets key gs"
    then show "i \<in> publish_targets b topic" unfolding publish_targets_def by (intro UN_I [OF g(1)]) (simp add: g(2))
    show "i \<in> set (gs_subs gs)" using i in_group [OF g(1)] by blast
  qed
qed

lemma sample_bus_facts:
  "eb_closed (ey_bus (sample_bus sample_subscriptions)) = False" "length (eb_subs (ey_bus (sample_bus sample_subscriptions))) = 3"
  "publish_targets (ey_bus (sample_bus sample_subscriptions)) ''order.placed'' = {0, 2}"
  "map bs_ch (eb_subs (ey_bus (sample_bus sample_subscriptions))) = [[], [], []]"
  "eb_bufSize (ey_bus (sample_bus sample_subscriptions)) = 8"
  by code_simp+

subsection \<open>Properties\<close>

text \<open>
  C20. Publishing to an open bus reaches every group of the topic: each subscriber that the publication is
  meant for and whose channel has room gets the entry at the end of its channel and no other channel
  changes; in the unnamed group all members are meant, in a named group exactly one, and the
  counter of the named group moves on.
\<close>

theorem publish_fans_out:
  assumes "b = ey_bus (bexec cfg unm (bstart n) ops)" and "length ops < 2 ^ 64" and "\<not> eb_closed b" and "unm topic payload = Inr e"
  shows "\<exists>b'. bus_Publish unm b topic payload = (b', None) \<and> length (eb_subs b') = length (eb_subs b) \<and>
    (\<forall>i < length (eb_subs b). bs_ch (eb_subs b' ! i) =
       bs_ch (eb_subs b ! i) @ (if i \<in> publish_targets b topic \<and> has_room b i then [e] else [])) \<and>
    (\<forall>(key, gs) \<in> set (eb_groups b). fst key = topic \<longrightarrow>
       publish_targets b topic \<inter> set (gs_subs gs) = (if snd key = [] then set (gs_subs gs) else {rr_target gs}) \<and>
       (key, if snd key = [] then gs else gs\<lparr>gs_rrIdx := gs_rrIdx gs + 1\<rparr>) \<in> set (eb_groups b'))"
proof -
  have "bus_wf (ey_bus (bstart n))" "length (eb_subs (ey_bus (bstart n))) = 0" using bus_wf_New by (simp_all add: bstart_def) (simp add: bus_New_def)
  then have wf: "bus_wf b" and size: "length (eb_subs b) < 2 ^ 64"
    using bus_wf_bexec [of "bstart n" ops cfg unm] assms(1,2) by simp_all
  from publish_sent [where unm = unm, OF wf size assms(3,4)] obtain b' where b': "bus_Publish unm b topic payload = (b', None)"
    "eb_subs b' = sent e (publish_targets b topic) b" "eb_groups b' = served {key. fst key = topic} (eb_groups b)" by blast
  have each: "publish_targets b topic \<inter> set (gs_subs gs) = (if snd key = [] then set (gs_subs gs) else {rr_target gs}) \<and>
      (key, if snd key = [] then gs else gs\<lparr>gs_rrIdx := gs_rrIdx gs + 1\<rparr>) \<in> set (eb_groups b')"
    if "(key, gs) \<in> set (eb_groups b)" "fst key = topic" for key gs
  proof
    show "publish_targets b topic \<inter> set (gs_subs gs) = (if snd key = [] then set (gs_subs gs) else {rr_target gs})"
      using rr_target_of_group [OF wf size that] by (simp add: group_targets_def)
    show "(key, if snd key = [] then gs else gs\<lparr>gs_rrIdx := gs_rrIdx gs + 1\<rparr>) \<in> set (eb_groups b')"
      unfolding b'(3) served_def set_map by (rule image_eqI [OF _ that(1)]) (use that(2) in simp)
  qed
  have "case x of (key, gs) \<Rightarrow> fst key = topic \<longrightarrow>
       publish_targets b topic \<inter> set (gs_subs gs) = (if snd key = [] then set (gs_subs gs) else {rr_target gs}) \<and>
       (key, if snd key = [] then gs else gs\<lparr>gs_rrIdx := gs_rrIdx gs + 1\<rparr>) \<in> set (eb_groups b')" if "x \<in> set (eb_groups b)" for x
    using each that by (cases x) blast
  then show ?thesis using b'(1,2) by (intro exI [of _ b'] conjI ballI allI impI) (simp_all add: nth_sent)
qed

theorem publish_fans_out_witness:
  "map bs_ch (eb_subs (fst (bus_Publish sample_unmarshal (ey_bus (sample_bus sample_subscriptions)) ''order.placed'' []))) =
     [[sample_order], [], [sample_order]]"
proof -
  let ?b = "ey_bus (sample_bus sample_subscriptions)"
  have ch: "i < 3 \<Longrightarrow> bs_ch (eb_subs ?b ! i) = []" for i
    using sample_bus_facts(2,4) nth_map [of i "eb_subs ?b" bs_ch] by (auto simp: less_Suc_eq numeral_3_eq_3)
  have h: "?b = ey_bus (bexec sample_consumer sample_unmarshal (bstart 8) sample_subscriptions)" "length sample_subscriptions < 2 ^ 64"
    "\<not> eb_closed ?b" "sample_unmarshal ''order.placed'' [] = Inr sample_order"
    by (simp_all add: sample_bus_facts sample_unmarshal_def) (simp_all add: sample_bus_def sample_subscriptions_def)
  from publish_fans_out [where unm = sample_unmarshal, OF h] obtain b' where
    b': "bus_Publish sample_unmarshal ?b ''order.placed'' [] = (b', None)" "length (eb_subs b') = length (eb_subs ?b)"
    "\<forall>i < length (eb_subs ?b). bs_ch (eb_subs b' ! i) =
       bs_ch (eb_subs ?b ! i) @ (if i \<in> publish_targets ?b ''order.placed'' \<and> has_room ?b i then [sample_order] else [])"
    by (elim exE conjE)
  have "bs_ch (eb_subs b' ! i) = (if i \<in> {0, 2} then [sample_order] else [])" if "i < 3" for i
    using b'(3) that ch [OF that] by (simp add: sample_bus_facts has_room_def)
  then have "map bs_ch (eb_subs b') = [[sample_order], [], [sample_order]]"
    using b'(2) by (intro nth_equalityI) (auto simp: sample_bus_facts less_Suc_eq numeral_3_eq_3)
  then show ?thesis by (simp add: b'(1))
qed

end
