(* ===== verification/Event_Delivery.thy ===== *)
theory Event_Delivery
  imports Event_Bus
begin

text \<open>
  What the event bus and the consumer base promise together (\<open>Event_Bus\<close>, \<open>Event_Consumer\<close>).

  The first part follows one delivery through every answer the claimer, the handler, the context and the
  timers can give (\<open>runs\<close>): it is accounted for and calls the handler a bounded number of times. The
  second part follows all subscribers of a bus through every interleaving (\<open>bexec\<close>): each open receipt of
  the claimer is held by exactly one delivery, renewal touches only open receipts, and a message that was
  processed is not acquired again while its done mark lasts.
\<close>

section \<open>Definitions\<close>

subsection \<open>Vocabulary of the properties\<close>

text \<open>What can be seen of a delivery, in order. A claim shows its answer and whether the call failed.\<close>

datatype cfact = FClaim claim_state bool | FHandled disposition | FCommitted | FDead | FAborted

text \<open>What a claimer may answer: a receipt of its own exactly with an acquired claim.\<close>

fun claim_answer :: "claim_state \<times> receipt_ref \<times> goerr option \<Rightarrow> bool" where
  "claim_answer (st, ref, err) =
     (((case ref of LiveRef i \<Rightarrow> True | _ \<Rightarrow> False) = (st = ClaimAcquired \<and> err = None)) \<and>
      (case st of ClaimOther n \<Rightarrow> False | _ \<Rightarrow> True))"

inductive runs :: "cprog \<Rightarrow> cfact list \<Rightarrow> bool" where
  run_end: "runs CEnd []"
| run_claim: "claim_answer (st, ref, None) \<Longrightarrow> runs (k (st, ref, None)) fs \<Longrightarrow> runs (CClaim key l d k) (FClaim st False # fs)"
| run_claim_failed: "claim_answer (st, ref, Some err) \<Longrightarrow> runs (k (st, ref, Some err)) fs \<Longrightarrow> runs (CClaim key l d k) (FClaim st True # fs)"
| run_handle: "runs (k r) fs \<Longrightarrow> runs (CHandle e k) (FHandled (hr_Disposition r) # fs)"
| run_ctx: "runs (k err) fs \<Longrightarrow> runs (CCtxErr k) fs"
| run_sleep: "runs (k None) fs \<Longrightarrow> runs (CSleep d k) fs"
| run_abort: "runs (k (Some err)) fs \<Longrightarrow> runs (CSleep d k) (FAborted # fs)"
| run_crypto: "runs (k raw) fs \<Longrightarrow> runs (CCryptoRand k) fs"
| run_rand: "runs (k j) fs \<Longrightarrow> runs (CRandN n k) fs"
| run_start: "runs p fs \<Longrightarrow> runs (CRenewStart ref p) fs"
| run_stop: "runs (k b) fs \<Longrightarrow> runs (CRenewStop k) fs"
| run_commit: "runs (k None) fs \<Longrightarrow> runs (CCommit ref k) (FCommitted # fs)"
| run_commit_failed: "runs (k (Some err)) fs \<Longrightarrow> runs (CCommit ref k) fs"
| run_release: "runs (k err) fs \<Longrightarrow> runs (CRelease ref k) fs"
| run_dead: "runs p fs \<Longrightarrow> runs (CDeadLetter t e err p) (FDead # fs)"

definition handled :: "cfact list \<Rightarrow> nat" where
  "handled fs = length (filter (\<lambda>f. case f of FHandled d \<Rightarrow> True | _ \<Rightarrow> False) fs)"

definition no_claim :: "cfact list \<Rightarrow> bool" where
  "no_claim fs = list_all (\<lambda>f. case f of FClaim st b \<Rightarrow> False | _ \<Rightarrow> True) fs"

text \<open>Facts of the handler loop only.\<close>

definition loop_facts :: "cfact list \<Rightarrow> bool" where
  "loop_facts fs = list_all (\<lambda>f. case f of FHandled d \<Rightarrow> True | FAborted \<Rightarrow> True | _ \<Rightarrow> False) fs"

text \<open>The run of a handler loop of at most \<open>n\<close> calls, followed by a run of its continuation.\<close>

definition loop_result :: "nat \<Rightarrow> (delivery_outcome \<Rightarrow> cprog) \<Rightarrow> cfact list \<Rightarrow> bool" where
  "loop_result n k fs \<longleftrightarrow> (\<exists>out fs1 fs2. fs = fs1 @ fs2 \<and> runs (k out) fs2 \<and> handled fs1 \<le> n \<and> loop_facts fs1 \<and>
     (do_Disposition out = DispositionAck \<longrightarrow> FHandled DispositionAck \<in> set fs1))"

abbreviation loop_bound :: "consumer_config \<Rightarrow> nat" where
  "loop_bound c \<equiv> max 1 (nat (cc_RetryCount c))"

text \<open>Facts of the claim loop only, and what a claim loop leaves behind.\<close>

definition claim_facts :: "cfact list \<Rightarrow> bool" where
  "claim_facts fs = list_all (\<lambda>f. case f of FClaim st b \<Rightarrow> True | FAborted \<Rightarrow> True | _ \<Rightarrow> False) fs"

definition claim_result :: "(claim_state \<times> receipt_ref \<times> goerr option \<Rightarrow> cprog) \<Rightarrow> cfact list \<Rightarrow> bool" where
  "claim_result k fs \<longleftrightarrow> (\<exists>pre st failed xs post st' ref err. fs = pre @ FClaim st failed # xs @ post \<and> claim_facts pre \<and>
     (xs = [] \<or> xs = [FAborted]) \<and> runs (k (st', ref, err)) post \<and>
     (err = None \<longrightarrow> \<not> failed \<and> xs = [] \<and> st' = st \<and> claim_answer (st, ref, None)))"

text \<open>The wrapped handler: its last claim, the calls of the handler under that claim, and when it may acknowledge.\<close>

definition acked :: "consumer_config \<Rightarrow> claim_state \<Rightarrow> bool \<Rightarrow> cfact list \<Rightarrow> receipt_ref \<Rightarrow> bool" where
  "acked c st failed mid ref =
     (st = ClaimDone \<and> \<not> failed \<and> mid = [] \<and> ref = NilRef \<or>
      FHandled DispositionAck \<in> set mid \<and>
      (if failed then ref = NilRef \<and> cc_ClaimPolicy c = ClaimPolicyFailOpen else st = ClaimAcquired \<and> ref \<noteq> NilRef))"

definition wrap_result :: "consumer_config \<Rightarrow> (delivery_outcome \<times> receipt_ref \<Rightarrow> cprog) \<Rightarrow> cfact list \<Rightarrow> bool" where
  "wrap_result c k fs \<longleftrightarrow> (\<exists>pre st failed mid post out ref. fs = pre @ FClaim st failed # mid @ post \<and> claim_facts pre \<and>
     loop_facts mid \<and> handled mid \<le> loop_bound c \<and> runs (k (out, ref)) post \<and>
     (do_Disposition out = DispositionAck \<longrightarrow> acked c st failed mid ref))"

text \<open>
  A delivery is accounted for. Its last claim is followed by no other claim, and either the entry is dead
  lettered, or the wait was aborted by the context, or the handler acknowledged under an acquired claim and
  the commit succeeded, or the entry was already done, or (under the fail-open policy) the claimer failed and
  the handler acknowledged. Dead letter and commit end a delivery.
\<close>

definition delivery_accounted :: "consumer_config \<Rightarrow> cfact list \<Rightarrow> bool" where
  "delivery_accounted c fs \<longleftrightarrow>
     FDead \<notin> set (butlast fs) \<and> FCommitted \<notin> set (butlast fs) \<and>
     (\<exists>pre st failed post. fs = pre @ FClaim st failed # post \<and> no_claim post \<and>
        (last fs = FDead \<or> last fs = FAborted \<or>
         last fs = FCommitted \<and> st = ClaimAcquired \<and> \<not> failed \<and> FHandled DispositionAck \<in> set post \<or>
         st = ClaimDone \<and> \<not> failed \<and> post = [] \<or>
         failed \<and> cc_ClaimPolicy c = ClaimPolicyFailOpen \<and> FHandled DispositionAck \<in> set post))"

definition state_result ::
  "consumer_config \<Rightarrow> claim_state \<Rightarrow> bool \<Rightarrow> (delivery_outcome \<times> receipt_ref \<Rightarrow> cprog) \<Rightarrow> cfact list \<Rightarrow> bool" where
  "state_result c st failed k fs \<longleftrightarrow> (\<exists>mid post out ref. fs = mid @ post \<and> loop_facts mid \<and> handled mid \<le> loop_bound c \<and>
     runs (k (out, ref)) post \<and> (do_Disposition out = DispositionAck \<longrightarrow> acked c st failed mid ref))"

text \<open>
  The discipline of a delivery: \<open>h\<close> is the receipt it holds and has not settled yet, \<open>u\<close> the receipt it has
  just settled, and \<open>r\<close> says whether the renewal goroutine runs. A claim needs an empty hand, renewal runs only
  on the held receipt, a commit is of the held receipt, and the delivery ends with nothing held.
\<close>

definition holding :: "receipt_ref \<Rightarrow> nat option" where
  "holding ref = (case ref of LiveRef i \<Rightarrow> Some i | _ \<Rightarrow> None)"

primrec rp_ok :: "cprog \<Rightarrow> nat option \<Rightarrow> nat option \<Rightarrow> bool \<Rightarrow> bool" where
  "rp_ok CEnd h u r = (h = None \<and> \<not> r)"
| "rp_ok (CClaim key l d k) h u r =
     (h = None \<and> \<not> r \<and> (\<forall>x. claim_answer x \<longrightarrow> rp_ok (k x) (holding (fst (snd x))) None False))"
| "rp_ok (CHandle e k) h u r = (\<forall>x. rp_ok (k x) h u r)"
| "rp_ok (CCtxErr k) h u r = (\<forall>x. rp_ok (k x) h u r)"
| "rp_ok (CSleep d k) h u r = (\<forall>x. rp_ok (k x) h u r)"
| "rp_ok (CCryptoRand k) h u r = (\<forall>x. rp_ok (k x) h u r)"
| "rp_ok (CRandN n k) h u r = (\<forall>x. rp_ok (k x) h u r)"
| "rp_ok (CRenewStart ref p) h u r = (\<not> r \<and> h \<noteq> None \<and> holding ref = h \<and> rp_ok p h u True)"
| "rp_ok (CRenewStop k) h u r = (r \<and> (\<forall>x. rp_ok (k x) h u False))"
| "rp_ok (CCommit ref k) h u r = (\<not> r \<and> h \<noteq> None \<and> holding ref = h \<and> (\<forall>x. rp_ok (k x) None h False))"
| "rp_ok (CRelease ref k) h u r =
     (\<not> r \<and> (holding ref = h \<or> h = None \<and> holding ref = u) \<and> (\<forall>x. rp_ok (k x) None None False))"
| "rp_ok (CDeadLetter t e err p) h u r = rp_ok p h u r"

definition settles :: "(delivery_outcome \<times> receipt_ref \<Rightarrow> cprog) \<Rightarrow> bool" where
  "settles k \<longleftrightarrow> (\<forall>out ref u. ref \<noteq> NonAcquiredRef \<longrightarrow> rp_ok (k (out, ref)) (holding ref) u False)"

definition bop_tokens :: "bop \<Rightarrow> string set" where
  "bop_tokens op = (case op of BRun i a \<Rightarrow> (case cn_token a of Inr t \<Rightarrow> {t} | _ \<Rightarrow> {}) | _ \<Rightarrow> {})"

text \<open>A subscriber and the receipt it holds.\<close>

definition sub_ok :: "cl_sys \<Rightarrow> bus_sub \<Rightarrow> nat option \<Rightarrow> bool" where
  "sub_ok c w h \<longleftrightarrow>
     (\<exists>u. rp_ok (bs_prog w) h u (bs_renew w \<noteq> None) \<and> (\<forall>j. u = Some j \<longrightarrow> j < length (cl_receipts c) \<and> rc_used (cl_receipts c ! j))) \<and>
     (\<forall>ref. bs_renew w = Some ref \<longrightarrow> h \<noteq> None \<and> holding ref = h)"

text \<open>Every open receipt is held by exactly one subscriber.\<close>

definition holders_ok :: "cl_sys \<Rightarrow> bus_sub list \<Rightarrow> nat option list \<Rightarrow> bool" where
  "holders_ok c ws hs \<longleftrightarrow>
     length hs = length ws \<and> (\<forall>i < length ws. sub_ok c (ws ! i) (hs ! i)) \<and>
     (\<forall>j. Some j \<in> set hs \<longleftrightarrow> j \<in> open_receipts c) \<and>
     (\<forall>i < length hs. \<forall>i' < length hs. \<forall>j. hs ! i = Some j \<and> hs ! i' = Some j \<longrightarrow> i = i')"

definition binv :: "string set \<Rightarrow> esys \<Rightarrow> bool" where
  "binv U y \<longleftrightarrow> cl_inv U (ey_claimer y) \<and> (\<exists>hs. holders_ok (ey_claimer y) (eb_subs (ey_bus y)) hs)"

text \<open>The call of the claimer that a step of the bus makes.\<close>

fun cprog_op :: "canswer \<Rightarrow> cprog \<Rightarrow> cl_op option" where
  "cprog_op a (CClaim key l d k) = Some (ClClaim key l d (cn_token a))"
| "cprog_op a (CCommit (LiveRef i) k) = Some (ClCommit i)"
| "cprog_op a (CRelease (LiveRef i) k) = Some (ClRelease i)"
| "cprog_op a p = None"

text \<open>Publishing only puts entries into channels.\<close>

definition sub_core :: "bus_sub \<Rightarrow> subscription \<times> cprog \<times> receipt_ref option \<times> bool \<times> bool" where
  "sub_core w = (bs_sub w, bs_prog w, bs_renew w, bs_lost w, bs_left w)"

definition key_events :: "string \<Rightarrow> esys \<Rightarrow> cevent list" where
  "key_events key y = filter (\<lambda>ev. ev \<in> {CEvAcquired key, CEvCommitted key}) (ey_trace y)"

definition busy :: "bus_sub \<Rightarrow> bool" where
  "busy w = (case bs_prog w of CEnd \<Rightarrow> False | _ \<Rightarrow> True)"

definition sample_collision :: "(instant \<times> bop) list" where
  "sample_collision = [(0, BSubscribe (sample_sub ''audit'')), (1, BPublish ''order.placed'' ''eu''), (2, BTake 0)] @
     map (\<lambda>s. (3, BRun 0 (sample_cn s))) [''t1'', ''t2'', ''t3'', ''t4'', ''t5''] @
     [(4, BSubscribe (sample_sub ''audit:eu'')), (5, BPublish ''order.placed'' []), (6, BTake 1), (6, BRun 1 (sample_cn ''u1'')), (6, BTake 0)] @
     map (\<lambda>s. (7, BRun 0 (sample_cn s))) [''v1'', ''v2'', ''v3'', ''v4'', ''v5'']"

section \<open>Lemmas\<close>

subsection \<open>Runs of a delivery\<close>

inductive_simps runs_simps:
  "runs CEnd fs" "runs (CClaim key l d k) fs" "runs (CHandle e k) fs" "runs (CCtxErr k) fs" "runs (CSleep d k) fs"
  "runs (CCryptoRand k) fs" "runs (CRandN n k) fs" "runs (CRenewStart ref p) fs" "runs (CRenewStop k) fs"
  "runs (CCommit ref k) fs" "runs (CRelease ref k) fs" "runs (CDeadLetter t e err p) fs"

lemma handled_simps [simp]:
  "handled [] = 0" "handled (FHandled d # fs) = Suc (handled fs)" "handled (FClaim st b # fs) = handled fs"
  "handled (FCommitted # fs) = handled fs" "handled (FDead # fs) = handled fs" "handled (FAborted # fs) = handled fs"
  "handled (fs @ gs) = handled fs + handled gs"
  by (simp_all add: handled_def)

lemma no_claim_simps [simp]:
  "no_claim []" "no_claim (f # fs) = ((case f of FClaim st b \<Rightarrow> False | _ \<Rightarrow> True) \<and> no_claim fs)"
  "no_claim (fs @ gs) = (no_claim fs \<and> no_claim gs)"
  by (simp_all add: no_claim_def)

lemma loop_facts_simps [simp]:
  "loop_facts []" "loop_facts (f # fs) = ((case f of FHandled d \<Rightarrow> True | FAborted \<Rightarrow> True | _ \<Rightarrow> False) \<and> loop_facts fs)"
  "loop_facts (fs @ gs) = (loop_facts fs \<and> loop_facts gs)"
  by (simp_all add: loop_facts_def)

lemma loop_no_claim: "loop_facts fs \<Longrightarrow> no_claim fs"
  by (induction fs) (auto split: cfact.splits)

lemma loop_resultI:
  "fs = fs1 @ fs2 \<Longrightarrow> runs (k out) fs2 \<Longrightarrow> handled fs1 \<le> n \<Longrightarrow> loop_facts fs1 \<Longrightarrow>
   (do_Disposition out = DispositionAck \<Longrightarrow> FHandled DispositionAck \<in> set fs1) \<Longrightarrow> loop_result n k fs"
  unfolding loop_result_def by blast

lemma sleep_runs:
  assumes "runs (CSleep d k) fs"
  obtains (abort) hs cerr where "fs = FAborted # hs" "runs (k (Some cerr)) hs" | (go) "runs (k None) fs"
  using assms by (auto simp: runs_simps)

lemma sleep_runs_append:
  assumes "runs (CSleep d k) fs"
  obtains xs hs cerr where "fs = xs @ hs" "xs = [] \<or> xs = [FAborted]" "runs (k cerr) hs"
  using assms
proof (cases rule: sleep_runs)
  case (abort hs ce)
  then show ?thesis by (intro that [of "[FAborted]" hs "Some ce"]) auto
next
  case go
  then show ?thesis by (intro that [of "[]" fs None]) auto
qed

lemma waitBackoff_runs:
  assumes "runs (waitBackoff c a k) fs"
  obtains xs hs cerr where "fs = xs @ hs" "xs = [] \<or> xs = [FAborted]" "runs (k cerr) hs"
proof -
  from assms obtain cerr where r: "runs (if cerr \<noteq> None then k cerr
      else CSleep (ExponentialDelay (cc_RetryBaseDelay c) (cc_MaxRetryDelay c) a) k) fs"
    by (auto simp: waitBackoff_def runs_simps)
  show ?thesis
  proof (cases cerr)
    case None
    with r have "runs (CSleep (ExponentialDelay (cc_RetryBaseDelay c) (cc_MaxRetryDelay c) a) k) fs" by simp
    then show ?thesis by (rule sleep_runs_append) (rule that)
  next
    case Some
    with r show ?thesis by (intro that [of "[]" fs cerr]) auto
  qed
qed

lemma retry_attempts_runs: "runs (retry_attempts c e n left lr k) fs \<Longrightarrow> loop_result left k fs"
proof (induction left arbitrary: lr fs)
  case 0
  then obtain out where "runs (k out) fs" "do_Disposition out \<noteq> DispositionAck"
    by (auto simp: runs_simps requeueResult_def split: if_splits)
  then show ?case by (intro loop_resultI [where ?fs1.0 = "[]" and out = out]) simp_all
next
  case (Suc left)
  from Suc.prems obtain r gs where fs: "fs = FHandled (hr_Disposition r) # gs"
    and g: "runs (if hr_Disposition r = DispositionAck then k (deliveryFrom r)
       else if isPermanentRejection r then k (deliveryFrom r)
       else if left > 0 then
         waitBackoff c (int (n - Suc left)) (\<lambda>cerr.
           if cerr \<noteq> None then k (requeueResult cerr) else retry_attempts c e n left r k)
       else retry_attempts c e n left r k) gs"
    by (auto simp: runs_simps)
  consider (over) "runs (k (deliveryFrom r)) gs"
    | (abort) hs xs cerr where "gs = xs @ hs" "xs = [] \<or> xs = [FAborted]" "runs (k (requeueResult cerr)) hs"
    | (more) hs xs where "gs = xs @ hs" "xs = [] \<or> xs = [FAborted]" "runs (retry_attempts c e n left r k) hs"
  proof (cases "hr_Disposition r = DispositionAck \<or> isPermanentRejection r")
    case True
    with g show ?thesis by (intro over) (auto split: if_splits)
  next
    case stay: False
    show ?thesis
    proof (cases "left > 0")
      case True
      with stay g have "runs (waitBackoff c (int (n - Suc left)) (\<lambda>cerr.
           if cerr \<noteq> None then k (requeueResult cerr) else retry_attempts c e n left r k)) gs" by simp
      then show ?thesis
      proof (rule waitBackoff_runs)
        fix xs hs cerr
        assume x: "gs = xs @ hs" "xs = [] \<or> xs = [FAborted]"
          and "runs (if cerr \<noteq> None then k (requeueResult cerr) else retry_attempts c e n left r k) hs"
        then show ?thesis by (cases cerr) (auto intro: abort more)
      qed
    next
      case False
      with stay g show ?thesis by (intro more [of "[]" gs]) simp_all
    qed
  qed
  then show ?case
  proof cases
    case over
    then show ?thesis using fs
      by (intro loop_resultI [where ?fs1.0 = "[FHandled (hr_Disposition r)]" and out = "deliveryFrom r"]) (auto simp: deliveryFrom_def)
  next
    case abort
    then show ?thesis using fs
      by (intro loop_resultI [where ?fs1.0 = "FHandled (hr_Disposition r) # xs" and out = "requeueResult cerr"]) (auto simp: requeueResult_def)
  next
    case more
    from Suc.IH [OF more(3)] obtain out fs1 fs2 where "hs = fs1 @ fs2" "runs (k out) fs2" "handled fs1 \<le> left" "loop_facts fs1"
      "do_Disposition out = DispositionAck \<longrightarrow> FHandled DispositionAck \<in> set fs1" unfolding loop_result_def by blast
    then show ?thesis using fs more(1,2)
      by (intro loop_resultI [where ?fs1.0 = "FHandled (hr_Disposition r) # xs @ fs1" and out = out]) auto
  qed
qed

lemma loop_result_mono: "loop_result m k fs \<Longrightarrow> m \<le> n \<Longrightarrow> loop_result n k fs"
  unfolding loop_result_def by (fast intro: order_trans)

lemma retryLoop_runs: "runs (retryLoop c e pass k) fs \<Longrightarrow> loop_result (loop_bound c) k fs"
proof (cases pass)
  case True
  assume "runs (retryLoop c e pass k) fs"
  with True obtain r gs where "fs = FHandled (hr_Disposition r) # gs" "runs (k (deliveryFrom r)) gs"
    by (auto simp: retryLoop_def runs_simps)
  then show ?thesis
    by (intro loop_resultI [where ?fs1.0 = "[FHandled (hr_Disposition r)]" and out = "deliveryFrom r"]) (auto simp: deliveryFrom_def)
next
  case False
  assume "runs (retryLoop c e pass k) fs"
  with False have "loop_result (nat (cc_RetryCount c)) k fs" by (simp add: retryLoop_def retry_attempts_runs)
  then show ?thesis by (rule loop_result_mono) simp
qed

lemma runWithRenewal_runs: "runs (runWithRenewal c e ref pass k) fs \<Longrightarrow> loop_result (loop_bound c) k fs"
proof (cases "cc_LeaseRenewalInterval c \<le> 0 \<or> ref = NilRef")
  case True
  assume "runs (runWithRenewal c e ref pass k) fs"
  with True show ?thesis using retryLoop_runs by (simp add: runWithRenewal_def)
next
  case False
  assume "runs (runWithRenewal c e ref pass k) fs"
  with False have "runs (retryLoop c e pass (\<lambda>result. CRenewStop (\<lambda>lost. if lost \<and> do_Disposition result = DispositionAck
          then k \<lparr>do_Disposition = DispositionRequeue, do_Err = Some ErrLeaseExpired, do_ProcessReason = do_ProcessReason result\<rparr>
          else k result))) fs" by (simp add: runWithRenewal_def runs_simps)
  from retryLoop_runs [OF this] obtain out fs1 fs2 lost where o: "fs = fs1 @ fs2" "handled fs1 \<le> loop_bound c" "loop_facts fs1"
    "do_Disposition out = DispositionAck \<longrightarrow> FHandled DispositionAck \<in> set fs1"
    "runs (if lost \<and> do_Disposition out = DispositionAck
          then k \<lparr>do_Disposition = DispositionRequeue, do_Err = Some ErrLeaseExpired, do_ProcessReason = do_ProcessReason out\<rparr>
          else k out) fs2" unfolding loop_result_def by (auto simp: runs_simps)
  then obtain out' where "runs (k out') fs2" "do_Disposition out' = DispositionAck \<longrightarrow> FHandled DispositionAck \<in> set fs1"
    by (cases "lost \<and> do_Disposition out = DispositionAck") auto
  with o show ?thesis by (intro loop_resultI [where ?fs1.0 = fs1 and out = out']) auto
qed

lemma claim_facts_simps [simp]:
  "claim_facts []" "claim_facts (f # fs) = ((case f of FClaim st b \<Rightarrow> True | FAborted \<Rightarrow> True | _ \<Rightarrow> False) \<and> claim_facts fs)"
  "claim_facts (fs @ gs) = (claim_facts fs \<and> claim_facts gs)"
  by (simp_all add: claim_facts_def)

lemma claim_facts_handled [simp]: "claim_facts fs \<Longrightarrow> handled fs = 0"
  by (induction fs) (auto split: cfact.splits)

lemma loop_facts_no_claim [simp]: "loop_facts fs \<Longrightarrow> no_claim fs"
  by (induction fs) (auto split: cfact.splits)

lemma loop_facts_open: "loop_facts fs \<Longrightarrow> FDead \<notin> set fs \<and> FCommitted \<notin> set fs"
  by (induction fs) (auto split: cfact.splits)

lemma claim_facts_open: "claim_facts fs \<Longrightarrow> FDead \<notin> set fs \<and> FCommitted \<notin> set fs"
  by (induction fs) (auto split: cfact.splits)

lemma claim_resultI:
  "fs = pre @ FClaim st failed # xs @ post \<Longrightarrow> claim_facts pre \<Longrightarrow> xs = [] \<or> xs = [FAborted] \<Longrightarrow> runs (k (st', ref, err)) post \<Longrightarrow>
   (err = None \<Longrightarrow> \<not> failed \<and> xs = [] \<and> st' = st \<and> claim_answer (st, ref, None)) \<Longrightarrow> claim_result k fs"
  unfolding claim_result_def by blast

lemma claim_result_Cons:
  assumes "claim_result k fs"
  shows "claim_result k (FClaim st failed # fs)"
proof -
  from assms obtain pre st1 failed1 xs post st' ref err where r: "fs = pre @ FClaim st1 failed1 # xs @ post" "claim_facts pre"
    "xs = [] \<or> xs = [FAborted]" "runs (k (st', ref, err)) post"
    "err = None \<longrightarrow> \<not> failed1 \<and> xs = [] \<and> st' = st1 \<and> claim_answer (st1, ref, None)" unfolding claim_result_def by blast
  then show ?thesis
    by (intro claim_resultI [where pre = "FClaim st failed # pre" and xs = xs and post = post and st = st1 and st' = st' and ref = ref and err = err]) auto
qed

lemma wrap_resultI:
  "fs = pre @ FClaim st failed # mid @ post \<Longrightarrow> claim_facts pre \<Longrightarrow> loop_facts mid \<Longrightarrow> handled mid \<le> loop_bound c \<Longrightarrow>
   runs (k (out, ref)) post \<Longrightarrow> (do_Disposition out = DispositionAck \<Longrightarrow> acked c st failed mid ref) \<Longrightarrow> wrap_result c k fs"
  unfolding wrap_result_def by blast

lemma claimWait_runs:
  assumes "runs (claimWait c a k) fs"
  obtains (abort) hs cerr where "fs = FAborted # hs" "runs (k (Some cerr)) hs" | (go) "runs (k None) fs"
proof -
  from assms obtain d where "runs (CSleep d k) fs"
    by (cases "0 < ExponentialDelay (cc_ClaimRetryBaseDelay c) (cc_MaxRetryDelay c) a")
       (auto simp: claimWait_def Let_def runs_simps(6))
  then show ?thesis by (cases rule: sleep_runs) (use that in auto)
qed

lemma claim_attempts_runs:
  "runs (claim_attempts c key n left le k) fs \<Longrightarrow> 0 < left \<Longrightarrow> claim_result k fs"
proof (induction left arbitrary: le fs)
  case (Suc left)
  let ?again = "\<lambda>e cerr. if cerr \<noteq> None then k (ClaimAcquired, NilRef, cerr) else claim_attempts c key n left (Some e) k"
  let ?ctx = "\<lambda>e cerr. if cerr \<noteq> None then k (ClaimAcquired, NilRef, cerr)
             else if left > 0 then claimWait c (int (n - Suc left)) (?again e)
             else claim_attempts c key n left (Some e) k"
  from Suc.prems(1) consider (ok) st ref gs where "fs = FClaim st False # gs" "claim_answer (st, ref, None)" "runs (k (st, ref, None)) gs"
    | (bad) st e gs cerr where "fs = FClaim st True # gs" "runs (?ctx e cerr) gs"
    by (subst (asm) claim_attempts.simps, subst (asm) runs_simps) (auto simp: runs_simps(4))
  then show ?case
  proof cases
    case ok
    then show ?thesis
      by (intro claim_resultI [where pre = "[]" and xs = "[]" and post = gs and st = st and failed = False and st' = st and ref = ref and err = None]) simp_all
  next
    case bad
    note fs = bad(1) and g' = bad(2)
    consider (ctx) ce where "cerr = Some ce" | (last) "cerr = None" "left = 0" | (more) "cerr = None" "0 < left" by (cases cerr) auto
    then show ?thesis
    proof cases
      case ctx
      with g' fs show ?thesis
        by (intro claim_resultI [where pre = "[]" and xs = "[]" and post = gs and st' = ClaimAcquired and ref = NilRef and err = cerr]) simp_all
    next
      case last
      with g' fs show ?thesis
        by (intro claim_resultI [where pre = "[]" and xs = "[]" and post = gs and st' = ClaimAcquired and ref = NilRef and err = "Some e"]) simp_all
    next
      case more
      with g' have "runs (claimWait c (int (n - Suc left)) (?again e)) gs" by simp
      then show ?thesis
      proof (cases rule: claimWait_runs)
        case (abort hs ce)
        with fs show ?thesis
          by (intro claim_resultI [where pre = "[]" and xs = "[FAborted]" and post = hs and st' = ClaimAcquired and ref = NilRef and err = "Some ce"]) simp_all
      next
        case go
        then have "runs (claim_attempts c key n left (Some e) k) gs" by simp
        from claim_result_Cons [OF Suc.IH [OF this more(2)]] fs show ?thesis by simp
      qed
    qed
  qed
qed simp

lemma state_resultI:
  "fs = mid @ post \<Longrightarrow> loop_facts mid \<Longrightarrow> handled mid \<le> loop_bound c \<Longrightarrow> runs (k (out, ref)) post \<Longrightarrow>
   (do_Disposition out = DispositionAck \<Longrightarrow> acked c st failed mid ref) \<Longrightarrow> state_result c st failed k fs"
  unfolding state_result_def by blast

lemma state_wrap_result: "claim_facts pre \<Longrightarrow> state_result c st failed k fs \<Longrightarrow> wrap_result c k (pre @ FClaim st failed # fs)"
  unfolding state_result_def wrap_result_def by blast

lemma loop_state_result:
  assumes "loop_result (loop_bound c) (\<lambda>out. k (out, ref)) fs"
    and "if failed then ref = NilRef \<and> cc_ClaimPolicy c = ClaimPolicyFailOpen else st = ClaimAcquired \<and> ref \<noteq> NilRef"
  shows "state_result c st failed k fs"
proof -
  from assms(1) obtain out fs1 fs2 where "fs = fs1 @ fs2" "runs (k (out, ref)) fs2" "handled fs1 \<le> loop_bound c" "loop_facts fs1"
    "do_Disposition out = DispositionAck \<longrightarrow> FHandled DispositionAck \<in> set fs1" unfolding loop_result_def by blast
  with assms(2) show ?thesis by (intro state_resultI [where mid = fs1 and post = fs2 and out = out and ref = ref]) (auto simp: acked_def)
qed

lemma handleClaimState_runs:
  assumes "runs (handleClaimState c e st ref pass k) fs" "claim_answer (st, ref, None)"
  shows "state_result c st False k fs"
proof (cases st)
  case ClaimDone
  with assms(1) show ?thesis
    by (intro state_resultI [where mid = "[]" and post = fs and out = "deliveryFrom result_Ack" and ref = NilRef])
      (auto simp: handleClaimState_def acked_def)
next
  case ClaimBusy
  with assms(1) have "runs (CSleep (cc_RetryBaseDelay c) (\<lambda>_. k (deliveryFrom (result_Requeue None), NilRef))) fs"
    by (simp add: handleClaimState_def)
  then obtain xs hs where "fs = xs @ hs" "xs = [] \<or> xs = [FAborted]" "runs (k (deliveryFrom (result_Requeue None), NilRef)) hs"
    by (rule sleep_runs_append)
  then show ?thesis
    by (intro state_resultI [where mid = xs and post = hs and out = "deliveryFrom (result_Requeue None)" and ref = NilRef])
      (auto simp: deliveryFrom_def result_Requeue_def)
next
  case ClaimAcquired
  with assms have "runs (runWithRenewal c e ref pass (\<lambda>out. k (out, ref))) fs" "ref \<noteq> NilRef"
    by (auto simp: handleClaimState_def)
  with ClaimAcquired show ?thesis by (intro loop_state_result [where ref = ref] runWithRenewal_runs) auto
qed (use assms in simp)

lemma consumer_Wrap_runs:
  assumes "runs (consumer_Wrap c sub e k) fs" "0 < cc_ClaimRetryCount c"
  shows "wrap_result c k fs"
proof (cases "cc_ClaimPolicy c = ClaimPolicyFailOpen")
  case True
  let ?pass = "brokerDelayPassthrough sub"
  from assms(1) True consider (ok) st ref gs where "fs = FClaim st False # gs" "claim_answer (st, ref, None)" "runs (handleClaimState c e st ref ?pass k) gs"
    | (bad) st gs where "fs = FClaim st True # gs" "runs (retryLoop c e ?pass (\<lambda>out. k (out, NilRef))) gs"
    by (auto simp: consumer_Wrap_def Let_def runs_simps(2))
  then show ?thesis
  proof cases
    case ok
    from state_wrap_result [OF _ handleClaimState_runs [OF ok(3,2)], of "[]"] ok(1) show ?thesis by simp
  next
    case bad
    from True have "state_result c st True k gs"
      by (intro loop_state_result [where ref = NilRef] retryLoop_runs [OF bad(2)]) simp
    from state_wrap_result [OF _ this, of "[]"] bad(1) show ?thesis by simp
  qed
next
  case False
  with assms have "claim_result (\<lambda>(state, receipt, err).
          if err \<noteq> None then k (deliveryFrom (result_Requeue err), NilRef)
          else handleClaimState c e state receipt (brokerDelayPassthrough sub) k) fs"
    by (auto simp: consumer_Wrap_def Let_def claimWithRetry_def intro!: claim_attempts_runs)
  then obtain pre st failed xs post st' ref err where f: "fs = pre @ FClaim st failed # xs @ post" "claim_facts pre" "xs = [] \<or> xs = [FAborted]"
    and r: "runs (if err \<noteq> None then k (deliveryFrom (result_Requeue err), NilRef)
          else handleClaimState c e st' ref (brokerDelayPassthrough sub) k) post"
    and n: "err = None \<longrightarrow> \<not> failed \<and> xs = [] \<and> st' = st \<and> claim_answer (st, ref, None)"
    unfolding claim_result_def prod.case by blast
  show ?thesis
  proof (cases err)
    case None
    with r n have "state_result c st False k post" by (intro handleClaimState_runs) auto
    from state_wrap_result [OF f(2) this] f(1) n None show ?thesis by simp
  next
    case (Some x)
    with r f(3) have "state_result c st failed k (xs @ post)"
      by (intro state_resultI [where mid = xs and post = post and out = "deliveryFrom (result_Requeue err)" and ref = NilRef])
        (auto simp: deliveryFrom_def result_Requeue_def)
    from state_wrap_result [OF f(2) this] f(1) show ?thesis by simp
  qed
qed

lemma releaseSettlement_runs [simp]: "runs (releaseSettlement st p) fs = runs p fs"
  by (auto simp: releaseSettlement_def runs_simps)

lemma processResult_runs:
  assumes "runs (processResult topic e out ref k) fs"
  obtains (committed) gs where "do_Disposition out = DispositionAck" "ref \<noteq> NilRef" "fs = FCommitted # gs" "runs (k True None) gs"
    | (plain) "do_Disposition out = DispositionAck" "ref = NilRef" "runs (k True None) fs"
    | (dead) gs where "fs = FDead # gs" "runs (k True None) gs"
    | (again) err where "runs (k False err) fs"
  using assms
  by (cases "do_Disposition out")
     (auto simp: processResult_def handleRequeue_def handleInvalidDisposition_def runs_simps split: if_splits)

lemma accountedI:
  assumes "fs = pre @ FClaim st failed # post" "no_claim post" "FDead \<notin> set (butlast fs)" "FCommitted \<notin> set (butlast fs)"
    "last fs = FDead \<or> last fs = FAborted \<or>
     last fs = FCommitted \<and> st = ClaimAcquired \<and> \<not> failed \<and> FHandled DispositionAck \<in> set post \<or>
     st = ClaimDone \<and> \<not> failed \<and> post = [] \<or>
     failed \<and> cc_ClaimPolicy c = ClaimPolicyFailOpen \<and> FHandled DispositionAck \<in> set post"
  shows "delivery_accounted c fs"
  using assms unfolding delivery_accounted_def by blast

lemma accounted_Cons:
  assumes "delivery_accounted c fs" "claim_facts pre" "loop_facts mid"
  shows "delivery_accounted c (pre @ FClaim st failed # mid @ fs)"
proof -
  from assms(1) obtain pre' st' failed' post where p: "fs = pre' @ FClaim st' failed' # post" and a: "no_claim post"
      "last fs = FDead \<or> last fs = FAborted \<or>
         last fs = FCommitted \<and> st' = ClaimAcquired \<and> \<not> failed' \<and> FHandled DispositionAck \<in> set post \<or>
         st' = ClaimDone \<and> \<not> failed' \<and> post = [] \<or>
         failed' \<and> cc_ClaimPolicy c = ClaimPolicyFailOpen \<and> FHandled DispositionAck \<in> set post"
    and d: "FDead \<notin> set (butlast fs)" "FCommitted \<notin> set (butlast fs)" unfolding delivery_accounted_def by blast
  have ne: "fs \<noteq> []" using p by simp
  then have bl: "butlast (pre @ FClaim st failed # mid @ fs) = pre @ FClaim st failed # mid @ butlast fs"
    and la: "last (pre @ FClaim st failed # mid @ fs) = last fs" by (simp_all add: butlast_append)
  show ?thesis
  proof (rule accountedI [where pre = "pre @ FClaim st failed # mid @ pre'" and st = st' and failed = failed' and post = post])
    show "FDead \<notin> set (butlast (pre @ FClaim st failed # mid @ fs))" "FCommitted \<notin> set (butlast (pre @ FClaim st failed # mid @ fs))"
      unfolding bl using d loop_facts_open [OF assms(3)] claim_facts_open [OF assms(2)] by auto
    show "pre @ FClaim st failed # mid @ fs = (pre @ FClaim st failed # mid @ pre') @ FClaim st' failed' # post" using p by simp
    show "no_claim post" by (rule a(1))
  qed (use a(2) in \<open>simp only: la\<close>)
qed

lemma accounted_end:
  assumes "claim_facts pre" "loop_facts mid" "post = [FDead] \<or> post = [FAborted] \<or> post = [FCommitted] \<and> acked c st failed mid LR \<and> LR \<noteq> NilRef \<or> post = [] \<and> acked c st failed mid NilRef"
  shows "delivery_accounted c (pre @ FClaim st failed # mid @ post)"
proof -
  have o: "FDead \<notin> set (pre @ FClaim st failed # mid)" "FCommitted \<notin> set (pre @ FClaim st failed # mid)"
    using loop_facts_open [OF assms(2)] claim_facts_open [OF assms(1)] by auto
  have b: "set (butlast (pre @ FClaim st failed # mid @ post)) \<subseteq> set (pre @ FClaim st failed # mid)"
    using assms(3) by (auto simp: butlast_append dest: in_set_butlastD)
  show ?thesis
  proof (rule accountedI [where pre = pre and st = st and failed = failed and post = "mid @ post"])
    show "FDead \<notin> set (butlast (pre @ FClaim st failed # mid @ post))" "FCommitted \<notin> set (butlast (pre @ FClaim st failed # mid @ post))"
      using o b by blast+
  qed (use assms(2,3) in \<open>auto simp: acked_def split: if_splits\<close>)
qed

lemma nextAttempt_runs:
  assumes "runs (nextAttemptDelay schedule a (\<lambda>delay. CSleep delay k)) fs"
  obtains (abort) hs cerr where "fs = FAborted # hs" "runs (k (Some cerr)) hs" | (go) "runs (k None) fs"
proof -
  from assms obtain d where "runs (CSleep d k) fs"
    by (auto simp: nextAttemptDelay_def bus_retryDelay_def Let_def runs_simps(7) split: if_splits)
  then show ?thesis by (cases rule: sleep_runs) (use that in auto)
qed

lemma delivery_attempts_runs:
  "runs (delivery_attempts schedule topic e (consumer_Wrap c sub e) n left) fs \<Longrightarrow> 0 < left \<Longrightarrow> 0 < cc_ClaimRetryCount c \<Longrightarrow>
   delivery_accounted c fs \<and> handled fs \<le> left * loop_bound c"
proof (induction left arbitrary: fs)
  case (Suc left)
  let ?again = "\<lambda>cerr. if cerr \<noteq> None then CEnd else delivery_attempts schedule topic e (consumer_Wrap c sub e) n left"
  let ?over = "\<lambda>over err. if over then CEnd else if left = 0 then CDeadLetter topic e err CEnd
      else nextAttemptDelay schedule (n - Suc left) (\<lambda>delay. CSleep delay ?again)"
  from Suc.prems(1) have "runs (consumer_Wrap c sub e (\<lambda>(res, st). processResult topic e res st ?over)) fs" by simp
  from consumer_Wrap_runs [OF this Suc.prems(3)] obtain pre st failed mid post out ref
    where fs: "fs = pre @ FClaim st failed # mid @ post" and l: "claim_facts pre" "loop_facts mid" and h: "handled mid \<le> loop_bound c"
      and r: "runs (processResult topic e out ref ?over) post" and a: "do_Disposition out = DispositionAck \<longrightarrow> acked c st failed mid ref"
    unfolding wrap_result_def prod.case by blast
  consider (fin) "post = [FDead] \<or> post = [FAborted] \<or> post = [FCommitted] \<and> acked c st failed mid ref \<and> ref \<noteq> NilRef \<or> post = [] \<and> acked c st failed mid NilRef"
    | (more) "0 < left" "runs (delivery_attempts schedule topic e (consumer_Wrap c sub e) n left) post"
    using r
  proof (cases rule: processResult_runs)
    case (again err)
    show ?thesis
    proof (cases "left = 0")
      case True
      with again show ?thesis by (intro fin) (auto simp: runs_simps)
    next
      case False
      with again have "runs (nextAttemptDelay schedule (n - Suc left) (\<lambda>delay. CSleep delay ?again)) post" by simp
      then show ?thesis using False by (cases rule: nextAttempt_runs) (auto simp: runs_simps(1) intro: fin more)
    qed
  qed (use a in \<open>auto simp: runs_simps intro: fin\<close>)
  then show ?case
  proof cases
    case fin
    then have "handled post = 0" by auto
    with accounted_end [OF l fin] fs l h show ?thesis by simp
  next
    case more
    from Suc.IH [OF more(2,1) Suc.prems(3)] have "delivery_accounted c post" "handled post \<le> left * loop_bound c" by auto
    with accounted_Cons [OF _ l] fs l h show ?thesis by simp
  qed
qed simp

lemmas config_if = if_distrib [of cc_RetryCount] if_distrib [of cc_ClaimRetryCount] if_distrib [of cc_LeaseTTL] if_distrib [of cc_IdempotencyTTL]

lemma SetDefaults_positive:
  "0 < cc_RetryCount (SetDefaults c)" "0 < cc_ClaimRetryCount (SetDefaults c)"
  "0 < cc_LeaseTTL (SetDefaults c)" "0 < cc_IdempotencyTTL (SetDefaults c)"
  by (simp_all add: SetDefaults_def Let_def config_if DefaultTTL_def DefaultLeaseTTL_def duration_defs)

lemma consumer_defaults:
  assumes "NewConsumerBase c0 = Inr c"
  shows "0 < cc_RetryCount c" "0 < cc_ClaimRetryCount c" "0 < cc_LeaseTTL c" "0 < cc_IdempotencyTTL c"
  using assms SetDefaults_positive by (auto simp: NewConsumerBase_def split: claim_policy.splits)

lemma deliver_runs:
  assumes "NewConsumerBase c0 = Inr c" "runs (deliver c sub e) fs"
  shows "delivery_accounted c fs \<and> int (handled fs) \<le> int (delivery_budget (su_BrokerDelaySchedule sub)) * cc_RetryCount c"
proof -
  note d = consumer_defaults [OF assms(1)]
  have p: "0 < delivery_budget (su_BrokerDelaySchedule sub)" by (simp add: delivery_budget_def bus_maxRetries_def)
  from delivery_attempts_runs [OF assms(2) [unfolded deliver_def handleWithRetry_def] p] d
  have "delivery_accounted c fs" and h: "handled fs \<le> delivery_budget (su_BrokerDelaySchedule sub) * loop_bound c" by auto
  moreover have "int (loop_bound c) = cc_RetryCount c" using d by linarith
  ultimately show ?thesis using h by (metis of_nat_le_iff of_nat_mult)
qed

subsection \<open>Claims are settled\<close>

lemma holding_simps [simp]: "holding NilRef = None" "holding NonAcquiredRef = None" "holding (LiveRef i) = Some i"
  by (simp_all add: holding_def)

lemma settlesD: "settles k \<Longrightarrow> ref \<noteq> NonAcquiredRef \<Longrightarrow> rp_ok (k (out, ref)) (holding ref) u False"
  by (simp add: settles_def)

lemma settlesD_nil: "settles k \<Longrightarrow> rp_ok (k (out, NilRef)) None u False"
  using settlesD [of k NilRef out u] by simp

lemma ok_waitBackoff: "(\<And>x. rp_ok (k x) h u r) \<Longrightarrow> rp_ok (waitBackoff c a k) h u r"
  by (simp add: waitBackoff_def)

lemma ok_claimWait: "(\<And>x. rp_ok (k x) h u r) \<Longrightarrow> rp_ok (claimWait c a k) h u r"
  by (simp add: claimWait_def Let_def)

lemma ok_retry_attempts: "(\<And>out. rp_ok (k out) h u r) \<Longrightarrow> rp_ok (retry_attempts c e n left lr k) h u r"
  by (induction left arbitrary: lr) (auto intro!: ok_waitBackoff)

lemma ok_retryLoop: "(\<And>out. rp_ok (k out) h u r) \<Longrightarrow> rp_ok (retryLoop c e pass k) h u r"
  by (simp add: retryLoop_def ok_retry_attempts)

lemma ok_runWithRenewal:
  "(\<And>out. rp_ok (k out) (holding ref) u False) \<Longrightarrow> ref \<noteq> NonAcquiredRef \<Longrightarrow> rp_ok (runWithRenewal c e ref pass k) (holding ref) u False"
  by (cases ref) (auto simp: runWithRenewal_def intro!: ok_retryLoop)

lemma ok_handleClaimState:
  assumes "settles k" and "claim_answer (st, ref, None) \<or> ref = NilRef"
  shows "rp_ok (handleClaimState c e st ref pass k) (holding ref) u False"
proof (cases "st = ClaimDone \<or> st = ClaimBusy")
  case True
  with assms(2) have "holding ref = None" by (auto split: receipt_ref.splits)
  with True assms(1) show ?thesis by (auto simp: handleClaimState_def settlesD_nil)
next
  case False
  with assms have "ref \<noteq> NonAcquiredRef" by (auto split: claim_state.splits)
  moreover from False have "handleClaimState c e st ref pass k = runWithRenewal c e ref pass (\<lambda>result. k (result, ref))"
    by (auto simp: handleClaimState_def split: claim_state.split)
  ultimately show ?thesis using assms(1) by (simp add: ok_runWithRenewal settles_def)
qed

lemma ok_claim_attempts:
  assumes "\<And>st ref err u. claim_answer (st, ref, err) \<or> ref = NilRef \<Longrightarrow> rp_ok (k (st, ref, err)) (holding ref) u False"
  shows "rp_ok (claim_attempts c key n left le k) None u False"
proof (induction left arbitrary: le u)
  case 0
  show ?case using assms [where ref = NilRef] by simp
next
  case (Suc left)
  have nil: "rp_ok (k (ClaimAcquired, NilRef, err)) None u False" for err u using assms [where ref = NilRef] by simp
  have "rp_ok (case err of None \<Rightarrow> k (st, ref, None)
       | Some err \<Rightarrow> CCtxErr (\<lambda>cerr. if cerr \<noteq> None then k (ClaimAcquired, NilRef, cerr)
             else if left > 0 then claimWait c (int (n - Suc left)) (\<lambda>cerr.
                 if cerr \<noteq> None then k (ClaimAcquired, NilRef, cerr) else claim_attempts c key n left (Some err) k)
             else claim_attempts c key n left (Some err) k)) (holding ref) u False"
    if a: "claim_answer (st, ref, err)" for st ref err u
  proof (cases err)
    case None
    with assms a show ?thesis by simp
  next
    case (Some x)
    with a have "holding ref = None" by (cases ref) auto
    with Some nil Suc show ?thesis by (auto intro!: ok_claimWait)
  qed
  then show ?case by (simp del: claim_answer.simps not_None_eq)
qed

lemma ok_consumer_Wrap:
  assumes "settles k"
  shows "rp_ok (consumer_Wrap c sub e k) None u False"
proof (cases "cc_ClaimPolicy c = ClaimPolicyFailOpen")
  case True
  have "rp_ok (if err \<noteq> None then retryLoop c e (brokerDelayPassthrough sub) (\<lambda>result. k (result, NilRef))
          else handleClaimState c e st ref (brokerDelayPassthrough sub) k) (holding ref) u False"
    if a: "claim_answer (st, ref, err)" for st ref err u
  proof (cases err)
    case None
    with a show ?thesis by (simp add: ok_handleClaimState [OF assms])
  next
    case (Some x)
    with a have "holding ref = None" by (cases ref) auto
    with Some show ?thesis by (simp add: settlesD_nil [OF assms] ok_retryLoop)
  qed
  with True show ?thesis by (simp add: consumer_Wrap_def Let_def del: claim_answer.simps not_None_eq)
next
  case False
  have "rp_ok (if err \<noteq> None then k (deliveryFrom (result_Requeue err), NilRef)
          else handleClaimState c e st ref (brokerDelayPassthrough sub) k) (holding ref) u False"
    if a: "claim_answer (st, ref, err) \<or> ref = NilRef" for st ref err u
  proof (cases err)
    case None
    with a show ?thesis by (simp add: ok_handleClaimState [OF assms])
  next
    case (Some x)
    with a have "holding ref = None" by (cases ref) auto
    with Some show ?thesis by (simp add: settlesD_nil [OF assms])
  qed
  with False show ?thesis by (simp add: consumer_Wrap_def Let_def claimWithRetry_def ok_claim_attempts del: claim_answer.simps not_None_eq)
qed

lemma ok_processResult:
  "(\<And>over err u. rp_ok (k over err) None u False) \<Longrightarrow> ref \<noteq> NonAcquiredRef \<Longrightarrow> rp_ok (processResult topic e out ref k) (holding ref) u False"
  by (cases ref)
     (auto simp: processResult_def handleRequeue_def handleInvalidDisposition_def releaseSettlement_def split: disposition.split)

lemma ok_nextAttempt: "(\<And>x. rp_ok (k x) h u r) \<Longrightarrow> rp_ok (nextAttemptDelay schedule a (\<lambda>delay. CSleep delay k)) h u r"
  by (simp add: nextAttemptDelay_def bus_retryDelay_def Let_def)

lemma ok_delivery_attempts:
  assumes "\<And>k u. settles k \<Longrightarrow> rp_ok (handler k) None u False"
  shows "rp_ok (delivery_attempts schedule topic e handler n left) None u False"
proof (induction left arbitrary: u)
  case (Suc left)
  show ?case unfolding delivery_attempts.simps
    by (rule assms) (auto simp: settles_def Suc intro!: ok_processResult ok_nextAttempt)
qed simp

lemma ok_deliver: "rp_ok (deliver c sub e) None u False"
  by (simp add: deliver_def handleWithRetry_def ok_delivery_attempts ok_consumer_Wrap)

lemma sub_ok_mono: "sub_ok c w h \<Longrightarrow> sub_ok (cl_step c now op) w h"
  unfolding sub_ok_def using step_receipts by metis

lemma cprog_step_claimer:
  "cprog_step now a c w p = (c', evs, f, w') \<Longrightarrow> c' = (case cprog_op a p of Some op \<Rightarrow> cl_step c now op | None \<Rightarrow> c)"
  by (induction a p rule: cprog_op.induct)
     (auto simp: Let_def claimer_claim_def claimer_commit_def claimer_release_def split: prod.splits)

lemma used_of_closed:
  "j < length (cl_receipts c) \<Longrightarrow> j \<notin> open_receipts (cl_step c now op) \<Longrightarrow>
   j < length (cl_receipts (cl_step c now op)) \<and> rc_used (cl_receipts (cl_step c now op) ! j)"
  using step_receipts [of j c now op] by (auto simp: open_receipts_def)

text \<open>One step of a subscriber settles, keeps or takes one receipt.\<close>

lemma cprog_step_holding:
  assumes "cprog_step now a c w (bs_prog w) = (c', evs, f, w')" and "sub_ok c w h" and "\<And>j. h = Some j \<Longrightarrow> j \<in> open_receipts c"
  shows "\<exists>h'. sub_ok c' w' h' \<and> (h' = h \<or> h' = None \<or> h' = Some (length (cl_receipts c)) \<and> h = None) \<and>
     open_receipts c' = open_receipts c - set_option h \<union> set_option h'"
proof -
  from assms(2) obtain u where u: "rp_ok (bs_prog w) h u (bs_renew w \<noteq> None)"
      "\<And>j. u = Some j \<Longrightarrow> j < length (cl_receipts c) \<and> rc_used (cl_receipts c ! j)"
    and ren: "\<And>ref. bs_renew w = Some ref \<Longrightarrow> h \<noteq> None \<and> holding ref = h" unfolding sub_ok_def by blast
  have same: "?thesis" if "c' = c" "rp_ok (bs_prog w') h u (bs_renew w' \<noteq> None)" "\<And>ref. bs_renew w' = Some ref \<Longrightarrow> h \<noteq> None \<and> holding ref = h"
  proof -
    have "sub_ok c' w' h" unfolding sub_ok_def using that u(2) by blast
    then show ?thesis using that(1) assms(3) by (intro exI [of _ h]) auto
  qed
  show ?thesis
  proof (cases "bs_prog w")
    case (CClaim key l d k)
    obtain st ref err where cl: "claimer_claim c now key l d (cn_token a) = (c', st, ref, err)"
      using assms(1) by (auto simp: CClaim Let_def split: prod.splits)
    note r = claim_receipts [OF cl]
    from assms(1) cl have w': "w' = w\<lparr>bs_prog := k (st, ref, err)\<rparr>" by (simp add: CClaim)
    from u(1) have h: "h = None" "bs_renew w = None" and k: "claim_answer (st, ref, err) \<Longrightarrow> rp_ok (k (st, ref, err)) (holding ref) None False"
      by (auto simp: CClaim simp del: claim_answer.simps)
    have "claim_answer (st, ref, err)" using r by (auto split: receipt_ref.split claim_state.split)
    then have "sub_ok c' w' (holding ref)" using k h w' by (auto simp: sub_ok_def simp del: claim_answer.simps)
    then show ?thesis using r h by (intro exI [of _ "holding ref"]) (auto simp: holding_def split: receipt_ref.split)
  next
    case (CCommit ref k)
    with u(1) obtain j where j: "h = Some j" "ref = LiveRef j" "bs_renew w = None" and k: "\<And>x. rp_ok (k x) None h False"
      by (cases ref) auto
    have c': "c' = cl_step c now (ClCommit j)" using cprog_step_claimer [OF assms(1)] by (simp add: CCommit j)
    obtain err where w': "w' = w\<lparr>bs_prog := k err\<rparr>" using assms(1) by (auto simp: CCommit split: prod.splits)
    have "j < length (cl_receipts c)" using assms(3) [OF j(1)] by (simp add: open_receipts_def)
    then have "j < length (cl_receipts c') \<and> rc_used (cl_receipts c' ! j)" unfolding c'
      by (rule used_of_closed) (simp only: open_receipts_commit, simp)
    then have "sub_ok c' w' None" using k j w' by (auto simp: sub_ok_def)
    then show ?thesis using j(1) by (intro exI [of _ None]) (simp add: c' open_receipts_commit del: cl_step.simps)
  next
    case (CRelease ref k)
    with u(1) have n: "bs_renew w = None" and k: "\<And>x. rp_ok (k x) None None False" and ref: "holding ref = h \<or> h = None \<and> holding ref = u" by auto
    obtain err where w': "w' = w\<lparr>bs_prog := k err\<rparr>" using assms(1) by (auto simp: CRelease split: prod.splits)
    have s: "sub_ok c' w' None" using k n w' by (auto simp: sub_ok_def)
    show ?thesis
    proof (cases "holding ref")
      case None
      with ref have "h = None" "c' = c" using cprog_step_claimer [OF assms(1)] by (cases ref; auto simp: CRelease)+
      with s show ?thesis by (intro exI [of _ None]) simp
    next
      case (Some j)
      then have "c' = cl_step c now (ClRelease j)" using cprog_step_claimer [OF assms(1)] by (cases ref) (auto simp: CRelease)
      moreover have "h = Some j \<or> h = None \<and> j \<notin> open_receipts c" using Some ref u(2) [of j] by (auto simp: open_receipts_def)
      ultimately show ?thesis using s by (intro exI [of _ None]) (auto simp: open_receipts_release simp del: cl_step.simps)
    qed
  qed ((rule same; use assms(1) u(1) ren in \<open>auto split: if_splits\<close>)+)
qed

lemma holders_update:
  assumes "holders_ok c ws hs" "i < length ws"
    and "\<And>w h. sub_ok c w h \<Longrightarrow> sub_ok c' w h" and "sub_ok c' w' h'"
    and "h' = hs ! i \<or> h' = None \<or> h' = Some (length (cl_receipts c)) \<and> hs ! i = None"
    and "open_receipts c' = open_receipts c - set_option (hs ! i) \<union> set_option h'"
  shows "holders_ok c' (ws[i := w']) (hs[i := h'])"
proof -
  have len: "length hs = length ws" and sub: "\<And>k. k < length ws \<Longrightarrow> sub_ok c (ws ! k) (hs ! k)"
    and set: "\<And>j. Some j \<in> set hs \<longleftrightarrow> j \<in> open_receipts c"
    using assms(1) unfolding holders_ok_def by blast+
  have uni: "\<And>k k' j. k < length ws \<Longrightarrow> k' < length ws \<Longrightarrow> hs ! k = Some j \<Longrightarrow> hs ! k' = Some j \<Longrightarrow> k = k'"
    using assms(1) len unfolding holders_ok_def by metis
  have new: "Some (length (cl_receipts c)) \<notin> set hs" using set by (simp add: open_receipts_def)
  have fresh: "hs ! m \<noteq> h'" if "h' = Some (length (cl_receipts c))" "m < length ws" for m
    using new len that by (metis nth_mem)
  have uni': "k = k'" if "k < length ws" "k' < length ws" "hs[i := h'] ! k = Some j" "hs[i := h'] ! k' = Some j" for k k' j
    using that assms(2,5) uni [of k k' j] fresh [of k] fresh [of k'] len by (cases "k = i"; cases "k' = i") auto
  have others: "(\<exists>k < length ws. k \<noteq> i \<and> hs ! k = Some j) \<longleftrightarrow> Some j \<in> set hs \<and> hs ! i \<noteq> Some j" for j
  proof
    assume "\<exists>k < length ws. k \<noteq> i \<and> hs ! k = Some j"
    then obtain k where k: "k < length ws" "k \<noteq> i" "hs ! k = Some j" by blast
    then have "hs ! i \<noteq> Some j" using uni [OF k(1) assms(2)] by auto
    then show "Some j \<in> set hs \<and> hs ! i \<noteq> Some j" using k len nth_mem [of k hs] by simp
  next
    assume "Some j \<in> set hs \<and> hs ! i \<noteq> Some j"
    then show "\<exists>k < length ws. k \<noteq> i \<and> hs ! k = Some j" using len by (metis in_set_conv_nth)
  qed
  have set': "Some j \<in> set (hs[i := h']) \<longleftrightarrow> j \<in> open_receipts c'" for j
  proof -
    have "Some j \<in> set (hs[i := h']) \<longleftrightarrow> h' = Some j \<or> (\<exists>k < length ws. k \<noteq> i \<and> hs ! k = Some j)"
      using assms(2) len by (auto simp: in_set_conv_nth nth_list_update)
    then show ?thesis unfolding others using set assms(6) by auto
  qed
  show ?thesis unfolding holders_ok_def
  proof (intro conjI allI impI)
    fix k assume "k < length (ws[i := w'])"
    then show "sub_ok c' (ws[i := w'] ! k) (hs[i := h'] ! k)" using sub [of k] assms(2-4) len by (cases "k = i") auto
  next
    fix k k' j assume "k < length (hs[i := h'])" "k' < length (hs[i := h'])" "hs[i := h'] ! k = Some j \<and> hs[i := h'] ! k' = Some j"
    then show "k = k'" using uni' [of k k' j] len by simp
  qed (use len set' in auto)
qed

lemma binv_run:
  assumes "binv U y" and "bop_tokens (BRun i a) \<inter> U = {}"
  shows "binv (U \<union> bop_tokens (BRun i a)) (bstep cfg unm y now (BRun i a))"
proof (cases "i < length (eb_subs (ey_bus y))")
  case True
  let ?c = "ey_claimer y" and ?ws = "eb_subs (ey_bus y)"
  obtain c' evs f w' where st: "cprog_step now a ?c (?ws ! i) (bs_prog (?ws ! i)) = (c', evs, f, w')" by (metis prod_cases4)
  from assms(1) obtain hs where inv: "cl_inv U ?c" and hs: "holders_ok ?c ?ws hs" unfolding binv_def by blast
  have mono: "sub_ok ?c w h \<Longrightarrow> sub_ok c' w h" for w h
    using cprog_step_claimer [OF st] sub_ok_mono by (auto split: option.splits)
  have "sub_ok ?c (?ws ! i) (hs ! i)" and "\<And>j. hs ! i = Some j \<Longrightarrow> j \<in> open_receipts ?c"
    using hs True by (auto simp: holders_ok_def) (metis nth_mem)
  from cprog_step_holding [OF st this] obtain h' where h': "sub_ok c' w' h'"
    "h' = hs ! i \<or> h' = None \<or> h' = Some (length (cl_receipts ?c)) \<and> hs ! i = None"
    "open_receipts c' = open_receipts ?c - set_option (hs ! i) \<union> set_option h'" by blast
  have ok: "holders_ok c' (?ws[i := w']) (hs[i := h'])" by (rule holders_update [OF hs True mono h'])
  have "cl_inv (U \<union> bop_tokens (BRun i a)) c'"
  proof (cases "cprog_op a (bs_prog (?ws ! i))")
    case None
    then show ?thesis using cprog_step_claimer [OF st] inv cl_inv_mono by auto
  next
    case (Some op)
    have "op_token op \<subseteq> bop_tokens (BRun i a)"
      using Some by (cases "(a, bs_prog (?ws ! i))" rule: cprog_op.cases) (auto simp: op_token_def bop_tokens_def split: sum.splits)
    then show ?thesis using cprog_step_claimer [OF st] Some cl_inv_step [OF inv, of op now] assms(2) cl_inv_mono by (auto simp: Un_assoc) blast
  qed
  moreover have "eb_subs (f (set_sub (ey_bus y) i w')) = ?ws[i := w']"
    using st by (cases "bs_prog (?ws ! i)") (auto simp: set_sub_def appendDeadLetter_def Let_def split: prod.splits)
  ultimately show ?thesis using True ok st by (auto simp: binv_def Let_def)
next
  case False
  then show ?thesis using assms(1) cl_inv_mono by (auto simp: binv_def)
qed

lemma binv_mono: "binv U y \<Longrightarrow> U \<subseteq> V \<Longrightarrow> binv V y"
  unfolding binv_def using cl_inv_mono by blast

text \<open>The other steps leave what the subscribers do alone, or give an idle subscriber its next delivery.\<close>

lemma binv_subs:
  assumes "binv U y" and "ey_claimer z = ey_claimer y" and "length (eb_subs (ey_bus z)) = length (eb_subs (ey_bus y))"
    and "\<And>i h. i < length (eb_subs (ey_bus y)) \<Longrightarrow> sub_ok (ey_claimer y) (eb_subs (ey_bus y) ! i) h \<Longrightarrow> sub_ok (ey_claimer y) (eb_subs (ey_bus z) ! i) h"
  shows "binv U z"
  using assms unfolding binv_def holders_ok_def by metis

lemma sub_ok_take: "bs_prog w = CEnd \<Longrightarrow> sub_ok c w h \<Longrightarrow> sub_ok c (w\<lparr>bs_ch := ch, bs_prog := deliver cfg sub e\<rparr>) h"
  by (auto simp: sub_ok_def ok_deliver)

lemma sub_ok_same [simp]: "sub_ok c (w\<lparr>bs_ch := ch\<rparr>) h = sub_ok c w h" "sub_ok c (w\<lparr>bs_left := l\<rparr>) h = sub_ok c w h"
  "sub_ok c (w\<lparr>bs_lost := l\<rparr>) h = sub_ok c w h"
  by (simp_all add: sub_ok_def)

lemma sub_ok_core: "sub_core w' = sub_core w \<Longrightarrow> sub_ok c w' h = sub_ok c w h"
  by (simp add: sub_ok_def sub_core_def)

lemma send_core [simp]: "map sub_core (eb_subs (bus_send e b i)) = map sub_core (eb_subs b)"
  by (cases "i < length (eb_subs b)")
     (simp_all add: bus_send_def Let_def map_update list_update_same_conv list_update_beyond sub_core_def)

lemma broadcast_core [simp]: "map sub_core (eb_subs (broadcast e b gs)) = map sub_core (eb_subs b)"
proof -
  have "map sub_core (eb_subs (foldl (bus_send e) b is)) = map sub_core (eb_subs b)" for "is"
    by (induction "is" arbitrary: b) simp_all
  then show ?thesis by (simp add: broadcast_def)
qed

lemma dispatch_core [simp]: "map sub_core (eb_subs (dispatchToGroup e b key gs)) = map sub_core (eb_subs b)"
  by (simp add: dispatchToGroup_def roundRobin_def)

lemma publish_core [simp]: "map sub_core (eb_subs (fst (bus_Publish unm b topic payload))) = map sub_core (eb_subs b)"
proof -
  have "map sub_core (eb_subs (foldl (\<lambda>b (key, gs). if length (gs_subs gs) = 0 then b else dispatchToGroup e b key gs) b gss)) =
      map sub_core (eb_subs b)" for e gss
    by (induction gss arbitrary: b) (auto split: prod.splits)
  then show ?thesis by (simp add: bus_Publish_def appendRawDeadLetter_def split: sum.split)
qed

lemma binv_core:
  assumes "binv U y" and "ey_claimer z = ey_claimer y" and core: "map sub_core (eb_subs (ey_bus z)) = map sub_core (eb_subs (ey_bus y))"
  shows "binv U z"
proof (rule binv_subs [OF assms(1,2)])
  show len: "length (eb_subs (ey_bus z)) = length (eb_subs (ey_bus y))" using core by (metis length_map)
  fix i h assume "i < length (eb_subs (ey_bus y))" "sub_ok (ey_claimer y) (eb_subs (ey_bus y) ! i) h"
  then show "sub_ok (ey_claimer y) (eb_subs (ey_bus z) ! i) h" using core len sub_ok_core by (metis nth_map)
qed

lemma holders_idle:
  assumes "holders_ok c ws hs" "sub_ok c w None"
  shows "holders_ok c (ws @ [w]) (hs @ [None])"
  using assms by (auto simp: holders_ok_def nth_append less_Suc_eq)

lemma tick_claimer:
  "leaseRenewal_tick cfg c now ref = (c', lost) \<Longrightarrow> c' = (case ref of LiveRef i \<Rightarrow> cl_step c now (ClExtend i (cc_LeaseTTL cfg)) | _ \<Rightarrow> c)"
  by (auto simp: leaseRenewal_tick_def split: receipt_ref.splits prod.splits)

lemma tick_idle:
  "\<not> (i < length (eb_subs (ey_bus y)) \<and> \<not> bs_lost (eb_subs (ey_bus y) ! i) \<and> bs_renew (eb_subs (ey_bus y) ! i) \<noteq> None) \<Longrightarrow>
   bstep cfg unm y now (BTick i) = y"
  by (auto simp: Let_def split: option.split)

text \<open>What a step of the bus does to the claimer: nothing, one call of a delivery, or the renewal of an open receipt.\<close>

lemma claimer_bstep:
  assumes "binv U y"
  shows "ey_claimer (bstep cfg unm y now op) = ey_claimer y \<or>
    (\<exists>op'. op_token op' \<subseteq> bop_tokens op \<and> (\<forall>i ttl. op' = ClExtend i ttl \<longrightarrow> i \<in> open_receipts (ey_claimer y)) \<and>
       ey_claimer (bstep cfg unm y now op) = cl_step (ey_claimer y) now op')"
proof (cases op)
  case (BRun i a)
  let ?w = "eb_subs (ey_bus y) ! i"
  obtain c' evs f w' where st: "cprog_step now a (ey_claimer y) ?w (bs_prog ?w) = (c', evs, f, w')" by (metis prod_cases4)
  show ?thesis
  proof (cases "cprog_op a (bs_prog ?w)")
    case None
    then show ?thesis using cprog_step_claimer [OF st] st by (auto simp: BRun Let_def)
  next
    case (Some op')
    have "op_token op' \<subseteq> bop_tokens op" "\<And>i ttl. op' \<noteq> ClExtend i ttl"
      using Some by (cases "(a, bs_prog ?w)" rule: cprog_op.cases; auto simp: BRun op_token_def bop_tokens_def split: sum.splits)+
    moreover have "ey_claimer (bstep cfg unm y now op) = cl_step (ey_claimer y) now op' \<or> ey_claimer (bstep cfg unm y now op) = ey_claimer y"
      using cprog_step_claimer [OF st] st Some by (auto simp: BRun Let_def simp del: cl_step.simps)
    ultimately show ?thesis by blast
  qed
next
  case (BTick i)
  let ?w = "eb_subs (ey_bus y) ! i"
  show ?thesis
  proof (cases "i < length (eb_subs (ey_bus y)) \<and> \<not> bs_lost ?w \<and> bs_renew ?w \<noteq> None")
    case True
    then obtain ref where ref: "bs_renew ?w = Some ref" by blast
    from assms obtain hs where hs: "holders_ok (ey_claimer y) (eb_subs (ey_bus y)) hs" unfolding binv_def by blast
    with True have "sub_ok (ey_claimer y) ?w (hs ! i)" and m: "hs ! i \<in> set hs" by (auto simp: holders_ok_def)
    then obtain j where j: "hs ! i = Some j" "ref = LiveRef j" using ref by (cases ref) (auto simp: sub_ok_def)
    then have "j \<in> open_receipts (ey_claimer y)" using hs m by (auto simp: holders_ok_def)
    moreover have "ey_claimer (bstep cfg unm y now op) = cl_step (ey_claimer y) now (ClExtend j (cc_LeaseTTL cfg))"
      using True ref j(2) tick_claimer [of cfg "ey_claimer y" now ref] by (auto simp: BTick Let_def simp del: cl_step.simps split: prod.splits)
    moreover have "op_token (ClExtend j (cc_LeaseTTL cfg)) = {}" by (simp add: op_token_def)
    ultimately show ?thesis by blast
  next
    case False
    show ?thesis unfolding BTick tick_idle [OF False] by simp
  qed
qed (auto simp: Let_def split: cprog.split list.split)

lemma cl_inv_bstep:
  assumes "binv U y" and "bop_tokens op \<inter> U = {}"
  shows "cl_inv (U \<union> bop_tokens op) (ey_claimer (bstep cfg unm y now op))"
  using claimer_bstep [OF assms(1), of cfg unm now op]
proof (elim disjE exE conjE)
  assume "ey_claimer (bstep cfg unm y now op) = ey_claimer y"
  then show ?thesis using assms(1) cl_inv_mono by (auto simp: binv_def)
next
  fix op' assume "op_token op' \<subseteq> bop_tokens op" and s: "ey_claimer (bstep cfg unm y now op) = cl_step (ey_claimer y) now op'"
  moreover from this assms(2) have "op_token op' \<inter> U = {}" by blast
  ultimately show ?thesis unfolding s using assms(1) by (intro cl_inv_mono [OF cl_inv_step]) (auto simp: binv_def)
qed

lemma binv_tick:
  assumes "binv U y"
  shows "binv U (bstep cfg unm y now (BTick i))"
proof (cases "i < length (eb_subs (ey_bus y)) \<and> \<not> bs_lost (eb_subs (ey_bus y) ! i) \<and> bs_renew (eb_subs (ey_bus y) ! i) \<noteq> None")
  case True
  let ?w = "eb_subs (ey_bus y) ! i" and ?z = "bstep cfg unm y now (BTick i)"
  from True obtain ref where ref: "bs_renew ?w = Some ref" by blast
  from assms obtain hs where hs: "holders_ok (ey_claimer y) (eb_subs (ey_bus y)) hs" unfolding binv_def by blast
  obtain c lost where t: "leaseRenewal_tick cfg (ey_claimer y) now ref = (c, lost)" by fastforce
  have mono: "sub_ok (ey_claimer y) w h \<Longrightarrow> sub_ok c w h" for w h
    using tick_claimer [OF t] sub_ok_mono by (auto split: receipt_ref.splits simp del: cl_step.simps)
  have same: "open_receipts c = open_receipts (ey_claimer y)"
    using tick_claimer [OF t] open_receipts_extend by (auto split: receipt_ref.splits simp del: cl_step.simps)
  have z: "ey_claimer ?z = c" "eb_subs (ey_bus ?z) = (eb_subs (ey_bus y))[i := ?w\<lparr>bs_lost := lost\<rparr>]"
    using True ref t by (simp_all add: Let_def set_sub_def)
  have "holders_ok c ((eb_subs (ey_bus y))[i := ?w\<lparr>bs_lost := lost\<rparr>]) (hs[i := hs ! i])"
  proof (rule holders_update [OF hs _ mono])
    show "i < length (eb_subs (ey_bus y))" using True by simp
    have "sub_ok (ey_claimer y) ?w (hs ! i)" using hs True by (simp add: holders_ok_def)
    then show "sub_ok c (?w\<lparr>bs_lost := lost\<rparr>) (hs ! i)" using mono by simp
    have "hs ! i \<in> set hs" using hs True by (simp add: holders_ok_def)
    then have "set_option (hs ! i) \<subseteq> open_receipts (ey_claimer y)" using hs by (auto simp: holders_ok_def)
    then show "open_receipts c = open_receipts (ey_claimer y) - set_option (hs ! i) \<union> set_option (hs ! i)" using same by auto
  qed simp_all
  moreover have "cl_inv U (ey_claimer ?z)"
    using cl_inv_bstep [OF assms, of "BTick i" cfg unm now] by (simp add: bop_tokens_def del: bstep.simps)
  ultimately show ?thesis unfolding binv_def z by blast
next
  case False
  show ?thesis unfolding tick_idle [OF False] by (rule assms)
qed

lemma binv_step:
  assumes "binv U y" and "bop_tokens op \<inter> U = {}"
  shows "binv (U \<union> bop_tokens op) (bstep cfg unm y now op)"
proof (cases op)
  case (BRun i a)
  then show ?thesis using binv_run assms by simp
next
  case (BTick i)
  then show ?thesis using binv_tick [OF assms(1)] by (simp add: bop_tokens_def)
next
  case (BPublish topic payload)
  then show ?thesis using binv_core [OF assms(1)] by (simp add: bop_tokens_def)
next
  case (BCount key)
  then show ?thesis using binv_core [OF assms(1)] by (simp add: bop_tokens_def bus_count_def split: option.split)
next
  case (BSend e i)
  then show ?thesis using binv_core [OF assms(1)] assms(1) by (simp add: bop_tokens_def)
next
  case (BSubscribe sub)
  have new: "sub_ok c \<lparr>bs_sub = sub, bs_ch = [], bs_prog = CEnd, bs_renew = None, bs_lost = False, bs_left = False\<rparr> None" for c
    by (auto simp: sub_ok_def)
  show ?thesis using assms(1) holders_idle [OF _ new]
    by (auto simp: BSubscribe bop_tokens_def binv_def bus_Subscribe_def Let_def)
next
  case (BTake i)
  show ?thesis
    by (rule binv_subs [OF binv_mono [OF assms(1)]])
      (auto simp: BTake Let_def set_sub_def nth_list_update sub_ok_take split: cprog.split list.split)
next
  case (BLeave i)
  show ?thesis
    by (rule binv_subs [OF binv_mono [OF assms(1)]])
      (auto simp: BLeave Let_def set_sub_def nth_list_update split: cprog.split)
next
  case BClose
  show ?thesis
    by (rule binv_subs [OF binv_mono [OF assms(1)]]) (auto simp: BClose bus_Close_def)
qed

lemma binv_start: "binv {} (bstart n)"
  using cl_inv_start by (auto simp: binv_def bstart_def bus_New_def holders_ok_def open_receipts_def cl_start_def)

interpretation bus_leases: lease_discipline "\<lambda>y (t, op). bstep cfg unm y t op" "\<lambda>(t, op). bop_tokens op" binv
  "\<lambda>y key. map_option ce_token (cl_map (ey_claimer y) key)" for cfg unm
proof unfold_locales
  fix U y and op :: "instant \<times> bop" assume "binv U y" "(case op of (t, op) \<Rightarrow> bop_tokens op) \<inter> U = {}"
  then show "binv (U \<union> (case op of (t, op) \<Rightarrow> bop_tokens op)) (case op of (t, op) \<Rightarrow> bstep cfg unm y t op)"
    by (cases op) (simp only: prod.case binv_step)
next
  fix U y key l and op :: "instant \<times> bop"
  assume inv: "binv U y" and l: "map_option ce_token (cl_map (ey_claimer (case op of (t, op) \<Rightarrow> bstep cfg unm y t op)) key) = Some l"
  obtain t op1 where op: "op = (t, op1)" by (cases op)
  from l op obtain e where e: "cl_map (ey_claimer (bstep cfg unm y t op1)) key = Some e" "ce_token e = l" by auto
  from claimer_bstep [OF inv, of cfg unm t op1]
  show "map_option ce_token (cl_map (ey_claimer y) key) = Some l \<or> l \<in> (case op of (t, op) \<Rightarrow> bop_tokens op)"
  proof (elim disjE exE conjE)
    assume "ey_claimer (bstep cfg unm y t op1) = ey_claimer y"
    then show ?thesis using e by simp
  next
    fix op' assume tok: "op_token op' \<subseteq> bop_tokens op1" and s: "ey_claimer (bstep cfg unm y t op1) = cl_step (ey_claimer y) t op'"
    from step_entry [OF e(1) [unfolded s]] e(2) tok show ?thesis by (auto simp: op op_token_def owned_iff)
  qed
qed

lemma binv_bexec:
  "binv U y \<Longrightarrow> fresh_run (\<lambda>(t, op). bop_tokens op) U ops \<Longrightarrow> binv (U \<union> (\<Union>(t, op) \<in> set ops. bop_tokens op)) (bexec cfg unm y ops)"
  using bus_leases.inv_after_run by (simp add: bexec_foldl)

lemma done_mark_bstep:
  assumes "binv U y" and "cl_map (ey_claimer y) key = Some e" "ce_state e = ClaimDone" "now < ce_expiresAt e"
  shows "cl_map (ey_claimer (bstep cfg unm y now op)) key = Some e"
  using claimer_bstep [OF assms(1), of cfg unm now op] done_mark_step [of U "ey_claimer y" key e now] assms
  by (auto simp: binv_def simp del: bstep.simps cl_step.simps)

text \<open>A step under an unexpired done mark neither acquires nor commits the key.\<close>

lemma cprog_step_done:
  assumes "cprog_step now a c w p = (c', evs, f, w')" and "cl_inv U c"
    and "cl_map c key = Some e" "ce_state e = ClaimDone" "now < ce_expiresAt e"
    and hold: "\<And>i k. p = CCommit (LiveRef i) k \<Longrightarrow> i \<in> open_receipts c"
  shows "CEvAcquired key \<notin> set evs \<and> CEvCommitted key \<notin> set evs"
proof (cases p)
  case (CClaim k l d g)
  then show ?thesis using assms(1) Claim_unexpired [of "cl_map c", OF assms(3,5), of l d "cn_token a"] assms(4)
    by (cases "k = key") (auto simp: Let_def claimer_claim_def split: prod.splits if_splits)
next
  case (CCommit ref g)
  have "False" if "CEvCommitted key \<in> set evs"
  proof -
    from that assms(1) obtain i where ref: "ref = LiveRef i" and u: "\<not> rc_used (cl_receipts c ! i)" "rc_key (cl_receipts c ! i) = key"
      and ok: "snd (claimer_commit c now ref) = None"
      by (auto simp: CCommit commit_effect_def split: prod.splits receipt_ref.splits if_splits)
    from ok u obtain x where "owned (cl_map c) (cl_receipts c ! i) = Some x"
      by (auto simp: ref claimer_commit_def Commit_def Let_def split: option.splits)
    moreover obtain k where k: "k < length (cl_receipts c)" "rc_token (cl_receipts c ! k) = ce_token e" "rc_used (cl_receipts c ! k)"
      using assms(2,3,4) unfolding cl_inv_def by blast
    moreover have "i < length (cl_receipts c)" using hold [of i g] by (simp add: CCommit ref open_receipts_def)
    ultimately have "i = k" using other_receipt [OF assms(2) k(1) assms(3), of i x] u(2) by simp
    then show False using u(1) k(3) by simp
  qed
  moreover have "CEvAcquired key \<notin> set evs"
    using assms(1) by (auto simp: CCommit commit_effect_def split: prod.splits receipt_ref.splits if_splits)
  ultimately show ?thesis by blast
qed (use assms(1) in \<open>auto split: prod.splits\<close>)

lemma key_events_bstep:
  assumes inv: "binv U y" and e: "cl_map (ey_claimer y) key = Some e" "ce_state e = ClaimDone" "now < ce_expiresAt e"
  shows "key_events key (bstep cfg unm y now op) = key_events key y"
proof (cases "\<exists>i a. op = BRun i a \<and> i < length (eb_subs (ey_bus y))")
  case True
  then obtain i a where op: "op = BRun i a" and i: "i < length (eb_subs (ey_bus y))" by blast
  let ?w = "eb_subs (ey_bus y) ! i"
  obtain c' evs f w' where st: "cprog_step now a (ey_claimer y) ?w (bs_prog ?w) = (c', evs, f, w')" by (metis prod_cases4)
  from inv obtain hs where hs: "holders_ok (ey_claimer y) (eb_subs (ey_bus y)) hs" and c: "cl_inv U (ey_claimer y)" unfolding binv_def by blast
  have hold: "j \<in> open_receipts (ey_claimer y)" if "bs_prog ?w = CCommit (LiveRef j) k" for j k
  proof -
    from hs i have "sub_ok (ey_claimer y) ?w (hs ! i)" and "hs ! i \<in> set hs" by (auto simp: holders_ok_def)
    with that have "Some j \<in> set hs" by (auto simp: sub_ok_def)
    with hs show ?thesis by (auto simp: holders_ok_def)
  qed
  have "CEvAcquired key \<notin> set evs \<and> CEvCommitted key \<notin> set evs" by (rule cprog_step_done [OF st c e hold])
  then have "filter (\<lambda>ev. ev \<in> {CEvAcquired key, CEvCommitted key}) evs = []"
    by (auto simp: filter_empty_conv)
  then show ?thesis using i st by (simp add: op key_events_def Let_def)
next
  case False
  then show ?thesis
    by (cases op) (auto simp: key_events_def Let_def split: cprog.split list.split option.split prod.split)
qed

lemma done_mark_bexec:
  assumes "binv U y" and "fresh_run (\<lambda>(t, op). bop_tokens op) U ops" and "cl_map (ey_claimer y) key = Some e" "ce_state e = ClaimDone"
    and "\<forall>(t, op) \<in> set ops. t < ce_expiresAt e"
  shows "cl_map (ey_claimer (bexec cfg unm y ops)) key = Some e \<and> key_events key (bexec cfg unm y ops) = key_events key y"
  using assms
proof (induction ops arbitrary: U y)
  case (Cons top ops)
  obtain t op where top: "top = (t, op)" by (cases top)
  have h: "bop_tokens op \<inter> U = {}" "fresh_run (\<lambda>(t, op). bop_tokens op) (U \<union> bop_tokens op) ops" "t < ce_expiresAt e"
    "\<forall>(t, op) \<in> set ops. t < ce_expiresAt e" using Cons.prems(2,5) by (auto simp: top)
  from Cons.IH [OF binv_step [OF Cons.prems(1) h(1)] h(2) done_mark_bstep [OF Cons.prems(1,3,4) h(3)] Cons.prems(4) h(4)]
    key_events_bstep [OF Cons.prems(1,3,4) h(3)]
  show ?case by (simp only: top bexec.simps)
qed simp

lemma sample_delivery_runs:
  "runs (deliver sample_consumer (sample_sub ''audit'') sample_order) [FClaim ClaimAcquired False, FHandled DispositionAck, FCommitted]"
proof -
  have cfg: "cc_ClaimPolicy sample_consumer = ClaimPolicyFailClosed" "cc_ClaimRetryCount sample_consumer = 3" "cc_RetryCount sample_consumer = 3"
    "\<not> cc_LeaseRenewalInterval sample_consumer \<le> 0" "hr_Disposition result_Ack = DispositionAck" by code_simp+
  show ?thesis
    by (auto simp: deliver_def handleWithRetry_def delivery_budget_def bus_maxRetries_def consumer_Wrap_def Let_def claimWithRetry_def
        brokerDelayPassthrough_def sample_sub_def handleClaimState_def runWithRenewal_def retryLoop_def cfg numeral_3_eq_3 runs_simps
        deliveryFrom_def processResult_def intro!: exI [of _ "LiveRef 0"] exI [of _ result_Ack] exI [of _ False])
qed

lemma sample_processed:
  "cl_map (ey_claimer (sample_bus sample_processing)) ''audit:evt-9'' = Some \<lparr>ce_state = ClaimDone, ce_token = ''t1'', ce_expiresAt = 3 + 24 * hour\<rparr>"
  "key_events ''audit:evt-9'' (sample_bus sample_processing) = [CEvCommitted ''audit:evt-9'', CEvAcquired ''audit:evt-9'']"
  by code_simp+

subsection \<open>Properties\<close>

text \<open>
  C17. Every delivery is accounted for and bounded: whatever the claimer, the handler, the context and the
  timers answer, a finished delivery has ended in a dead letter, in an aborted wait, in a commit after
  the handler acknowledged under an acquired claim, in the discovery that the entry was done, or, under
  the fail-open policy only, in an acknowledgement without a claim; and it called the handler at most
  once per try of each attempt.
\<close>

theorem delivery_is_accounted:
  assumes "NewConsumerBase c0 = Inr c" and "runs (deliver c sub e) fs"
  shows "delivery_accounted c fs \<and> int (handled fs) \<le> int (delivery_budget (su_BrokerDelaySchedule sub)) * cc_RetryCount c"
  using deliver_runs [OF assms] .

theorem delivery_is_accounted_witness:
  "delivery_accounted sample_consumer [FClaim ClaimAcquired False, FHandled DispositionAck, FCommitted]"
proof -
  have "NewConsumerBase sample_consumer = Inr sample_consumer" by code_simp
  from delivery_is_accounted [OF this sample_delivery_runs] show ?thesis by simp
qed

text \<open>
  C18. A message that a consumer group has processed is not processed again by it while its done mark
  lasts: from the commit of the key to the expiry of the done mark, no subscriber acquires or commits the
  key and the mark stays, however often the message is published, whoever renews a lease, and whatever
  the handlers, contexts and timers do.
\<close>

theorem processed_event_not_acquired_again:
  assumes "fresh_run (\<lambda>(t, op). bop_tokens op) {} (before @ later)" and "y = bexec cfg unm (bstart n) before" and "z = bexec cfg unm y later"
    and "cl_map (ey_claimer y) key = Some e" "ce_state e = ClaimDone" and "\<forall>(t, op) \<in> set later. t < ce_expiresAt e"
  shows "cl_map (ey_claimer z) key = Some e \<and> key_events key z = key_events key y"
proof -
  have fr: "fresh_run (\<lambda>(t, op). bop_tokens op) {} before" "fresh_run (\<lambda>(t, op). bop_tokens op) (\<Union>(t, op) \<in> set before. bop_tokens op) later"
    using assms(1) by (simp_all add: fresh_run_append)
  from binv_bexec [OF binv_start fr(1)] have "binv (\<Union>(t, op) \<in> set before. bop_tokens op) y" by (simp add: assms(2))
  from done_mark_bexec [OF this fr(2) assms(4-6)] show ?thesis by (simp add: assms(3))
qed

theorem processed_event_not_acquired_again_witness:
  "key_events ''audit:evt-9'' (sample_bus (sample_processing @ sample_redelivery)) = [CEvCommitted ''audit:evt-9'', CEvAcquired ''audit:evt-9'']"
proof -
  have "fresh_run (\<lambda>(t, op). bop_tokens op) {} (sample_processing @ sample_redelivery)"
    by (simp add: sample_processing_def sample_redelivery_def sample_subscriptions_def bop_tokens_def sample_cn_def)
  moreover have "\<forall>(t, op) \<in> set sample_redelivery. t < 3 + 24 * hour"
    by (simp add: sample_redelivery_def duration_defs)
  ultimately show ?thesis
    using processed_event_not_acquired_again [where unm = sample_unmarshal, OF _ sample_bus_def refl sample_processed(1)] sample_processed(2)
    by (simp add: sample_bus_def bexec_append)
qed

text \<open>
  C19. No claim is left behind: under every interleaving there are at most as many receipts that are neither
  committed nor released as subscribers in the middle of a delivery, so that a bus whose subscribers
  are idle has settled every claim it acquired.
\<close>

theorem claims_are_settled:
  assumes "fresh_run (\<lambda>(t, op). bop_tokens op) {} ops" and "y = bexec cfg unm (bstart n) ops"
  shows "card (open_receipts (ey_claimer y)) \<le> length (filter busy (eb_subs (ey_bus y)))"
proof -
  from binv_bexec [OF binv_start assms(1)] have "binv (\<Union>(t, op) \<in> set ops. bop_tokens op) y" by (simp add: assms(2))
  then obtain hs where hs: "holders_ok (ey_claimer y) (eb_subs (ey_bus y)) hs" unfolding binv_def by blast
  let ?ws = "eb_subs (ey_bus y)" and ?B = "{i. i < length hs \<and> hs ! i \<noteq> None}"
  have "open_receipts (ey_claimer y) \<subseteq> (\<lambda>i. the (hs ! i)) ` ?B"
  proof
    fix j assume "j \<in> open_receipts (ey_claimer y)"
    with hs have "Some j \<in> set hs" by (simp add: holders_ok_def)
    then obtain i where "i < length hs" "hs ! i = Some j" by (metis in_set_conv_nth)
    then show "j \<in> (\<lambda>i. the (hs ! i)) ` ?B" by (intro image_eqI [of _ _ i]) simp_all
  qed
  then have "card (open_receipts (ey_claimer y)) \<le> card ?B" by (rule surj_card_le [rotated]) simp
  also have "\<dots> \<le> card {i. i < length ?ws \<and> busy (?ws ! i)}"
  proof (rule card_mono)
    show "?B \<subseteq> {i. i < length ?ws \<and> busy (?ws ! i)}"
      using hs by (auto simp: holders_ok_def sub_ok_def busy_def split: cprog.split)
  qed simp
  finally show ?thesis by (simp add: length_filter_conv_card)
qed

theorem claims_are_settled_witness:
  "card (open_receipts (ey_claimer (sample_bus sample_processing))) = 0"
proof -
  have "fresh_run (\<lambda>(t, op). bop_tokens op) {} sample_processing"
    by (simp add: sample_processing_def sample_subscriptions_def bop_tokens_def sample_cn_def)
  moreover have "length (filter busy (eb_subs (ey_bus (sample_bus sample_processing)))) = 0" by code_simp
  ultimately show ?thesis using claims_are_settled [where unm = sample_unmarshal, OF _ sample_bus_def] by fastforce
qed

text \<open>
  The idempotency key does not separate consumer groups, although the comment of \<^verbatim>\<open>Wrap\<close> says that
  each consumer group is a namespace of its own: when the group \<^verbatim>\<open>audit\<close> has processed the entry
  \<^verbatim>\<open>eu:evt-9\<close>, the group \<^verbatim>\<open>audit:eu\<close> acknowledges the entry \<^verbatim>\<open>evt-9\<close> without having processed it. The
  subscriptions and the entries are valid, and nothing is dead-lettered.
\<close>

lemma consumer_keys_collide:
  "subscription_Validate (sample_sub ''audit'') = Inr () \<and> subscription_Validate (sample_sub ''audit:eu'') = Inr () \<and>
   Entry_Validate sample_order = Inr () \<and> Entry_Validate (sample_order\<lparr>oe_id := ''eu:evt-9''\<rparr>) = Inr () \<and>
   consumer_key (sample_sub ''audit'') (sample_order\<lparr>oe_id := ''eu:evt-9''\<rparr>) = consumer_key (sample_sub ''audit:eu'') sample_order \<and>
   CEvHandled ''audit'' ''eu:evt-9'' \<in> set (ey_trace (sample_bus sample_collision)) \<and>
   CEvHandled ''audit:eu'' ''evt-9'' \<notin> set (ey_trace (sample_bus sample_collision)) \<and>
   length (filter busy (eb_subs (ey_bus (sample_bus sample_collision)))) = 0 \<and>
   map bs_ch (eb_subs (ey_bus (sample_bus sample_collision))) = [[], []] \<and>
   eb_deadLetters (ey_bus (sample_bus sample_collision)) = []"
  by (intro conjI; code_simp)

end
