(* ===== verification/Spec2Isabelle.thy ===== *)
theory Spec2Isabelle
  imports Gocell_Prelude Safe_Id Fsm Saga_Core Go_Json Saga_Journal
    Exp_Backoff Saga_Executor Go_Json_Encode Saga_Coordinator
    Metadata_Limits Command_Core Command_Queue Circuit_Breaker Idempotency
    Outbox_Core Outbox_Store Failure_Budget Lease_Discipline Outbox_Relay Outbox_Delivery Outbox_Maintenance
    Event_Consumer Event_Bus Event_Delivery
begin

text \<open>
  GoCell is a Go framework for services made of cells that exchange events and commands. This
  development is about the parts of the framework that carry state through failures: sagas, device
  commands, the outbox with its relay, the event bus with its consumers, and the small state machines
  they share (idempotency claims, circuit breaker, failure budget). The paths below are relative to
  \<^verbatim>\<open>src/\<close>.

  \<^bold>\<open>How the parts interact.\<close>
  A business transaction writes an outbox entry. A relay polls the outbox store, publishes the events
  to a broker and dispatches the commands to their handlers under an idempotency claim, and settles
  every row. The in-memory event bus is such a broker: it puts an entry into the channels of its
  subscribers, whose consumer base claims the entry, calls the handler with retries while it renews the
  lease, and commits or releases the claim. A saga coordinator claims saga instances from the journal,
  runs their steps with the step executor, logs each outcome and rolls back committed steps when one
  fails. The command queue holds commands for devices until they are delivered, acknowledged or
  expired.

  \<^bold>\<open>Conventions.\<close>
  A Go struct is a record, an enumeration a datatype with an extra constructor for the values that
  have no name, an error a value of \<open>goerr\<close>. A method that runs under a mutex is one function of the
  state and of what it reads from outside (the clock, a random name). Code that calls out between its
  steps is a program whose nodes are the calls (\<open>prog\<close>, \<open>rprog\<close>, \<open>cprog\<close>); a system of several such
  programs interleaves at the nodes, and a crash is a program that is never continued. A Go map that
  is ranged over is an association list in the order of one run, and the theorems hold for every
  order. Integers keep their width where the code does arithmetic on them: \<open>i64\<close> for Go's \<^verbatim>\<open>int\<close>, words
  for the counters of the breaker.

  \<^bold>\<open>Shared theories.\<close>
  \<^item> \<open>Gocell_Prelude\<close>: integers, instants, errors (\<^verbatim>\<open>framework/pkg/errcode\<close>), decimal text, lemmas on
    association lists.
  \<^item> \<open>Safe_Id\<close>: identifiers (\<^verbatim>\<open>framework/pkg/idutil\<close>).
  \<^item> \<open>Fsm\<close>: transition tables (\<^verbatim>\<open>framework/kernel/fsm\<close>) and their contract as locales, interpreted for
    the saga, command and outbox tables.
  \<^item> \<open>Go_Json\<close>, \<open>Go_Json_Encode\<close>: the scanner and the string encoder of the standard library's
    \<^verbatim>\<open>encoding/json\<close>; what the encoder writes is accepted by the scanner.
  \<^item> \<open>Metadata_Limits\<close>: the limits on metadata maps (\<^verbatim>\<open>framework/kernel/metautil\<close>).
  \<^item> \<open>Exp_Backoff\<close>: \<^verbatim>\<open>outbox.ExponentialDelay\<close> with its 64-bit arithmetic.
  \<^item> \<open>Lease_Discipline\<close>: the contract that fencing rests on (names are issued once; a holder that lost
    its resource never gets it back), interpreted for the claimer, the relay and the bus.

  \<^bold>\<open>Sagas.\<close>
  \<^item> \<open>Saga_Core\<close> (\<^verbatim>\<open>framework/kernel/saga\<close>): statuses, instances, definitions, registry.
  \<^item> \<open>Saga_Journal\<close> (\<^verbatim>\<open>framework/kernel/saga/journal\<close>): the in-memory journal. The projection of an
    instance is the fold of its log, leases exclude and fence, terminal instances are frozen, paging
    through the global log reads all of it.
  \<^item> \<open>Saga_Executor\<close> (\<^verbatim>\<open>framework/runtime/saga/executor\<close>): the attempt loop with its heartbeat
    goroutine. The outcome is what the last attempt and the context say; attempts are bounded.
  \<^item> \<open>Saga_Coordinator\<close> (\<^verbatim>\<open>framework/runtime/saga\<close>): many coordinators on one journal. Steps commit in
    order and at most once, rollback outcomes are recorded at most once, an uninterrupted rollback
    runs to the end.

  \<^bold>\<open>Device commands.\<close>
  \<^item> \<open>Command_Core\<close>, \<open>Command_Queue\<close> (\<^verbatim>\<open>framework/kernel/command\<close>, \<^verbatim>\<open>commandtest/inmem.go\<close>): the command
    state machine, the queue and the sweeper. A stored command shares its metadata map with the caller
    that enqueued it, so the maps of callers are part of the state. The queue stays consistent under
    every interleaving, the cap on pending commands is hard, finished commands are final, a sweep
    expires the overdue commands, and active keys are unique as long as callers do not use a map again
    that they have enqueued; when they do, a command is dropped.

  \<^bold>\<open>Outbox.\<close>
  \<^item> \<open>Idempotency\<close> (\<^verbatim>\<open>framework/kernel/idempotency\<close>): claims with leases and done marks. A commit is
    remembered for its TTL unless its receipt is extended afterwards, which cuts the done mark short.
  \<^item> \<open>Outbox_Core\<close>, \<open>Outbox_Store\<close> (\<^verbatim>\<open>framework/kernel/outbox\<close>, \<^verbatim>\<open>framework/runtime/outbox/store.go\<close>,
    \<^verbatim>\<open>outboxtest/fake_store.go\<close>): entries, claim keys, rows and the store.
  \<^item> \<open>Failure_Budget\<close> (\<^verbatim>\<open>framework/runtime/outbox/health.go\<close>): as one call, where it implements a counter
    of consecutive failures, and as atomic operations of several goroutines.
  \<^item> \<open>Outbox_Relay\<close>, \<open>Outbox_Delivery\<close>, \<open>Outbox_Maintenance\<close> (\<^verbatim>\<open>framework/runtime/outbox\<close>): polls as
    programs, their interleavings with producers, other relays, reclaims, cleanups and crashes. Nothing
    that was written is lost, attempts are bounded, leases fence, handlers are called only under an
    acquisition and no processed command is acquired again while its done mark lasts, an undisturbed poll publishes its batch, a cleanup removes what
    has expired.

  \<^bold>\<open>Event bus.\<close>
  \<^item> \<open>Event_Consumer\<close> (\<^verbatim>\<open>framework/kernel/outbox/consumer_base.go\<close>): one delivery as a program.
  \<^item> \<open>Event_Bus\<close> (\<^verbatim>\<open>framework/runtime/eventbus\<close>): groups, channels, the delivery loop, and the
    interleavings of subscribers, lease renewals and publishers. A publication is one step, or the
    single sends and counter moves it consists of.
  \<^item> \<open>Event_Delivery\<close>: what the two promise together. Every finished delivery is accounted for,
    processed events are not acquired again, an idle bus has no open claim.

  \<^bold>\<open>Circuit breaker.\<close>
  \<^item> \<open>Circuit_Breaker\<close> (\<^verbatim>\<open>framework/kernel/circuitbreaker\<close>): each critical section is a step. An open
    circuit admits nothing before its timeout, half-open probes are bounded, and a half-open circuit
    is not stuck.

  \<^bold>\<open>Termination and bounds.\<close>
  One definition uses fuel: \<open>drain\<close> of \<open>Saga_Journal\<close>, a client that pages through the global log until a
  page is empty; its lemma shows that one page more than there are events is enough to read the whole
  log. Loops over data are structural recursions; the loops that the code ends by a condition have a
  \<open>termination\<close> proof (the cleanup drain shrinks the store, attempts count up, the encoder consumes its
  input). Loops that wait for the environment are programs, and the schedules that run them are finite
  lists of any length, so a theorem about every schedule covers every finite prefix of a run that goes
  on for ever.

  \<^bold>\<open>Parameters.\<close>
  Random names are arguments; the theorems that need it assume that they do not repeat. The relay takes
  the encoding of the wire envelope, the parsing of times and the redaction of error texts as arguments,
  the bus takes the decoding of the envelope. Handlers, steps and compensations are code of the
  application and answer arbitrarily.

  \<^bold>\<open>Not modelled.\<close>
  Logging, metrics, tracing, observers and health endpoints, which do not change the state of the
  components. The goroutines and tickers that start and stop the loops: they order the calls, which the
  schedules leave arbitrary. The adapters (PostgreSQL, Redis, RabbitMQ, MQTT, Vault, S3, OIDC): their
  behaviour is that of services and client libraries outside the repository; the in-memory
  implementations of the same interfaces are modelled. Authentication, certificates and envelope
  encryption, whose core is cryptography of other packages. Bootstrap, HTTP, gRPC and WebSocket
  runtimes, which are wiring of net/http, grpc-go and sockets. The metadata parser, governance rules,
  code generators, command-line tools, linters, generated code and examples, which act on the
  repository and not on a running service.
\<close>

end
